(* ===== verification/Prelude.thy ===== *)
theory Prelude
  imports Main "HOL-Library.Word" "HOL-Library.Sublist"
begin

text \<open>
  Shared vocabulary of the development: the machine integers of the firmware as words, byte
  buffers as lists with checked reads and writes (\<open>None\<close> is an access outside the
  object, undefined behaviour in C), little-endian conversions with their round trips, and
  the C rules for signed division. Everything here is independent of one component.
\<close>

unbundle bit_operations_syntax

section \<open>Types\<close>

type_synonym u8 = "8 word"
type_synonym u16 = "16 word"
type_synonym u32 = "32 word"
type_synonym i16 = "16 word" \<comment> \<open>\<open>int16_t\<close>, read with \<open>sint\<close>\<close>
type_synonym bytes = "u8 list"

text \<open>Facts that turn word comparisons into arithmetic on \<open>nat\<close>.\<close>

named_theorems word_nat

declare word_less_nat_alt [word_nat] word_le_nat_alt [word_nat]

text \<open>Shifts stay shifts: their bits are what the proofs reason about.\<close>

declare push_bit_Suc [simp del]

section \<open>errno values (picolibc); the model only relies on their being positive and distinct\<close>

abbreviation (input) ENOENT :: int where "ENOENT \<equiv> 2"
abbreviation (input) EIO :: int where "EIO \<equiv> 5"
abbreviation (input) ENOMEM :: int where "ENOMEM \<equiv> 12"
abbreviation (input) ENODEV :: int where "ENODEV \<equiv> 19"
abbreviation (input) EALREADY :: int where "EALREADY \<equiv> 120"
abbreviation (input) ENOTCONN :: int where "ENOTCONN \<equiv> 128"

text \<open>The period of the records in seconds (src/src/store.h), used by several components.\<close>

abbreviation (input) STORE_PERIOD_S :: nat where "STORE_PERIOD_S \<equiv> 30"

section \<open>Checked buffer accesses\<close>

definition rd8 :: "bytes \<Rightarrow> nat \<Rightarrow> u8 option" where
  "rd8 m i = (if i < length m then Some (m ! i) else None)"

definition poke :: "bytes \<Rightarrow> nat \<Rightarrow> bytes \<Rightarrow> bytes option" where
  "poke m i bs = (if i + length bs \<le> length m
                  then Some (take i m @ bs @ drop (i + length bs) m) else None)"

lemma rd8_in [simp]: "i < length m \<Longrightarrow> rd8 m i = Some (m ! i)"
  by (simp add: rd8_def)

lemma rd8_out: "length m \<le> i \<Longrightarrow> rd8 m i = None"
  by (simp add: rd8_def)

lemma poke_length: "poke m i bs = Some m' \<Longrightarrow> length m' = length m"
  by (auto simp: poke_def split: if_splits)

lemma poke_take: "poke m i bs = Some m' \<Longrightarrow> take i m' = take i m"
  by (auto simp: poke_def split: if_splits)

lemma poke_take_append:
  "poke m i bs = Some m' \<Longrightarrow> take (i + length bs) m' = take i m @ bs"
  by (auto simp: poke_def split: if_splits)

lemma poke_eq: "i + length bs \<le> length m \<Longrightarrow> poke m i bs = Some (take i m @ bs @ drop (i + length bs) m)"
  by (simp add: poke_def)

lemma poke_in: "i + length bs \<le> length m \<Longrightarrow> \<exists>m'. poke m i bs = Some m'"
  by (simp add: poke_def)

section \<open>Exclusive or\<close>

lemma xor_move:
  fixes a b c :: "'a::len word"
  shows "a XOR b = c \<longleftrightarrow> a = b XOR c"
  by (auto simp: xor.commute xor.left_commute)

section \<open>Little-endian integers\<close>

definition le16 :: "u16 \<Rightarrow> bytes" where
  "le16 w = [ucast w, ucast (drop_bit 8 w)]"

definition le32 :: "u32 \<Rightarrow> bytes" where
  "le32 w = [ucast w, ucast (drop_bit 8 w), ucast (drop_bit 16 w), ucast (drop_bit 24 w)]"

definition of_le16 :: "u8 \<Rightarrow> u8 \<Rightarrow> u16" where
  "of_le16 a b = ucast a OR push_bit 8 (ucast b)"

definition of_le32 :: "u8 \<Rightarrow> u8 \<Rightarrow> u8 \<Rightarrow> u8 \<Rightarrow> u32" where
  "of_le32 a b c d = ucast a OR push_bit 8 (ucast b) OR push_bit 16 (ucast c)
                     OR push_bit 24 (ucast d)"

lemma length_le16 [simp]: "length (le16 w) = 2"
  by (simp add: le16_def)

lemma length_le32 [simp]: "length (le32 w) = 4"
  by (simp add: le32_def)

lemma of_le16_le16 [simp]: "of_le16 (ucast w) (ucast (drop_bit 8 w)) = w"
  unfolding of_le16_def by (rule bit_word_eqI) (auto simp: bit_simps)

lemma of_le32_le32 [simp]:
  "of_le32 (ucast w) (ucast (drop_bit 8 w)) (ucast (drop_bit 16 w)) (ucast (drop_bit 24 w)) = w"
proof (rule bit_word_eqI)
  fix n assume "n < LENGTH(32)"
  then consider "n < 8" | "8 \<le> n" "n < 16" | "16 \<le> n" "n < 24" | "24 \<le> n" "n < 32"
    by fastforce
  then show "bit (of_le32 (ucast w) (ucast (drop_bit 8 w)) (ucast (drop_bit 16 w))
               (ucast (drop_bit 24 w))) n \<longleftrightarrow> bit w n"
    by cases (auto simp: of_le32_def bit_simps)
qed

lemma le16_of_le16 [simp]: "le16 (of_le16 a b) = [a, b]"
proof -
  have "ucast (of_le16 a b) = a"
    unfolding of_le16_def by (rule bit_word_eqI) (auto simp: bit_simps)
  moreover have "ucast (drop_bit 8 (of_le16 a b)) = b"
    unfolding of_le16_def by (rule bit_word_eqI) (auto simp: bit_simps dest: bit_imp_le_length)
  ultimately show ?thesis by (simp add: le16_def)
qed

lemma le32_of_le32 [simp]: "le32 (of_le32 a b c d) = [a, b, c, d]"
proof -
  have "ucast (of_le32 a b c d) = a"
    unfolding of_le32_def by (rule bit_word_eqI) (auto simp: bit_simps)
  moreover have "ucast (drop_bit 8 (of_le32 a b c d)) = b"
    unfolding of_le32_def by (rule bit_word_eqI) (auto simp: bit_simps dest: bit_imp_le_length)
  moreover have "ucast (drop_bit 16 (of_le32 a b c d)) = c"
    unfolding of_le32_def by (rule bit_word_eqI) (auto simp: bit_simps dest: bit_imp_le_length)
  moreover have "ucast (drop_bit 24 (of_le32 a b c d)) = d"
    unfolding of_le32_def by (rule bit_word_eqI) (auto simp: bit_simps dest: bit_imp_le_length)
  ultimately show ?thesis by (simp add: le32_def)
qed

lemma le16_inj:
  assumes "le16 v = le16 w"
  shows "v = w"
proof -
  have "of_le16 (le16 v ! 0) (le16 v ! 1) = of_le16 (le16 w ! 0) (le16 w ! 1)"
    by (simp only: assms)
  then show ?thesis by (simp add: le16_def)
qed

lemma le32_inj:
  assumes "le32 v = le32 w"
  shows "v = w"
proof -
  have "of_le32 (le32 v ! 0) (le32 v ! 1) (le32 v ! 2) (le32 v ! 3) =
        of_le32 (le32 w ! 0) (le32 w ! 1) (le32 w ! 2) (le32 w ! 3)"
    by (simp only: assms)
  then show ?thesis by (simp add: le32_def)
qed

text \<open>A checked four-byte read at an offset, \<open>memcpy\<close> of a \<open>uint32_t\<close>.\<close>

definition rd_le32 :: "bytes \<Rightarrow> nat \<Rightarrow> u32 option" where
  "rd_le32 m i = (if i + 4 \<le> length m
     then Some (of_le32 (m ! i) (m ! (i + 1)) (m ! (i + 2)) (m ! (i + 3))) else None)"

lemma rd_le32_in [simp]:
  "i + 4 \<le> length m \<Longrightarrow>
   rd_le32 m i = Some (of_le32 (m ! i) (m ! (i + 1)) (m ! (i + 2)) (m ! (i + 3)))"
  by (simp add: rd_le32_def)

lemma rd_le32_out: "length m < i + 4 \<Longrightarrow> rd_le32 m i = None"
  by (simp add: rd_le32_def)

lemma rd_le32_take: "i + 4 \<le> n \<Longrightarrow> n \<le> length m \<Longrightarrow> rd_le32 (take n m) i = rd_le32 m i"
  by (simp add: rd_le32_def)

section \<open>C division of signed integers truncates towards zero\<close>

definition cdiv :: "int \<Rightarrow> int \<Rightarrow> int" where
  "cdiv a b = sgn a * sgn b * (\<bar>a\<bar> div \<bar>b\<bar>)"

lemma cdiv_nonneg: "0 \<le> a \<Longrightarrow> 0 < b \<Longrightarrow> cdiv a b = a div b"
  by (cases "a = 0") (auto simp: cdiv_def)

section \<open>Arithmetic of words that do not wrap\<close>

lemma unat_add_nowrap:
  fixes a b :: "'a::len word"
  shows "unat a + unat b < 2 ^ LENGTH('a) \<Longrightarrow> unat (a + b) = unat a + unat b"
  by (simp add: unat_word_ariths)

lemma unat_Suc_word:
  fixes a b :: "'a::len word"
  assumes "a < b"
  shows "unat (a + 1) = Suc (unat a)"
proof -
  have "unat a < unat b" and "unat b < 2 ^ LENGTH('a)"
    using assms by (auto simp: word_nat)
  then have "Suc (unat a) < 2 ^ LENGTH('a)" by linarith
  then have "unat a + unat (1 :: 'a word) < 2 ^ LENGTH('a)" by simp
  then show ?thesis by (subst unat_add_nowrap) simp_all
qed


lemma unat_ucast_up:
  "LENGTH('a) \<le> LENGTH('b) \<Longrightarrow> unat (ucast (w :: 'a::len word) :: 'b::len word) = unat w"
  by (simp add: unsigned_ucast_eq take_bit_nat_eq_self_iff less_le_trans [OF unsigned_less])

lemma unat_ucast_small:
  "unat (w :: 'a::len word) < 2 ^ LENGTH('b) \<Longrightarrow> unat (ucast w :: 'b::len word) = unat w"
  by (simp add: unsigned_ucast_eq take_bit_nat_eq_self_iff)

lemma unat_of_nat_small:
  "n < 2 ^ LENGTH('a) \<Longrightarrow> unat (of_nat n :: 'a::len word) = n"
  by (simp add: unat_of_nat)


text \<open>Eight turns of a bit loop, unrolled for evaluation.\<close>

lemma funpow_8: "(f ^^ 8) x = f (f (f (f (f (f (f (f x)))))))"
  by (simp add: eval_nat_numeral)


section \<open>Runs of a step relation that emits outputs\<close>

inductive runs :: "('s \<Rightarrow> 'o list \<Rightarrow> 's \<Rightarrow> bool) \<Rightarrow> 's \<Rightarrow> 'o list \<Rightarrow> 's \<Rightarrow> bool"
  for step :: "'s \<Rightarrow> 'o list \<Rightarrow> 's \<Rightarrow> bool" where
  runs_refl: "runs step s [] s"
| runs_step: "runs step s xs t \<Longrightarrow> step t ys u \<Longrightarrow> runs step s (xs @ ys) u"

lemma runs_one: "step s ys t \<Longrightarrow> runs step s ys t"
  using runs_step [OF runs_refl, of step s ys t] by simp

lemma runs_invariant:
  assumes "runs step s xs t" and "P s"
    and "\<And>s ys t. P s \<Longrightarrow> step s ys t \<Longrightarrow> P t"
  shows "P t"
  using assms(1,2) by (induction rule: runs.induct) (auto intro: assms(3))

lemma runs_cons:
  assumes "step s xs t" and "runs step t ys u"
  shows "runs step s (xs @ ys) u"
  using assms(2,1)
proof (induction rule: runs.induct)
  case (runs_refl s')
  then show ?case using runs_one [of step s xs s'] by simp
next
  case (runs_step s' ys t' zs u)
  then show ?case using runs.runs_step [of step s "xs @ ys" t' zs u] by simp
qed

lemma runs_append:
  assumes "runs step s xs t" and "runs step t ys u"
  shows "runs step s (xs @ ys) u"
  using assms(2,1)
proof (induction rule: runs.induct)
  case (runs_step t ys t' zs u)
  then show ?case using runs.runs_step [of step s "xs @ ys" t' zs u] by simp
qed simp

end
