(* ===== verification/Crc.thy ===== *)
theory Crc
  imports Prelude
begin

text \<open>
  The theory of the non-reflected shift-register CRCs the firmware computes: CRC-16/CCITT-FALSE
  over a frame (\<open>sntl_crc16\<close>, src/src/frame.c) and CRC-8 over a sensor word (\<open>crc8\<close>,
  src/src/sen5x.c). Both run the same register with another width and polynomial, so the facts
  are proved once, in a locale over the polynomial, and used at the two instances:
  the byte-at-a-time loop of the code computes the bit-serial register (the reference
  definition of the CRC), the register is linear and invertible, and two messages that
  differ within one window of at most as many bits as the register is wide never have the
  same CRC (burst detection).
\<close>

section \<open>The bit-serial reference\<close>

definition crc_shift :: "'a::len word \<Rightarrow> 'a word \<Rightarrow> 'a word" where
  "crc_shift poly s = (if bit s (LENGTH('a) - 1) then push_bit 1 s XOR poly else push_bit 1 s)"

definition top_bit :: "bool \<Rightarrow> 'a::len word" where
  "top_bit b = push_bit (LENGTH('a) - 1) (of_bool b)"

definition crc_bit :: "'a::len word \<Rightarrow> 'a word \<Rightarrow> bool \<Rightarrow> 'a word" where
  "crc_bit poly s b = crc_shift poly (s XOR top_bit b)"

definition crc_bits :: "'a::len word \<Rightarrow> 'a word \<Rightarrow> bool list \<Rightarrow> 'a word" where
  "crc_bits poly s bs = foldl (crc_bit poly) s bs"

text \<open>The bits of a byte, most significant first.\<close>

definition byte_bits :: "u8 \<Rightarrow> bool list" where
  "byte_bits b = map (bit b) (rev [0..<8])"

definition bytes_bits :: "bytes \<Rightarrow> bool list" where
  "bytes_bits xs = concat (map byte_bits xs)"

lemma crc_bits_Nil [simp]: "crc_bits poly s [] = s"
  by (simp add: crc_bits_def)

lemma crc_bits_Cons [simp]: "crc_bits poly s (b # bs) = crc_bits poly (crc_bit poly s b) bs"
  by (simp add: crc_bits_def)

lemma crc_bits_append [simp]: "crc_bits poly s (bs @ cs) = crc_bits poly (crc_bits poly s bs) cs"
  by (simp add: crc_bits_def)

lemma length_byte_bits [simp]: "length (byte_bits b) = 8"
  by (simp add: byte_bits_def)

lemma bytes_bits_simps [simp]:
  "bytes_bits [] = []" "bytes_bits (b # bs) = byte_bits b @ bytes_bits bs"
  by (simp_all add: bytes_bits_def)

lemma bytes_bits_append [simp]: "bytes_bits (xs @ ys) = bytes_bits xs @ bytes_bits ys"
  by (simp add: bytes_bits_def)

lemma length_bytes_bits [simp]: "length (bytes_bits xs) = 8 * length xs"
  by (induction xs) auto

lemma byte_bits_inj: "byte_bits a = byte_bits b \<Longrightarrow> a = b"
  by (rule bit_word_eqI) (auto simp: byte_bits_def)

lemma bytes_bits_inj: "bytes_bits xs = bytes_bits ys \<Longrightarrow> xs = ys"
proof (induction xs arbitrary: ys)
  case Nil
  then have "length (bytes_bits ys) = 0" by (metis bytes_bits_simps(1) list.size(3))
  then show ?case by simp
next
  case (Cons x xs)
  then have "length (bytes_bits ys) = length (bytes_bits (x # xs))" by simp
  then obtain y ys' where ys: "ys = y # ys'" by (cases ys) auto
  with Cons.prems have "byte_bits x = byte_bits y \<and> bytes_bits xs = bytes_bits ys'"
    by simp
  with Cons.IH ys show ?case by (auto dest: byte_bits_inj)
qed

section \<open>Linearity\<close>

lemma bit_top_bit: "bit (top_bit b :: 'a::len word) n \<longleftrightarrow> n = LENGTH('a) - 1 \<and> b"
  by (auto simp: top_bit_def bit_simps)

lemma push_bit_xor_word:
  fixes a b :: "'a::len word"
  shows "push_bit n (a XOR b) = push_bit n a XOR push_bit n b"
  by (rule bit_word_eqI) (auto simp: bit_simps)

lemma crc_shift_xor: "crc_shift poly (a XOR b) = crc_shift poly a XOR crc_shift poly b"
  unfolding crc_shift_def push_bit_xor_word
  by (rule bit_word_eqI) (auto simp: bit_simps)

lemma crc_shift_zero [simp]: "crc_shift poly 0 = 0"
  by (simp add: crc_shift_def)

lemma crc_bit_xor:
  "crc_bit poly (a XOR b) (p = (\<not> q)) = crc_bit poly a p XOR crc_bit poly b q"
proof -
  have "(a XOR b) XOR top_bit (p = (\<not> q)) = (a XOR top_bit p) XOR (b XOR top_bit q)"
    by (rule bit_word_eqI) (auto simp: bit_simps bit_top_bit)
  then show ?thesis by (simp add: crc_bit_def crc_shift_xor)
qed

lemma crc_bits_xor:
  "length ps = length qs \<Longrightarrow>
   crc_bits poly (a XOR b) (map2 (\<noteq>) ps qs) = crc_bits poly a ps XOR crc_bits poly b qs"
  by (induction ps qs arbitrary: a b rule: list_induct2) (simp_all add: crc_bit_xor)

lemma crc_shift_no_top:
  fixes s :: "'a::len word"
  shows "\<not> bit s (LENGTH('a) - 1) \<Longrightarrow> crc_shift poly s = push_bit 1 s"
  by (simp add: crc_shift_def)

section \<open>A byte at a time\<close>

text \<open>
  The loops of the code add a whole byte at the top of the register and then shift eight
  times; that is eight steps of the bit-serial register.
\<close>

lemma crc_bits_low_bits:
  fixes s :: "'a::len word" and b :: u8
  assumes "n \<le> LENGTH('a)" and "n \<le> 8"
  shows "crc_bits poly s (map (bit b) (rev [0..<n])) =
         (crc_shift poly ^^ n) (s XOR push_bit (LENGTH('a) - n) (take_bit n (ucast b)))"
  using assms
proof (induction n arbitrary: s)
  case 0
  then show ?case by simp
next
  case (Suc n)
  let ?L = "LENGTH('a)"
  let ?low = "push_bit (?L - Suc n) (take_bit n (ucast b)) :: 'a word"
  have split: "push_bit (?L - Suc n) (take_bit (Suc n) (ucast b)) = top_bit (bit b n) XOR ?low"
    using Suc.prems
    by (intro bit_word_eqI) (auto simp: bit_simps bit_top_bit less_Suc_eq)
  have "crc_shift poly ?low = push_bit (?L - n) (take_bit n (ucast b))"
  proof -
    have "\<not> bit ?low (?L - 1)" using Suc.prems by (auto simp: bit_simps)
    then have "crc_shift poly ?low = push_bit 1 ?low" by (rule crc_shift_no_top)
    also have "\<dots> = push_bit (?L - n) (take_bit n (ucast b))"
      using Suc.prems by (simp add: Suc_diff_Suc flip: push_bit_Suc)
    finally show ?thesis .
  qed
  then have step: "crc_shift poly (s XOR push_bit (?L - Suc n) (take_bit (Suc n) (ucast b))) =
      crc_bit poly s (bit b n) XOR push_bit (?L - n) (take_bit n (ucast b))"
    by (simp add: split crc_bit_def crc_shift_xor flip: xor.assoc)
  from Suc show ?case by (simp add: funpow_swap1 step)
qed

lemma crc_bits_byte:
  fixes s :: "'a::len word"
  assumes "8 \<le> LENGTH('a)"
  shows "crc_bits poly s (byte_bits b) =
         (crc_shift poly ^^ 8) (s XOR push_bit (LENGTH('a) - 8) (ucast b))"
proof -
  have "take_bit 8 (ucast b :: 'a word) = ucast b"
    by (rule bit_word_eqI) (auto simp: bit_simps dest: bit_imp_le_length)
  then show ?thesis
    using crc_bits_low_bits [of 8, where 'a = 'a, OF assms] by (simp add: byte_bits_def)
qed

section \<open>Registers with an odd polynomial\<close>

text \<open>
  The contract of a generator polynomial: its constant term is set. That makes a register
  step invertible, and everything about error detection follows.
\<close>

locale crc_register =
  fixes poly :: "'a::len word"
  assumes poly_odd: "bit poly 0"
begin

lemma shift_eq_0:
  assumes "crc_shift poly d = 0"
  shows "d = 0"
proof (cases "bit d (LENGTH('a) - 1)")
  case True
  then have "push_bit 1 d XOR poly = 0" using assms by (simp add: crc_shift_def)
  then have "\<not> bit (push_bit 1 d XOR poly) 0" by simp
  then show ?thesis using poly_odd by (simp add: bit_simps)
next
  case False
  then have z: "push_bit 1 d = 0" using assms by (simp add: crc_shift_def)
  show ?thesis
  proof (rule bit_word_eqI)
    fix n assume n: "n < LENGTH('a)"
    have "\<not> bit (push_bit 1 d) (Suc n)" using z by simp
    with n False show "bit d n \<longleftrightarrow> bit (0 :: 'a word) n"
      by (cases "n = LENGTH('a) - 1") (auto simp: bit_simps)
  qed
qed

lemma shift_inj: "crc_shift poly a = crc_shift poly b \<Longrightarrow> a = b"
proof -
  assume "crc_shift poly a = crc_shift poly b"
  then have "crc_shift poly (a XOR b) = 0" by (simp add: crc_shift_xor)
  then have "a XOR b = 0" by (rule shift_eq_0)
  then have "(a XOR b) XOR b = 0 XOR b" by (rule arg_cong)
  then show "a = b" by (simp add: xor.assoc)
qed

lemma bit_inj: "crc_bit poly a b = crc_bit poly c b \<Longrightarrow> a = c"
proof -
  assume "crc_bit poly a b = crc_bit poly c b"
  then have "a XOR top_bit b = c XOR top_bit b" by (simp add: crc_bit_def shift_inj)
  then have "(a XOR top_bit b) XOR top_bit b = (c XOR top_bit b) XOR top_bit b" by simp
  then show "a = c" by (simp add: xor.assoc)
qed

lemma bits_inj: "crc_bits poly a bs = crc_bits poly c bs \<Longrightarrow> a = c"
  by (induction bs arbitrary: a c) (auto dest: bit_inj)

text \<open>
  The register state that the bits \<open>e\<close> cancel: \<open>e\<close> written from the top of the register.
\<close>

fun window :: "bool list \<Rightarrow> 'a word" where
  "window [] = 0"
| "window (b # e) = top_bit b XOR drop_bit 1 (window e)"

lemma bit_window: "bit (window e) n \<Longrightarrow> LENGTH('a) \<le> n + length e"
proof (induction e arbitrary: n)
  case Nil
  then show ?case by simp
next
  case (Cons b e)
  then show ?case
    by (auto simp: bit_simps bit_top_bit dest: Cons.IH split: if_splits)
qed

lemma bits_eq_0_iff:
  "length e \<le> LENGTH('a) \<Longrightarrow> crc_bits poly d e = 0 \<longleftrightarrow> d = window e"
proof (induction e arbitrary: d)
  case Nil
  then show ?case by simp
next
  case (Cons b e)
  then have no0: "\<not> bit (window e) 0" by (auto dest: bit_window)
  have "crc_shift poly (drop_bit 1 (window e)) = push_bit 1 (drop_bit 1 (window e))"
    by (rule crc_shift_no_top) (auto simp: bit_simps dest: bit_imp_le_length)
  also have "\<dots> = window e"
  proof (rule bit_word_eqI)
    fix n assume "n < LENGTH('a)"
    then show "bit (push_bit 1 (drop_bit 1 (window e))) n \<longleftrightarrow> bit (window e) n"
      using no0 by (cases n) (auto simp: bit_simps)
  qed
  finally have pre: "crc_shift poly (drop_bit 1 (window e)) = window e" .
  have "crc_bits poly d (b # e) = 0 \<longleftrightarrow> crc_shift poly (d XOR top_bit b) = window e"
    using Cons by (simp add: crc_bit_def)
  also have "\<dots> \<longleftrightarrow> d XOR top_bit b = drop_bit 1 (window e)"
    using pre shift_inj by metis
  also have "\<dots> \<longleftrightarrow> d = window (b # e)"
    by (simp add: xor_move)
  finally show ?case .
qed

lemma window_eq_0:
  "length e \<le> LENGTH('a) \<Longrightarrow> window e = 0 \<Longrightarrow> b \<in> set e \<Longrightarrow> \<not> b"
proof (induction e)
  case Nil
  then show ?case by simp
next
  case (Cons c e)
  have top: "bit (window (c # e)) (LENGTH('a) - 1) \<longleftrightarrow> c"
    by (auto simp: bit_simps bit_top_bit dest: bit_imp_le_length)
  with Cons.prems have c: "\<not> c" by simp
  have "window e = 0"
  proof (rule bit_word_eqI)
    fix n assume n: "n < LENGTH('a)"
    show "bit (window e) n \<longleftrightarrow> bit (0 :: 'a word) n"
    proof (cases n)
      case 0
      with Cons.prems show ?thesis by (auto dest: bit_window)
    next
      case (Suc m)
      have "\<not> bit (window (c # e)) m" using Cons.prems by simp
      with c Suc show ?thesis by (simp add: bit_simps bit_top_bit)
    qed
  qed
  with Cons c show ?case by auto
qed

text \<open>Two messages that differ inside one window no wider than the register.\<close>

lemma burst_detected:
  assumes len: "length e = length e'" "length e \<le> LENGTH('a)"
    and eq: "crc_bits poly s (a @ e @ c) = crc_bits poly s (a @ e' @ c)"
  shows "e = e'"
proof -
  let ?d = "map2 (\<noteq>) e e'"
  from eq have "crc_bits poly (crc_bits poly s a) e = crc_bits poly (crc_bits poly s a) e'"
    by (simp add: bits_inj)
  then have "crc_bits poly 0 ?d = 0"
    using crc_bits_xor [OF len(1), of poly "crc_bits poly s a" "crc_bits poly s a"] by simp
  then have "window ?d = 0" using len bits_eq_0_iff [of ?d 0] by simp
  then have all: "\<And>b. b \<in> set ?d \<Longrightarrow> \<not> b" using len window_eq_0 [of ?d] by simp
  show ?thesis
  proof (rule nth_equalityI)
    show "length e = length e'" by (rule len(1))
    fix i assume i: "i < length e"
    then have "?d ! i \<in> set ?d" using len(1) by (intro nth_mem) simp
    then have "\<not> ?d ! i" by (rule all)
    with i len(1) show "e ! i = e' ! i" by simp
  qed
qed

end

end
