(* ===== verification/Frame.thy ===== *)
theory Frame
  imports Crc
begin

text \<open>
  src/src/frame.h and src/src/frame.c: the SNTL wire frame. The record struct, the
  CRC-16/CCITT-FALSE loop, the header and record encoders, the frame size, the control
  command parser and the choice of the range a dump answers with. Beside the code stand the
  reader's side, a decoder of records and frames (the inverse the app implements), and the
  lemmas that the two agree.
\<close>

section \<open>Constants and the record\<close>

abbreviation (input) SNTL_MAGIC :: bytes where "SNTL_MAGIC \<equiv> [0x53, 0x4E, 0x54, 0x4C]"
abbreviation (input) SNTL_VERSION :: u8 where "SNTL_VERSION \<equiv> 3"
abbreviation (input) SNTL_RECORD_SIZE :: nat where "SNTL_RECORD_SIZE \<equiv> 24"
abbreviation (input) SNTL_HEADER_SIZE :: nat where "SNTL_HEADER_SIZE \<equiv> 16"
abbreviation (input) SNTL_CRC_SIZE :: nat where "SNTL_CRC_SIZE \<equiv> 2"
abbreviation (input) SNTL_DEVICE_ID_LEN :: nat where "SNTL_DEVICE_ID_LEN \<equiv> 8"
abbreviation (input) SNTL_AQ_UNKNOWN_U :: u16 where "SNTL_AQ_UNKNOWN_U \<equiv> 0xFFFF"
abbreviation (input) SNTL_AQ_UNKNOWN_S :: i16 where "SNTL_AQ_UNKNOWN_S \<equiv> 0x7FFF"
abbreviation (input) SNTL_CMD_DUMP :: u8 where "SNTL_CMD_DUMP \<equiv> 1"
abbreviation (input) SNTL_CMD_LEN :: nat where "SNTL_CMD_LEN \<equiv> 5"

abbreviation (input) SNTL_FLAG_SENSOR_FAULT :: u8 where "SNTL_FLAG_SENSOR_FAULT \<equiv> 0x01"
abbreviation (input) SNTL_FLAG_LOW_BATTERY :: u8 where "SNTL_FLAG_LOW_BATTERY \<equiv> 0x02"
abbreviation (input) SNTL_FLAG_RTC_UNSET :: u8 where "SNTL_FLAG_RTC_UNSET \<equiv> 0x04"
abbreviation (input) SNTL_FLAG_CALIBRATING :: u8 where "SNTL_FLAG_CALIBRATING \<equiv> 0x08"
abbreviation (input) SNTL_FLAG_NO_TRACKER :: u8 where "SNTL_FLAG_NO_TRACKER \<equiv> 0x20"
abbreviation (input) SNTL_FLAG_AQ_FAULT :: u8 where "SNTL_FLAG_AQ_FAULT \<equiv> 0x40"

record sntl_record =
  rec_seq :: u32
  rec_ts :: u32
  rec_headcount :: u8
  rec_occ_s :: u8
  rec_dwell_s :: u16
  rec_flags :: u8
  rec_batt :: u8
  rec_pm25 :: u16
  rec_pm10 :: u16
  rec_temp :: i16
  rec_rh :: i16
  rec_voc :: i16

section \<open>CRC\<close>

definition crc16_shift :: "u16 \<Rightarrow> u16" where
  "crc16_shift crc = (if crc AND 0x8000 \<noteq> 0 then push_bit 1 crc XOR 0x1021 else push_bit 1 crc)"

fun sntl_crc16 :: "u16 \<Rightarrow> bytes \<Rightarrow> u16" where
  "sntl_crc16 crc [] = crc"
| "sntl_crc16 crc (b # data) = sntl_crc16 ((crc16_shift ^^ 8) (crc XOR push_bit 8 (ucast b))) data"

section \<open>Encoders\<close>

text \<open>
  The loop over the id stops at 8 characters or at the terminator; the rest of the field is
  the zeros of the \<open>memset\<close>. The end of the list stands for the terminator too.
\<close>

fun copy_id :: "nat \<Rightarrow> bytes \<Rightarrow> bytes" where
  "copy_id 0 cs = []"
| "copy_id (Suc n) [] = replicate (Suc n) 0"
| "copy_id (Suc n) (c # cs) = (if c = 0 then replicate (Suc n) 0 else c # copy_id n cs)"

definition sntl_encode_header :: "u16 \<Rightarrow> bytes \<Rightarrow> bytes" where
  "sntl_encode_header record_count device_id =
     SNTL_MAGIC @ [SNTL_VERSION, of_nat SNTL_RECORD_SIZE,
      ucast (record_count AND 0xFF), ucast (drop_bit 8 record_count)] @
     copy_id SNTL_DEVICE_ID_LEN device_id"

definition sntl_encode_record :: "sntl_record \<Rightarrow> bytes" where
  "sntl_encode_record r =
     [ucast (rec_seq r), ucast (drop_bit 8 (rec_seq r)),
      ucast (drop_bit 16 (rec_seq r)), ucast (drop_bit 24 (rec_seq r)),
      ucast (rec_ts r), ucast (drop_bit 8 (rec_ts r)),
      ucast (drop_bit 16 (rec_ts r)), ucast (drop_bit 24 (rec_ts r)),
      rec_headcount r, rec_occ_s r,
      ucast (rec_dwell_s r), ucast (drop_bit 8 (rec_dwell_s r)),
      rec_flags r, rec_batt r,
      ucast (rec_pm25 r), ucast (drop_bit 8 (rec_pm25 r)),
      ucast (rec_pm10 r), ucast (drop_bit 8 (rec_pm10 r)),
      ucast (rec_temp r), ucast (drop_bit 8 (rec_temp r)),
      ucast (rec_rh r), ucast (drop_bit 8 (rec_rh r)),
      ucast (rec_voc r), ucast (drop_bit 8 (rec_voc r))]"

definition sntl_frame_size :: "u16 \<Rightarrow> nat" where
  "sntl_frame_size record_count =
     SNTL_HEADER_SIZE + unat record_count * SNTL_RECORD_SIZE + SNTL_CRC_SIZE"

section \<open>Control command and dump range\<close>

definition sntl_parse_cmd :: "bytes \<Rightarrow> u32 option" where
  "sntl_parse_cmd buf =
     (if length buf \<noteq> SNTL_CMD_LEN \<or> buf ! 0 \<noteq> SNTL_CMD_DUMP then None
      else Some (ucast (buf ! 1) OR push_bit 8 (ucast (buf ! 2)) OR
                 push_bit 16 (ucast (buf ! 3)) OR push_bit 24 (ucast (buf ! 4))))"

text \<open>Returns the count and the start sequence number.\<close>

definition sntl_dump_range :: "u32 \<Rightarrow> u32 \<Rightarrow> u32 \<Rightarrow> u16 \<times> u32" where
  "sntl_dump_range first_seq oldest_seq next_seq =
     (let start = (if first_seq > oldest_seq then first_seq else oldest_seq)
      in if start \<ge> next_seq then (0, next_seq)
         else let count = next_seq - start;
                  count = (if count > 0xFFFF then 0xFFFF else count)
              in (ucast count, start))"

section \<open>The reader's side\<close>

definition decode_record :: "bytes \<Rightarrow> sntl_record option" where
  "decode_record b =
     (if length b \<noteq> SNTL_RECORD_SIZE then None
      else Some \<lparr>rec_seq = of_le32 (b ! 0) (b ! 1) (b ! 2) (b ! 3),
                 rec_ts = of_le32 (b ! 4) (b ! 5) (b ! 6) (b ! 7),
                 rec_headcount = b ! 8, rec_occ_s = b ! 9,
                 rec_dwell_s = of_le16 (b ! 10) (b ! 11),
                 rec_flags = b ! 12, rec_batt = b ! 13,
                 rec_pm25 = of_le16 (b ! 14) (b ! 15),
                 rec_pm10 = of_le16 (b ! 16) (b ! 17),
                 rec_temp = of_le16 (b ! 18) (b ! 19),
                 rec_rh = of_le16 (b ! 20) (b ! 21),
                 rec_voc = of_le16 (b ! 22) (b ! 23)\<rparr>)"

fun decode_records :: "nat \<Rightarrow> bytes \<Rightarrow> sntl_record list option" where
  "decode_records 0 b = (if b = [] then Some [] else None)"
| "decode_records (Suc n) b =
     (case decode_record (take SNTL_RECORD_SIZE b) of None \<Rightarrow> None
      | Some r \<Rightarrow> map_option ((#) r) (decode_records n (drop SNTL_RECORD_SIZE b)))"

text \<open>A whole frame: envelope, length, CRC, then the records.\<close>

definition frame_payload :: "bytes \<Rightarrow> sntl_record list \<Rightarrow> bytes" where
  "frame_payload device_id rs =
     sntl_encode_header (of_nat (length rs)) device_id @ concat (map sntl_encode_record rs)"

definition encode_frame :: "bytes \<Rightarrow> sntl_record list \<Rightarrow> bytes" where
  "encode_frame device_id rs =
     frame_payload device_id rs @ le16 (sntl_crc16 0xFFFF (frame_payload device_id rs))"

definition decode_frame :: "bytes \<Rightarrow> (bytes \<times> sntl_record list) option" where
  "decode_frame f =
     (if length f < SNTL_HEADER_SIZE + SNTL_CRC_SIZE then None
      else if take 4 f \<noteq> SNTL_MAGIC \<or> f ! 4 \<noteq> SNTL_VERSION \<or> f ! 5 \<noteq> 24 then None
      else let n = length f - SNTL_CRC_SIZE; count = of_le16 (f ! 6) (f ! 7)
           in if length f \<noteq> sntl_frame_size count then None
              else if of_le16 (f ! n) (f ! (n + 1)) \<noteq> sntl_crc16 0xFFFF (take n f) then None
              else map_option (Pair (take 8 (drop 8 f)))
                     (decode_records (unat count) (drop SNTL_HEADER_SIZE (take n f))))"

section \<open>CRC lemmas\<close>

lemma bit_0x8000: "(s :: u16) AND 0x8000 \<noteq> 0 \<longleftrightarrow> bit s 15"
  using and_exp_eq_0_iff_not_bit [of s 15] by simp

lemma crc16_shift_crc_shift: "crc16_shift = crc_shift 0x1021"
  by (rule ext) (simp add: crc16_shift_def crc_shift_def bit_0x8000)

interpretation crc16: crc_register "0x1021 :: u16"
  by unfold_locales simp

lemma sntl_crc16_append: "sntl_crc16 s (a @ b) = sntl_crc16 (sntl_crc16 s a) b"
  by (induction a arbitrary: s) auto

lemma sntl_crc16_bits: "sntl_crc16 s xs = crc_bits 0x1021 s (bytes_bits xs)"
  by (induction xs arbitrary: s) (simp_all add: crc_bits_byte crc16_shift_crc_shift)


text \<open>
  The byte-at-a-time CRC loop is the bit-serial shift register with polynomial \<open>0x1021\<close>
  over the bits of the data, most significant bit first, from any seed.
\<close>

theorem crc16_is_bit_serial:
  "sntl_crc16 s xs = crc_bits 0x1021 s (bytes_bits xs)"
  by (rule sntl_crc16_bits)

text \<open>
  The CRC can be chained across chunks: the CRC of a frame computed piece by piece, each
  call seeded with the previous result, is the CRC of the whole.
\<close>

theorem crc16_streams:
  "foldl sntl_crc16 s chunks = sntl_crc16 s (concat chunks)"
  by (induction chunks arbitrary: s) (simp_all add: sntl_crc16_append)

text \<open>
  Burst detection: two messages whose bits agree outside one window of at most 16
  consecutive bits have the same CRC only if they are equal.
\<close>

theorem crc16_detects_bursts:
  assumes "bytes_bits xs = a @ e @ c" and "bytes_bits ys = a @ e' @ c"
    and "length e = length e'" and "length e \<le> 16"
    and "sntl_crc16 s xs = sntl_crc16 s ys"
  shows "xs = ys"
proof -
  have "e = e'"
    using crc16.burst_detected [of e e' s a c] assms by (simp add: sntl_crc16_bits)
  with assms(1,2) show ?thesis by (intro bytes_bits_inj) simp
qed

theorem crc16_detects_bursts_witness:
  "sntl_crc16 0xFFFF [0x31, 0x32] \<noteq> sntl_crc16 0xFFFF [0x31, 0x72]"
proof
  let ?a = "byte_bits 0x31 @ [False]" and ?c = "[True, True, False, False, True, False]"
  assume eq: "sntl_crc16 0xFFFF [0x31, 0x32] = sntl_crc16 0xFFFF [0x31, 0x72]"
  have "bytes_bits [0x31, 0x32] = ?a @ [False] @ ?c" and "bytes_bits [0x31, 0x72] = ?a @ [True] @ ?c"
    by (simp_all add: byte_bits_def upt_rec)
  then have "[0x31, 0x32 :: u8] = [0x31, 0x72]"
    by (rule crc16_detects_bursts [where s = "0xFFFF"]) (use eq in simp_all)
  then show False by simp
qed

lemma crc16_check_vector:
  "sntl_crc16 0xFFFF [0x31, 0x32, 0x33, 0x34, 0x35, 0x36, 0x37, 0x38, 0x39] = 0x29B1"
  by (simp add: funpow_8 crc16_shift_def)

section \<open>Record and frame lemmas\<close>

lemma length_copy_id [simp]: "length (copy_id n cs) = n"
  by (induction n cs rule: copy_id.induct) auto

lemma copy_id_numeral [simp]:
  "copy_id (numeral k) [] = replicate (numeral k) 0"
  "copy_id (numeral k) (c # cs) =
     (if c = 0 then replicate (numeral k) 0 else c # copy_id (pred_numeral k) cs)"
  by (simp_all add: numeral_eq_Suc)

lemma copy_id_full: "length cs = n \<Longrightarrow> 0 \<notin> set cs \<Longrightarrow> copy_id n cs = cs"
  by (induction n cs rule: copy_id.induct) auto

lemma length_encode_header [simp]: "length (sntl_encode_header n d) = 16"
  by (simp add: sntl_encode_header_def)

lemma length_encode_record [simp]: "length (sntl_encode_record r) = 24"
  by (simp add: sntl_encode_record_def)

lemma ucast_and_0xFF: "ucast (w AND 0xFF) = (ucast w :: u8)" for w :: u16
proof -
  have "w AND 0xFF = take_bit 8 w" by (simp add: take_bit_eq_mask mask_eq_exp_minus_1)
  then show ?thesis by (intro bit_word_eqI) (simp add: bit_simps)
qed

lemma encode_header_eq:
  "sntl_encode_header n d = SNTL_MAGIC @ [3, 24] @ le16 n @ copy_id 8 d"
  by (simp add: sntl_encode_header_def le16_def ucast_and_0xFF)

lemma encode_record_eq:
  "sntl_encode_record r =
     le32 (rec_seq r) @ le32 (rec_ts r) @ [rec_headcount r, rec_occ_s r] @ le16 (rec_dwell_s r) @
     [rec_flags r, rec_batt r] @ le16 (rec_pm25 r) @ le16 (rec_pm10 r) @
     le16 (rec_temp r) @ le16 (rec_rh r) @ le16 (rec_voc r)"
  by (simp add: sntl_encode_record_def le16_def le32_def)

lemma decode_encode_record: "decode_record (sntl_encode_record r) = Some r"
  by (simp add: decode_record_def sntl_encode_record_def)

lemma encode_decode_record:
  assumes "decode_record b = Some r"
  shows "sntl_encode_record r = b"
proof -
  have len: "length b = 24"
    using assms by (auto simp: decode_record_def split: if_splits)
  then have "b = map (nth b) [0..<24]" by (metis map_nth)
  also have "\<dots> = sntl_encode_record r"
    using assms
    by (auto simp: decode_record_def encode_record_eq upt_rec numeral_eq_Suc split: if_splits)
  finally show ?thesis by simp
qed

lemma length_records [simp]: "length (concat (map sntl_encode_record rs)) = 24 * length rs"
  by (induction rs) auto

lemma decode_records_concat:
  "decode_records (length rs) (concat (map sntl_encode_record rs)) = Some rs"
  by (induction rs) (simp_all add: decode_encode_record)

lemma length_payload [simp]: "length (frame_payload d rs) = 16 + 24 * length rs"
  by (simp add: frame_payload_def)

lemma payload_header:
  "take 16 (frame_payload d rs) = sntl_encode_header (of_nat (length rs)) d"
  by (simp add: frame_payload_def)


lemma header_fields:
  assumes "take 16 f = sntl_encode_header n d" and "16 \<le> length f"
  shows "take 4 f = SNTL_MAGIC" and "f ! 4 = 3" and "f ! 5 = 24"
    and "of_le16 (f ! 6) (f ! 7) = n" and "take 8 (drop 8 f) = copy_id 8 d"
proof -
  have f: "f = sntl_encode_header n d @ drop 16 f" using assms by (metis append_take_drop_id)
  show "take 4 f = SNTL_MAGIC" and "f ! 4 = 3" and "f ! 5 = 24"
    and "of_le16 (f ! 6) (f ! 7) = n"
    by (subst f; simp add: encode_header_eq le16_def)+
  show "take 8 (drop 8 f) = copy_id 8 d"
    by (subst f) (simp add: encode_header_eq le16_def)
qed

lemma decode_frame_payload:
  assumes rs: "length rs < 65536"
    and p: "length p = length (frame_payload d rs)"
    and hd: "take 16 p = take 16 (frame_payload d rs)"
  shows "decode_frame (p @ le16 crc) =
           (if crc \<noteq> sntl_crc16 0xFFFF p then None
            else map_option (Pair (copy_id 8 d)) (decode_records (length rs) (drop 16 p)))"
proof -
  let ?f = "p @ le16 crc"
  have head: "take 16 ?f = sntl_encode_header (of_nat (length rs)) d"
    using p hd by (simp add: payload_header)
  have count: "unat (of_nat (length rs) :: u16) = length rs"
    using rs by (simp add: unat_of_nat_small)
  show ?thesis
    using p header_fields [OF head]
    by (simp add: decode_frame_def count sntl_frame_size_def nth_append le16_def Let_def
        del: take_append drop_append) simp
qed

text \<open>
  Round trip of a record: a reader recovers every field of an encoded record, negative
  temperatures and the sentinels included, and each 24-byte string is the encoding of
  exactly one record.
\<close>

theorem record_roundtrip:
  "length (sntl_encode_record r) = SNTL_RECORD_SIZE \<and>
   (decode_record b = Some r \<longleftrightarrow> b = sntl_encode_record r)"
  using decode_encode_record encode_decode_record by auto

lemma frame_decodes:
  assumes "length rs < 65536"
  shows "length (encode_frame d rs) = sntl_frame_size (of_nat (length rs)) \<and>
         decode_frame (encode_frame d rs) = Some (copy_id SNTL_DEVICE_ID_LEN d, rs)"
proof
  have count: "unat (of_nat (length rs) :: u16) = length rs"
    using assms by (intro unat_of_nat_small) simp
  show "length (encode_frame d rs) = sntl_frame_size (of_nat (length rs))"
    by (simp only: encode_frame_def sntl_frame_size_def count length_append length_payload
        length_le16 mult.commute)
  have "drop 16 (frame_payload d rs) = concat (map sntl_encode_record rs)"
    by (simp add: frame_payload_def)
  then show "decode_frame (encode_frame d rs) = Some (copy_id SNTL_DEVICE_ID_LEN d, rs)"
    unfolding encode_frame_def decode_frame_payload [OF assms refl refl]
    by (simp add: decode_records_concat)
qed

text \<open>
  C16: Round trip of a frame: the length announced by \<open>sntl_frame_size\<close> is the length of
  the frame, and a reader that checks magic, version, length and CRC gets back the (zero padded)
  device id and the records in order.
\<close>

theorem frame_roundtrip:
  assumes "length rs < 65536"
  shows "length (encode_frame d rs) = sntl_frame_size (of_nat (length rs)) \<and>
         decode_frame (encode_frame d rs) = Some (copy_id SNTL_DEVICE_ID_LEN d, rs)"
  using assms by (rule frame_decodes)

theorem frame_roundtrip_witness:
  "decode_frame (encode_frame [0x50, 0x52] []) = Some ([0x50, 0x52] @ replicate 6 0, [])"
  using frame_roundtrip [of "[]" "[0x50, 0x52]"] by simp

text \<open>
  C17: Corruption of the records is noticed: if the record bytes of a frame are changed
  within one window of at most 16 consecutive bits, the reader rejects the frame.
\<close>

theorem corrupted_frame_rejected:
  assumes "length rs < 65536"
    and p: "take 16 p = take 16 (frame_payload d rs)"
    and "bytes_bits (frame_payload d rs) = a @ e @ c" and "bytes_bits p = a @ e' @ c"
    and "length e = length e'" and "length e \<le> 16" and "p \<noteq> frame_payload d rs"
  shows "decode_frame (p @ le16 (sntl_crc16 0xFFFF (frame_payload d rs))) = None"
proof -
  have "length (bytes_bits p) = length (bytes_bits (frame_payload d rs))"
    by (simp only: assms(3,4,5) length_append)
  then have len: "length p = length (frame_payload d rs)" by simp
  have "bytes_bits p \<noteq> bytes_bits (frame_payload d rs)"
    using bytes_bits_inj assms(7) by blast
  then have "e \<noteq> e'" using assms(3,4) by auto
  then have "sntl_crc16 0xFFFF (frame_payload d rs) \<noteq> sntl_crc16 0xFFFF p"
    using crc16.burst_detected [of e e' "0xFFFF" a c] assms(3-6)
    by (auto simp: sntl_crc16_bits)
  with assms(1) len p show ?thesis by (simp add: decode_frame_payload)
qed

definition zero_record :: sntl_record where
  "zero_record = \<lparr>rec_seq = 0, rec_ts = 0, rec_headcount = 0, rec_occ_s = 0, rec_dwell_s = 0,
     rec_flags = 0, rec_batt = 0, rec_pm25 = 0, rec_pm10 = 0, rec_temp = 0, rec_rh = 0,
     rec_voc = 0\<rparr>"

theorem corrupted_frame_rejected_witness:
  "decode_frame (frame_payload [0x50] [zero_record\<lparr>rec_headcount := 1\<rparr>] @
     le16 (sntl_crc16 0xFFFF (frame_payload [0x50] [zero_record]))) = None"
proof -
  let ?h = "sntl_encode_header 1 [0x50] @ replicate 8 0" and ?t = "replicate 15 0 :: bytes"
  have "frame_payload [0x50] [zero_record] = ?h @ 0 # ?t"
    and "frame_payload [0x50] [zero_record\<lparr>rec_headcount := 1\<rparr>] = ?h @ 1 # ?t"
    by (simp_all add: frame_payload_def sntl_encode_record_def zero_record_def numeral_eq_Suc)
  then show ?thesis
    using corrupted_frame_rejected [of "[zero_record]"
        "frame_payload [0x50] [zero_record\<lparr>rec_headcount := 1\<rparr>]" "[0x50]"
        "bytes_bits ?h" "byte_bits 0" "bytes_bits ?t" "byte_bits 1"]
    by (simp add: payload_header)
qed

text \<open>
  The control write is a dump command exactly when it is the five bytes \<open>0x01\<close> and a
  little-endian sequence number, and that number is the one returned; any other length or
  opcode is refused.
\<close>

theorem parse_cmd_iff:
  "sntl_parse_cmd buf = Some s \<longleftrightarrow> buf = SNTL_CMD_DUMP # le32 s"
proof
  assume "sntl_parse_cmd buf = Some s"
  then have len: "length buf = 5" and b0: "buf ! 0 = 1"
    and s: "s = of_le32 (buf ! 1) (buf ! 2) (buf ! 3) (buf ! 4)"
    by (auto simp: sntl_parse_cmd_def of_le32_def split: if_splits)
  have "buf = map (nth buf) [0..<5]" using len by (metis map_nth)
  also have "\<dots> = 1 # le32 s" using b0 s by (simp add: upt_rec numeral_eq_Suc)
  finally show "buf = SNTL_CMD_DUMP # le32 s" .
next
  assume "buf = SNTL_CMD_DUMP # le32 s"
  then show "sntl_parse_cmd buf = Some s"
    using of_le32_le32 [of s] by (simp add: sntl_parse_cmd_def le32_def of_le32_def)
qed

section \<open>The dump range\<close>

lemma dump_range_nat:
  "map_prod unat unat (sntl_dump_range f old nxt) =
     (let start = max (unat f) (unat old)
      in if unat nxt \<le> start then (0, unat nxt) else (min 65535 (unat nxt - start), start))"
proof -
  have sub: "unat (nxt - s) = unat nxt - unat s" if "s < nxt" for s
    using that by (intro unat_sub) simp
  have mx: "unat (if f > old then f else old) = max (unat f) (unat old)"
    by (auto simp: word_nat max_def)
  have cast: "unat (ucast w :: u16) = unat w" if "w \<le> 0xFFFF" for w :: u32
    using that by (intro unat_ucast_small) (simp add: word_nat)
  show ?thesis
    by (auto simp: sntl_dump_range_def Let_def cast sub mx [symmetric] word_nat min_def max_def
        split: if_splits)
qed

text \<open>
  A dump answers with exactly the held records the app has not seen: whatever the ring
  holds (at most 65535 records), a sequence number lies in the range sent if and only if it
  is at least \<open>first_seq\<close>, not older than the oldest record, and already assigned.
\<close>

theorem dump_range_selects:
  assumes "sntl_dump_range first_seq oldest nxt = (count, start)"
    and "oldest \<le> nxt" and "unat nxt - unat oldest \<le> 65535"
  shows "(unat start \<le> unat s \<and> unat s < unat start + unat count) \<longleftrightarrow>
         (first_seq \<le> s \<and> oldest \<le> s \<and> s < nxt)"
proof -
  have "(unat count, unat start) = map_prod unat unat (sntl_dump_range first_seq oldest nxt)"
    using assms(1) by simp
  then show ?thesis
    using assms(2,3) unfolding dump_range_nat Let_def
    by (auto simp: word_nat max_def min_def split: if_splits)
qed

theorem dump_range_selects_witness:
  "sntl_dump_range 101 100 103 = (2, 101) \<and>
   ((unat (101::u32) \<le> unat (102::u32) \<and> unat (102::u32) < unat (101::u32) + unat (2::u16)) \<longleftrightarrow>
    ((101::u32) \<le> 102 \<and> (100::u32) \<le> 102 \<and> (102::u32) < 103))"
proof -
  have eq: "sntl_dump_range 101 100 103 = (2, 101)" by (simp add: sntl_dump_range_def)
  show ?thesis
    using eq by (intro conjI dump_range_selects [where first_seq = 101 and oldest = 100 and nxt = 103]) simp_all
qed

lemma dump_range_end:
  "sntl_dump_range f old nxt = (count, start) \<Longrightarrow>
   unat start + unat count \<le> unat nxt \<and> unat (start + ucast count) = unat start + unat count"
proof -
  assume "sntl_dump_range f old nxt = (count, start)"
  then have "(unat count, unat start) = map_prod unat unat (sntl_dump_range f old nxt)"
    by simp
  then have le: "unat start + unat count \<le> unat nxt"
    unfolding dump_range_nat Let_def by (auto split: if_splits)
  have "unat (ucast count :: u32) = unat count" by (rule unat_ucast_up) simp
  moreover have "unat nxt < 2 ^ LENGTH(32)" by (rule unsigned_less)
  ultimately have "unat (start + ucast count) = unat start + unat count"
    using le by (subst unat_add_nowrap) simp_all
  with le show ?thesis by simp
qed

text \<open>
  The range never reaches past the next sequence number, and the count fits the
  header's 16-bit field: \<open>start + count\<close> does not wrap, for every argument.
\<close>

theorem dump_range_bounded:
  "sntl_dump_range f old nxt = (count, start) \<Longrightarrow>
   unat start + unat count \<le> unat nxt \<and> unat (start + ucast count) = unat start + unat count"
  by (rule dump_range_end)

theorem dump_range_bounded_witness:
  "unat (5::u32) + unat (0::u16) \<le> unat (5::u32) \<and>
   unat ((5::u32) + ucast (0::u16)) = unat (5::u32) + unat (0::u16)"
  by (rule dump_range_bounded [of 7 0]) (simp add: sntl_dump_range_def)

end
