(* ===== verification/Tlv.thy ===== *)
theory Tlv
  imports Prelude
begin

text \<open>
  The decoding half of src/src/tlv.h and src/src/tlv.c: the frame header, the walk over the
  type-length-value chain, tracker targets and presence zones. A frame is the memory behind
  the code's pointer, a byte list; every read is checked against it, so \<open>None\<close> is a read
  outside the buffer (and, for the walk, a walk that never ends). Floats are only copied by
  this code, so they stand as their 32-bit patterns.
\<close>

section \<open>Constants and small reads\<close>

abbreviation (input) TLV_MAGIC_LEN :: nat where "TLV_MAGIC_LEN \<equiv> 8"
abbreviation (input) TLV_HDR_LEN :: nat where "TLV_HDR_LEN \<equiv> 40"
abbreviation (input) TLV_MAX_FRAME :: nat where "TLV_MAX_FRAME \<equiv> 2048"
abbreviation (input) TLV_TARGET_LIST :: u32 where "TLV_TARGET_LIST \<equiv> 308"
abbreviation (input) TLV_ENHANCED_PRESENCE :: u32 where "TLV_ENHANCED_PRESENCE \<equiv> 315"
abbreviation (input) TLV_ZONE_NONE :: u8 where "TLV_ZONE_NONE \<equiv> 0"
abbreviation (input) TLV_ZONE_MINOR :: u8 where "TLV_ZONE_MINOR \<equiv> 1"
abbreviation (input) TLV_ZONE_MAJOR :: u8 where "TLV_ZONE_MAJOR \<equiv> 2"
abbreviation (input) TARGET_3D_SIZE :: u32 where "TARGET_3D_SIZE \<equiv> 112"
abbreviation (input) TARGET_2D_SIZE :: u32 where "TARGET_2D_SIZE \<equiv> 76"

definition tlv_magic :: bytes where
  "tlv_magic = [2, 1, 4, 3, 6, 5, 8, 7]"

definition rd_u32 :: "bytes \<Rightarrow> nat \<Rightarrow> u32 option" where
  "rd_u32 m p =
     (case (rd8 m p, rd8 m (p + 1), rd8 m (p + 2), rd8 m (p + 3)) of
        (Some b0, Some b1, Some b2, Some b3) \<Rightarrow>
          Some (ucast b0 OR push_bit 8 (ucast b1) OR push_bit 16 (ucast b2) OR
                push_bit 24 (ucast b3))
      | _ \<Rightarrow> None)"

text \<open>The bits of a float: \<open>memcpy\<close> of the four bytes.\<close>

definition rd_f32 :: "bytes \<Rightarrow> nat \<Rightarrow> u32 option" where
  "rd_f32 m p = rd_u32 m p"

lemma rd_u32_le32: "rd_u32 m p = rd_le32 m p"
  by (auto simp: rd_u32_def rd_le32_def rd8_def of_le32_def)

section \<open>The header\<close>

record tlv_header =
  h_version :: u32
  h_total_len :: u32
  h_platform :: u32
  h_frame_no :: u32
  h_cpu_cycles :: u32
  h_num_detected :: u32
  h_num_tlvs :: u32
  h_sub_frame :: u32

definition tlv_header_get :: "bytes \<Rightarrow> tlv_header option" where
  "tlv_header_get frame =
     (case (rd_u32 frame 8, rd_u32 frame 12, rd_u32 frame 16, rd_u32 frame 20,
            rd_u32 frame 24, rd_u32 frame 28, rd_u32 frame 32, rd_u32 frame 36) of
        (Some v, Some t, Some p, Some f, Some c, Some d, Some n, Some s) \<Rightarrow>
          Some \<lparr>h_version = v, h_total_len = t, h_platform = p, h_frame_no = f,
                h_cpu_cycles = c, h_num_detected = d, h_num_tlvs = n, h_sub_frame = s\<rparr>
      | _ \<Rightarrow> None)"

section \<open>Finding a TLV\<close>

text \<open>
  The result is the offset of the payload in the frame (\<open>None\<close> for \<open>NULL\<close>) and the length
  written through \<open>len_out\<close>. The arithmetic on \<open>off\<close> and \<open>ln\<close> is that of \<open>uint32_t\<close>.
\<close>

partial_function (option) tlv_find_loop ::
  "bytes \<Rightarrow> u32 \<Rightarrow> u32 \<Rightarrow> u32 \<Rightarrow> (u32 option \<times> u32) option" where
  "tlv_find_loop frame tot type off =
     (if off + 8 \<le> tot then
        (case rd_u32 frame (unat off) of None \<Rightarrow> None | Some t \<Rightarrow>
           (case rd_u32 frame (unat off + 4) of None \<Rightarrow> None | Some ln \<Rightarrow>
              if ln > tot \<or> off + 8 + ln > tot then Some (None, 0)
              else if t = type then Some (Some (off + 8), ln)
              else tlv_find_loop frame tot type (off + (8 + ln))))
      else Some (None, 0))"

definition tlv_find :: "bytes \<Rightarrow> u32 \<Rightarrow> (u32 option \<times> u32) option" where
  "tlv_find frame type =
     (case rd_u32 frame 12 of None \<Rightarrow> None
      | Some tot \<Rightarrow> tlv_find_loop frame tot type (of_nat TLV_HDR_LEN))"

section \<open>Targets\<close>

record tlv_target =
  t_tid :: u32
  t_x :: u32
  t_y :: u32
  t_z :: u32

definition read_target :: "bytes \<Rightarrow> u32 \<Rightarrow> u32 \<Rightarrow> tlv_target option" where
  "read_target payload sz off =
     (let t = unat off in
      case (rd_u32 payload t, rd_f32 payload (t + 4), rd_f32 payload (t + 8),
            if sz = TARGET_3D_SIZE then rd_f32 payload (t + 12) else Some 0) of
        (Some tid, Some x, Some y, Some z) \<Rightarrow>
          Some \<lparr>t_tid = tid, t_x = x, t_y = y, t_z = z\<rparr>
      | _ \<Rightarrow> None)"

function targets_loop ::
  "bytes \<Rightarrow> u32 \<Rightarrow> u32 \<Rightarrow> int \<Rightarrow> u32 \<Rightarrow> int \<Rightarrow> tlv_target list option" where
  "targets_loop payload len sz mx off n =
     (if off + sz \<le> len \<and> n < mx then
        (case read_target payload sz off of None \<Rightarrow> None
         | Some t \<Rightarrow> map_option ((#) t) (targets_loop payload len sz mx (off + sz) (n + 1)))
      else Some [])"
  by pat_completeness auto
termination
  by (relation "measure (\<lambda>(payload, len, sz, mx, off, n). nat (mx - n))") auto

text \<open>
  The targets written to \<open>out\<close>; their number is the returned \<open>n\<close>. The payload is \<open>None\<close>
  for \<open>NULL\<close>, otherwise the memory from the pointer on.
\<close>

definition tlv_targets :: "bytes option \<Rightarrow> u32 \<Rightarrow> int \<Rightarrow> tlv_target list option" where
  "tlv_targets payload len mx =
     (case payload of None \<Rightarrow> Some []
      | Some p \<Rightarrow>
          if len = 0 then Some []
          else if len mod TARGET_3D_SIZE = 0 then targets_loop p len TARGET_3D_SIZE mx 0 0
          else if len mod TARGET_2D_SIZE = 0 then targets_loop p len TARGET_2D_SIZE mx 0 0
          else Some [])"

section \<open>Presence zones\<close>

function presence_loop :: "bytes \<Rightarrow> u32 \<Rightarrow> int \<Rightarrow> int \<Rightarrow> bytes option" where
  "presence_loop payload len n z =
     (if z < n then
        (let byte_idx = 1 + (of_int (cdiv z 4) :: u32);
             state = (if byte_idx < len
                      then map_option (\<lambda>b. drop_bit (nat (2 * (z mod 4))) b AND 0x3)
                             (rd8 payload (unat byte_idx))
                      else Some 0)
         in case state of None \<Rightarrow> None
            | Some s \<Rightarrow> map_option ((#) s) (presence_loop payload len n (z + 1)))
      else Some [])"
  by pat_completeness auto
termination
  by (relation "measure (\<lambda>(payload, len, n, z). nat (n - z))") auto

text \<open>Returns \<open>n\<close> and the zone states written to \<open>out\<close>.\<close>

definition tlv_presence :: "bytes option \<Rightarrow> u32 \<Rightarrow> int \<Rightarrow> (int \<times> bytes) option" where
  "tlv_presence payload len mx =
     (case payload of None \<Rightarrow> Some (0, [])
      | Some p \<Rightarrow>
          if len < 2 then Some (0, [])
          else (case rd8 p 0 of None \<Rightarrow> None
                | Some b \<Rightarrow>
                    let n = (if uint b > mx then mx else uint b)
                    in map_option (Pair n) (presence_loop p len n 0)))"

declare targets_loop.simps [simp del] presence_loop.simps [simp del]


section \<open>The reference: a frame body as a list of TLVs\<close>

definition le32_at :: "bytes \<Rightarrow> nat \<Rightarrow> u32" where
  "le32_at m i = of_le32 (m ! i) (m ! (i + 1)) (m ! (i + 2)) (m ! (i + 3))"

lemma rd_u32_in [simp]: "i + 4 \<le> length m \<Longrightarrow> rd_u32 m i = Some (le32_at m i)"
  by (simp add: rd_u32_le32 le32_at_def)

lemma rd_u32_out: "length m < i + 4 \<Longrightarrow> rd_u32 m i = None"
  by (simp add: rd_u32_le32 rd_le32_out)

lemma le32_at_drop: "i + j + 4 \<le> length m \<Longrightarrow> le32_at (drop i m) j = le32_at m (i + j)"
  by (simp add: le32_at_def add.assoc)

lemma le32_at_take: "i + 4 \<le> n \<Longrightarrow> le32_at (take n m) i = le32_at m i"
  by (simp add: le32_at_def)

lemma le32_at_append: "i + 4 \<le> length m \<Longrightarrow> le32_at (m @ m') i = le32_at m i"
  by (simp add: le32_at_def nth_append)

text \<open>
  The well-formed prefix of a body: it ends where fewer than eight bytes remain or a length
  reaches past the end.
\<close>

function tlvs :: "bytes \<Rightarrow> (u32 \<times> bytes) list" where
  "tlvs b =
     (if length b < 8 \<or> length b < 8 + unat (le32_at b 4) then []
      else (le32_at b 0, take (unat (le32_at b 4)) (drop 8 b)) #
           tlvs (drop (8 + unat (le32_at b 4)) b))"
  by pat_completeness auto
termination
  by (relation "measure length") auto

declare tlvs.simps [simp del]

definition first_tlv :: "u32 \<Rightarrow> (u32 \<times> bytes) list \<Rightarrow> bytes option" where
  "first_tlv type ts = map_option snd (List.find (\<lambda>t. fst t = type) ts)"

lemma first_tlv_simps [simp]:
  "first_tlv type [] = None"
  "first_tlv type (t # ts) = (if fst t = type then Some (snd t) else first_tlv type ts)"
  by (simp_all add: first_tlv_def)

text \<open>What a call of \<open>tlv_find\<close> says about the memory, read as a payload.\<close>

definition found :: "bytes \<Rightarrow> nat \<Rightarrow> u32 option \<times> u32 \<Rightarrow> bytes option \<Rightarrow> bool" where
  "found frame tot res payload \<longleftrightarrow>
     (case payload of
        None \<Rightarrow> res = (None, 0)
      | Some p \<Rightarrow> \<exists>off. res = (Some off, of_nat (length p)) \<and> unat off + length p \<le> tot \<and>
                      take (length p) (drop (unat off) frame) = p)"

lemma tlv_find_loop_found:
  assumes "unat tot \<le> 2048" and "unat tot \<le> length frame" and "off \<le> tot"
  shows "\<exists>res. tlv_find_loop frame tot type off = Some res \<and>
           found frame (unat tot) res
             (first_tlv type (tlvs (drop (unat off) (take (unat tot) frame))))"
  using assms
proof (induction "unat tot - unat off" arbitrary: off rule: less_induct)
  case less
  let ?b = "drop (unat off) (take (unat tot) frame)"
  have lenb: "length ?b = unat tot - unat off" using less.prems by simp
  have off: "unat off \<le> unat tot" using less.prems by (simp add: word_nat)
  have off8: "unat (off + 8) = unat off + 8"
    using off less.prems by (subst unat_add_nowrap) simp_all
  show ?case
  proof (cases "unat off + 8 \<le> unat tot")
    case False
    then have "tlvs ?b = []" using lenb by (subst tlvs.simps) auto
    moreover have "\<not> off + 8 \<le> tot" using False off8 by (simp add: word_nat)
    ultimately show ?thesis by (subst tlv_find_loop.simps) (simp add: found_def)
  next
    case True
    define ln where "ln = le32_at frame (unat off + 4)"
    define t where "t = le32_at frame (unat off)"
    have rd: "rd_u32 frame (unat off) = Some t" "rd_u32 frame (unat off + 4) = Some ln"
      using True less.prems by (simp_all add: t_def ln_def)
    have b: "le32_at ?b 0 = t" "le32_at ?b 4 = ln"
      using True less.prems by (simp_all add: le32_at_drop le32_at_take t_def ln_def)
    have guard: "off + 8 \<le> tot" using True off8 by (simp add: word_nat)
    show ?thesis
    proof (cases "unat off + 8 + unat ln \<le> unat tot")
      case False
      have "off + 8 + ln > tot" if "\<not> ln > tot"
      proof -
        have "unat (off + 8 + ln) = unat off + 8 + unat ln"
          using that off8 off less.prems by (subst unat_add_nowrap) (auto simp: word_nat)
        with False show ?thesis by (simp add: word_nat)
      qed
      then have "ln > tot \<or> off + 8 + ln > tot" by blast
      moreover have "tlvs ?b = []" using False lenb off by (subst tlvs.simps) (auto simp: b)
      ultimately show ?thesis
        using guard rd by (subst tlv_find_loop.simps) (auto simp: found_def)
    next
      case ok: True
      then have sum: "unat (off + 8 + ln) = unat off + 8 + unat ln"
        using less.prems off8 by (subst unat_add_nowrap) auto
      have chk: "\<not> (ln > tot \<or> off + 8 + ln > tot)"
        using ok sum by (auto simp: word_nat)
      let ?p = "take (unat ln) (drop 8 ?b)"
      have lenp: "length ?p = unat ln" using ok less.prems by simp
      have enough: "\<not> (length ?b < 8 \<or> length ?b < 8 + unat ln)"
        unfolding lenb using ok by linarith
      have tlvs: "tlvs ?b = (t, ?p) # tlvs (drop (unat off + 8 + unat ln) (take (unat tot) frame))"
        using enough by (subst tlvs.simps) (simp add: b add.commute add.left_commute del: length_drop)
      show ?thesis
      proof (cases "t = type")
        case True
        have "?p = take (unat ln) (drop (unat (off + 8)) frame)"
          using ok by (simp add: off8 drop_take min_def add.commute)
        then show ?thesis
          using True guard rd chk lenp ok off8
          by (subst tlv_find_loop.simps) (auto simp: tlvs found_def)
      next
        case False
        have eq: "off + (8 + ln) = off + 8 + ln" by (simp add: add.assoc)
        have "unat tot - unat (off + 8 + ln) < unat tot - unat off" and "off + 8 + ln \<le> tot"
          using sum ok by (auto simp: word_nat)
        from less.hyps [OF this(1) less.prems(1,2) this(2)] False show ?thesis
          using guard rd chk by (subst tlv_find_loop.simps) (simp add: tlvs sum eq)
      qed
    qed
  qed
qed

section \<open>The sender's side\<close>

text \<open>
  A frame as the radar builds it (and as \<open>build_frame\<close> of tests/test_tlv.c does): the header
  with the total length and TLV count filled in, then the TLVs.
\<close>

definition enc_tlvs :: "(u32 \<times> bytes) list \<Rightarrow> bytes" where
  "enc_tlvs ts = concat (map (\<lambda>(t, p). le32 t @ le32 (of_nat (length p)) @ p) ts)"

definition build_frame :: "tlv_header \<Rightarrow> (u32 \<times> bytes) list \<Rightarrow> bytes" where
  "build_frame h ts =
     tlv_magic @ le32 (h_version h) @ le32 (of_nat (40 + length (enc_tlvs ts))) @
     le32 (h_platform h) @ le32 (h_frame_no h) @ le32 (h_cpu_cycles h) @
     le32 (h_num_detected h) @ le32 (of_nat (length ts)) @ le32 (h_sub_frame h) @ enc_tlvs ts"

lemma enc_tlvs_simps [simp]:
  "enc_tlvs [] = []"
  "enc_tlvs ((t, p) # ts) = le32 t @ le32 (of_nat (length p)) @ p @ enc_tlvs ts"
  by (simp_all add: enc_tlvs_def)

lemma length_tlv_magic [simp]: "length tlv_magic = 8"
  by (simp add: tlv_magic_def)

lemma le32_at_le32 [simp]: "le32_at (le32 w @ m) 0 = w"
  by (simp add: le32_at_def le32_def)

lemma le32_at_skip: "length p \<le> i \<Longrightarrow> le32_at (p @ m) i = le32_at m (i - length p)"
  by (auto simp: le32_at_def nth_append dest!: le_Suc_ex)

lemma tlvs_enc_tlvs:
  "\<forall>(t, p) \<in> set ts. length p < 2 ^ 32 \<Longrightarrow> tlvs (enc_tlvs ts) = ts"
proof (induction ts)
  case Nil
  then show ?case by (simp add: tlvs.simps)
next
  case (Cons tp ts)
  obtain t p where tp: "tp = (t, p)" by fastforce
  have lp: "unat (of_nat (length p) :: u32) = length p"
    using Cons.prems tp by (intro unat_of_nat_small) simp
  have ln: "le32_at (le32 t @ le32 (of_nat (length p)) @ m) 4 = of_nat (length p)" for m
    by (simp add: le32_at_skip)
  from Cons show ?case
    unfolding tp enc_tlvs_simps by (subst tlvs.simps) (simp add: ln lp del: unat_of_nat)
qed

lemma length_enc_tlvs_payload:
  "(t, p) \<in> set ts \<Longrightarrow> length p \<le> length (enc_tlvs ts)"
  by (induction ts) auto

lemma length_build_frame [simp]: "length (build_frame h ts) = 40 + length (enc_tlvs ts)"
  by (simp add: build_frame_def)

lemma build_frame_total: "le32_at (build_frame h ts @ m) 12 = of_nat (40 + length (enc_tlvs ts))"
  by (simp add: build_frame_def le32_at_skip)

lemma build_frame_body: "drop 40 (build_frame h ts) = enc_tlvs ts"
  by (simp add: build_frame_def)

lemma header_get_in:
  "40 \<le> length m \<Longrightarrow> tlv_header_get m = Some \<lparr>h_version = le32_at m 8, h_total_len = le32_at m 12,
     h_platform = le32_at m 16, h_frame_no = le32_at m 20, h_cpu_cycles = le32_at m 24,
     h_num_detected = le32_at m 28, h_num_tlvs = le32_at m 32, h_sub_frame = le32_at m 36\<rparr>"
  by (simp add: tlv_header_get_def)

lemma header_built:
  "tlv_header_get (build_frame h ts @ stale) =
     Some (h\<lparr>h_total_len := of_nat (40 + length (enc_tlvs ts)),
             h_num_tlvs := of_nat (length ts)\<rparr>)"
  by (simp add: header_get_in) (simp add: build_frame_def le32_at_skip)

text \<open>
  Reading a header back: from the memory that starts with a frame the sender built, whatever
  follows it, \<open>tlv_header_get\<close> recovers every field, with the true length and TLV count.
\<close>

theorem header_roundtrip:
  "tlv_header_get (build_frame h ts @ stale) =
     Some (h\<lparr>h_total_len := of_nat (40 + length (enc_tlvs ts)),
             h_num_tlvs := of_nat (length ts)\<rparr>)"
  by (rule header_built)

lemma tlv_find_defined:
  assumes "tot = unat (le32_at frame 12)" and "40 \<le> tot" and "tot \<le> 2048" and "tot \<le> length frame"
  shows "\<exists>res. tlv_find frame type = Some res \<and>
           found frame tot res (first_tlv type (tlvs (drop 40 (take tot frame))))"
  using tlv_find_loop_found [of "le32_at frame 12" frame 40 type] assms
  by (simp add: tlv_find_def word_nat)

text \<open>
  C15: On every frame the reassembler can deliver (the header's total length between 40 and
  2048 and inside the buffer) \<open>tlv_find\<close> returns, reads no byte outside the buffer, and answers
  with the payload of the first TLV of the type in the frame's well-formed TLV chain, which
  lies wholly inside the frame; with no such TLV it answers \<open>NULL\<close> and length 0.
\<close>

theorem tlv_find_correct:
  assumes "tot = unat (le32_at frame 12)" and "40 \<le> tot" and "tot \<le> 2048" and "tot \<le> length frame"
  shows "\<exists>res. tlv_find frame type = Some res \<and>
           found frame tot res (first_tlv type (tlvs (drop 40 (take tot frame))))"
  using assms by (rule tlv_find_defined)

definition sample_frame :: bytes where
  "sample_frame = build_frame \<lparr>h_version = 0x05050300, h_total_len = 0, h_platform = 0x000a6432,
     h_frame_no = 7, h_cpu_cycles = 0, h_num_detected = 1, h_num_tlvs = 0,
     h_sub_frame = 0xFFFFFFFF\<rparr> [(306, replicate 24 0), (315, [4, 0x21])]"

lemma sample_frame_facts:
  "length sample_frame = 82" "le32_at sample_frame 12 = 82"
  "tlvs (drop 40 sample_frame) = [(306, replicate 24 0), (315, [4, 0x21])]"
  unfolding sample_frame_def
  by (simp, use build_frame_total [of _ _ "[]"] in simp,
      simp only: build_frame_body, rule tlvs_enc_tlvs, simp)

theorem tlv_find_correct_witness:
  "\<exists>res. tlv_find sample_frame TLV_ENHANCED_PRESENCE = Some res \<and>
         found sample_frame 82 res (Some [4, 0x21])"
  using tlv_find_correct [of 82 sample_frame TLV_ENHANCED_PRESENCE] by (simp add: sample_frame_facts)

lemma find_built:
  assumes "length (build_frame h ts) \<le> 2048"
  shows "\<exists>res. tlv_find (build_frame h ts @ stale) type = Some res \<and>
           found (build_frame h ts @ stale) (length (build_frame h ts)) res (first_tlv type ts)"
proof -
  let ?f = "build_frame h ts"
  have small: "40 + length (enc_tlvs ts) \<le> 2048" using assms by simp
  then have tot: "unat (of_nat (40 + length (enc_tlvs ts)) :: u32) = 40 + length (enc_tlvs ts)"
    by (intro unat_of_nat_small) simp
  have body: "drop 40 (take (length ?f) (?f @ stale)) = enc_tlvs ts"
    by (simp add: build_frame_body)
  have "tlvs (enc_tlvs ts) = ts"
    using small by (intro tlvs_enc_tlvs) (force dest: length_enc_tlvs_payload)
  then show ?thesis
    using tlv_find_defined [of "length ?f" "?f @ stale" type] small body
    by (simp add: build_frame_total tot del: of_nat_add unat_of_nat)
qed

text \<open>
  What the radar puts into a frame is what the firmware finds: for a frame of at most 2048
  bytes built from any TLV list, with any bytes behind it in the buffer, \<open>tlv_find\<close> answers with
  the first payload of the requested type.
\<close>

theorem tlv_find_built:
  assumes "length (build_frame h ts) \<le> 2048"
  shows "\<exists>res. tlv_find (build_frame h ts @ stale) type = Some res \<and>
           found (build_frame h ts @ stale) (length (build_frame h ts)) res (first_tlv type ts)"
  using assms by (rule find_built)

theorem tlv_find_built_witness:
  "\<exists>res. tlv_find (sample_frame @ [0xAA]) 306 = Some res \<and>
         found (sample_frame @ [0xAA]) (length sample_frame) res (Some (replicate 24 0))"
  using tlv_find_built [of _ "[(306, replicate 24 0), (315, [4, 0x21])]" "[0xAA]" 306,
      folded sample_frame_def]
  by (simp add: sample_frame_def del: length_build_frame) (simp add: sample_frame_facts)


section \<open>Targets and zones: reference and correctness\<close>

definition target_at :: "bytes \<Rightarrow> nat \<Rightarrow> nat \<Rightarrow> tlv_target" where
  "target_at p sz i =
     \<lparr>t_tid = le32_at p i, t_x = le32_at p (i + 4), t_y = le32_at p (i + 8),
      t_z = (if sz = 112 then le32_at p (i + 12) else 0)\<rparr>"

lemma read_target_in:
  assumes "unat off + unat sz \<le> length p" and "sz = 112 \<or> sz = 76"
  shows "read_target p sz off = Some (target_at p (unat sz) (unat off))"
  using assms by (auto simp: read_target_def rd_f32_def target_at_def Let_def)

lemma targets_loop_spec:
  assumes "unat len \<le> length p" and "unat len + unat sz < 2 ^ 32" and "sz = 112 \<or> sz = 76"
    and "off \<le> len"
  shows "targets_loop p len sz mx off n =
           Some (map (\<lambda>i. target_at p (unat sz) (unat off + i * unat sz))
                 [0..<min (nat (mx - n)) ((unat len - unat off) div unat sz)])"
  using assms
proof (induction p len sz mx off n rule: targets_loop.induct)
  case (1 p len sz mx off n)
  have le: "unat off \<le> unat len" using "1.prems" by (simp add: word_nat)
  then have sum: "unat (off + sz) = unat off + unat sz"
    using "1.prems" by (subst unat_add_nowrap) simp_all
  show ?case
  proof (cases "off + sz \<le> len \<and> n < mx")
    case False
    then have "(unat len - unat off) div unat sz = 0 \<or> nat (mx - n) = 0"
      using sum le by (auto simp: word_nat)
    with False show ?thesis by (subst targets_loop.simps) auto
  next
    case True
    then have in_len: "unat off + unat sz \<le> unat len" and n: "n < mx"
      using sum by (auto simp: word_nat)
    have rd: "read_target p sz off = Some (target_at p (unat sz) (unat off))"
      using in_len "1.prems" by (intro read_target_in) auto
    have sz0: "0 < unat sz" using "1.prems" by auto
    have "(unat len - unat off) div unat sz =
          Suc ((unat len - (unat off + unat sz)) div unat sz)"
      using in_len sz0 by (simp add: le_div_geq diff_diff_left [symmetric] del: diff_diff_left)
    moreover have "nat (mx - n) = Suc (nat (mx - (n + 1)))" using n by simp
    ultimately have cnt: "min (nat (mx - n)) ((unat len - unat off) div unat sz) =
        Suc (min (nat (mx - (n + 1))) ((unat len - unat (off + sz)) div unat sz))"
      by (simp add: sum)
    have "targets_loop p len sz mx (off + sz) (n + 1) =
        Some (map (\<lambda>i. target_at p (unat sz) (unat (off + sz) + i * unat sz))
             [0..<min (nat (mx - (n + 1))) ((unat len - unat (off + sz)) div unat sz)])"
      using "1.IH" [OF True rd] "1.prems" True by simp
    then show ?thesis
      using True rd unfolding cnt map_upt_Suc
      by (subst targets_loop.simps) (simp add: sum add.assoc)
  qed
qed

text \<open>The struct size the payload length stands for.\<close>

definition target_size :: "nat \<Rightarrow> nat option" where
  "target_size n = (if n = 0 then None else if 112 dvd n then Some 112
                    else if 76 dvd n then Some 76 else None)"

lemma tlv_targets_spec:
  assumes "unat len \<le> length p" and "unat len + 112 < 2 ^ 32"
  shows "tlv_targets (Some p) len mx =
           Some (case target_size (unat len) of None \<Rightarrow> []
                 | Some sz \<Rightarrow> map (\<lambda>i. target_at p sz (i * sz)) [0..<min (nat mx) (unat len div sz)])"
proof -
  have m: "len mod 112 = 0 \<longleftrightarrow> 112 dvd unat len" "len mod 76 = 0 \<longleftrightarrow> 76 dvd unat len"
    "len = 0 \<longleftrightarrow> unat len = 0"
    by (simp_all add: word_unat_eq_iff unat_mod dvd_eq_mod_eq_0)
  show ?thesis
    using assms targets_loop_spec [of len p 112 0 mx 0] targets_loop_spec [of len p 76 0 mx 0]
    by (auto simp: tlv_targets_def target_size_def m)
qed


text \<open>
  Tracker payloads: for a payload inside the buffer whose length is not within 112 bytes of
  \<open>2^32\<close>, \<open>tlv_targets\<close> reads nothing outside it, writes \<open>min max (len / size)\<close> targets, never
  more than \<open>max\<close>, the \<open>i\<close>-th from the \<open>i\<close>-th struct, and nothing when the length fits neither struct.
\<close>

theorem tlv_targets_correct:
  assumes "unat len \<le> length p" and "unat len + 112 < 2 ^ 32"
  shows "tlv_targets (Some p) len mx =
           Some (case target_size (unat len) of None \<Rightarrow> []
                 | Some sz \<Rightarrow> map (\<lambda>i. target_at p sz (i * sz)) [0..<min (nat mx) (unat len div sz)])"
  using assms by (rule tlv_targets_spec)

definition sample_target :: tlv_target where
  "sample_target = \<lparr>t_tid = 4, t_x = 0xBFA00000, t_y = 0x40200000, t_z = 0\<rparr>"

theorem tlv_targets_correct_witness:
  "tlv_targets (Some (le32 4 @ le32 0xBFA00000 @ le32 0x40200000 @ replicate 64 0)) 76 4 =
     Some [sample_target]"
proof -
  let ?p = "le32 4 @ le32 0xBFA00000 @ le32 0x40200000 @ replicate 64 0 :: bytes"
  have "target_at ?p 76 0 = sample_target"
    by (simp add: target_at_def le32_at_skip sample_target_def)
  moreover have "target_size 76 = Some 76"
    by (simp add: target_size_def)
  ultimately show ?thesis
    using tlv_targets_correct [of 76 ?p 4] by simp
qed

text \<open>The sender's structs: the decoded fields, then the floats this code does not read.\<close>

definition enc_target :: "nat \<Rightarrow> tlv_target \<Rightarrow> bytes \<Rightarrow> bytes" where
  "enc_target sz t tail = le32 (t_tid t) @ le32 (t_x t) @ le32 (t_y t) @
     (if sz = 112 then le32 (t_z t) else []) @ tail"

definition target_wf :: "nat \<Rightarrow> tlv_target \<times> bytes \<Rightarrow> bool" where
  "target_wf sz e \<longleftrightarrow> length (enc_target sz (fst e) (snd e)) = sz \<and> (sz = 112 \<or> t_z (fst e) = 0)"

definition enc_targets :: "nat \<Rightarrow> (tlv_target \<times> bytes) list \<Rightarrow> bytes" where
  "enc_targets sz es = concat (map (\<lambda>e. enc_target sz (fst e) (snd e)) es)"

lemma length_enc_targets:
  "\<forall>e\<in>set es. target_wf sz e \<Longrightarrow> length (enc_targets sz es) = length es * sz"
  by (induction es) (auto simp: enc_targets_def target_wf_def)

lemma target_at_skip: "length p \<le> i \<Longrightarrow> target_at (p @ m) sz i = target_at m sz (i - length p)"
  by (auto simp: target_at_def le32_at_skip dest!: le_Suc_ex)

lemma target_at_enc:
  "target_wf sz e \<Longrightarrow> target_at (enc_target sz (fst e) (snd e) @ m) sz 0 = fst e"
  by (auto simp: target_at_def enc_target_def target_wf_def le32_at_skip)

lemma target_at_enc_targets:
  assumes "\<forall>e\<in>set es. target_wf sz e" and "i < length es"
  shows "target_at (enc_targets sz es @ m) sz (i * sz) = fst (es ! i)"
  using assms
proof (induction es arbitrary: i)
  case Nil
  then show ?case by simp
next
  case (Cons e es)
  have len: "length (enc_target sz (fst e) (snd e)) = sz"
    using Cons.prems by (simp add: target_wf_def)
  have split: "enc_targets sz (e # es) @ m = enc_target sz (fst e) (snd e) @ enc_targets sz es @ m"
    by (simp add: enc_targets_def)
  show ?case
  proof (cases i)
    case 0
    then show ?thesis using Cons.prems by (simp only: split) (simp add: target_at_enc)
  next
    case (Suc j)
    then show ?thesis using Cons
      by (simp only: split) (simp add: target_at_skip len)
  qed
qed

text \<open>
  The two struct sizes have no common multiple that fits the payload of one frame, so picking
  the struct by divisibility is unambiguous there.
\<close>

lemma target_size_unambiguous:
  assumes "0 < k" and "k * sz \<le> 2000" and "sz = 112 \<or> sz = 76"
  shows "target_size (k * sz) = Some sz"
proof (cases "sz = 112")
  case True
  then show ?thesis using assms by (simp add: target_size_def)
next
  case False
  then have sz: "sz = 76" and k: "0 < k" "k < 28" using assms by auto
  have "\<forall>k\<in>set [1..<28]. \<not> 112 dvd k * (76 :: nat)" by code_simp
  with k have "\<not> 112 dvd k * 76" by simp
  with sz k show ?thesis by (simp add: target_size_def)
qed


text \<open>
  Both tracker builds decode: for every list of 3D structs (112 bytes) or of 2D structs
  (76 bytes, no \<open>z\<close>) that fits one frame, \<open>tlv_targets\<close> yields the first \<open>max\<close> targets in order,
  with \<open>z = 0\<close> for the 2D build.
\<close>

theorem tlv_targets_roundtrip:
  assumes "\<forall>e\<in>set es. target_wf sz e" and "sz = 112 \<or> sz = 76" and "length es * sz \<le> 2000"
  shows "tlv_targets (Some (enc_targets sz es @ stale)) (of_nat (length es * sz)) mx =
           Some (take (nat mx) (map fst es))"
proof (cases "es = []")
  case True
  then show ?thesis by (simp add: tlv_targets_def)
next
  case False
  let ?p = "enc_targets sz es @ stale"
  have len: "unat (of_nat (length es * sz) :: u32) = length es * sz"
    using assms(3) by (intro unat_of_nat_small) simp
  have sz0: "0 < sz" using assms(2) by auto
  have "tlv_targets (Some ?p) (of_nat (length es * sz)) mx =
      Some (map (\<lambda>i. target_at ?p sz (i * sz)) [0..<min (nat mx) (length es)])"
    using tlv_targets_spec [of "of_nat (length es * sz)" ?p mx] False assms sz0
      target_size_unambiguous [of "length es" sz]
    unfolding len by (simp add: length_enc_targets)
  also have "\<dots> = Some (take (nat mx) (map fst es))"
    using assms(1) by (auto intro!: nth_equalityI simp: target_at_enc_targets)
  finally show ?thesis .
qed

theorem tlv_targets_roundtrip_witness:
  "tlv_targets (Some (enc_targets 76 [(sample_target, replicate 64 0)] @ [7])) 76 20 =
     Some [sample_target]"
  using tlv_targets_roundtrip [of "[(sample_target, replicate 64 0)]" 76 "[7]" 20]
  by (simp add: target_wf_def enc_target_def sample_target_def)

text \<open>The state of zone \<open>z\<close>: two bits from the least significant end of byte \<open>1 + z / 4\<close>.\<close>

definition zone_state :: "bytes \<Rightarrow> nat \<Rightarrow> nat \<Rightarrow> u8" where
  "zone_state p len z =
     (if 1 + z div 4 < len then drop_bit (2 * (z mod 4)) (p ! (1 + z div 4)) AND 3 else 0)"

lemma presence_loop_spec:
  assumes "unat len \<le> length p" and "n \<le> 255"
  shows "presence_loop p len n (int z) = Some (map (zone_state p (unat len)) [z..<nat n])"
  using assms
proof (induction "nat n - z" arbitrary: z)
  case 0
  then show ?case by (subst presence_loop.simps) auto
next
  case (Suc k)
  then have z: "int z < n" "z < 255" "z < nat n" by linarith+
  define w :: u32 where "w = of_nat (1 + z div 4)"
  have "cdiv (int z) 4 = int (z div 4)" by (simp add: cdiv_nonneg zdiv_int)
  then have idx: "1 + (of_int (cdiv (int z) 4) :: u32) = w" by (simp add: w_def)
  have un: "unat w = 1 + z div 4"
    using z unfolding w_def by (intro unat_of_nat_small) simp
  have sh: "nat (2 * (int z mod 4)) = 2 * (z mod 4)"
    by (simp add: nat_mult_distrib nat_mod_distrib)
  have st: "(if w < len
        then map_option (\<lambda>b. drop_bit (nat (2 * (int z mod 4))) b AND 0x3) (rd8 p (unat w))
        else Some 0) = Some (zone_state p (unat len) z)"
    using Suc.prems by (auto simp: zone_state_def word_less_nat_alt un sh)
  have rest: "presence_loop p len n (int z + 1) = Some (map (zone_state p (unat len)) [Suc z..<nat n])"
    using Suc.hyps(1) [of "Suc z"] Suc.hyps(2) Suc.prems by (simp add: add.commute)
  show ?case
    using z(1,3) rest by (subst presence_loop.simps)
      (simp only: idx Let_def st upt_conv_Cons, simp)
qed

lemma presence_spec:
  assumes "unat len \<le> length p" and "0 \<le> mx"
  shows "tlv_presence (Some p) len mx =
           (if unat len < 2 then Some (0, [])
            else let n = min (unat (p ! 0)) (nat mx)
                 in Some (int n, map (zone_state p (unat len)) [0..<n]))"
proof (cases "unat len < 2")
  case True
  then show ?thesis by (simp add: tlv_presence_def word_less_nat_alt)
next
  case False
  let ?n = "if uint (p ! 0) > mx then mx else uint (p ! 0)"
  have b: "uint (p ! 0) = int (unat (p ! 0))" by simp
  have "unat (p ! 0) < 2 ^ LENGTH(8)" by (rule unsigned_less)
  then have n: "?n \<le> 255" "?n = int (min (unat (p ! 0)) (nat mx))"
    using assms(2) unfolding b by (auto simp: min_def simp del: of_nat_unat)
  have "rd8 p 0 = Some (p ! 0)" using False assms(1) by (intro rd8_in) linarith
  moreover have "\<not> len < 2" using False by (simp add: word_less_nat_alt)
  ultimately have "tlv_presence (Some p) len mx = map_option (Pair ?n) (presence_loop p len ?n 0)"
    by (simp only: tlv_presence_def Let_def option.case if_False)
  also have "presence_loop p len ?n 0 = Some (map (zone_state p (unat len)) [0..<nat ?n])"
    using presence_loop_spec [OF assms(1) n(1), of 0] by simp
  finally show ?thesis using False unfolding n(2) by (simp add: Let_def)
qed

text \<open>
  Presence payloads: for a payload inside the buffer, \<open>tlv_presence\<close> reads nothing outside
  it and returns the zone count of byte 0 clamped to \<open>max\<close>, with one two-bit state per zone
  and 0 (none) for zones whose byte is missing.
\<close>

theorem tlv_presence_correct:
  assumes "unat len \<le> length p" and "0 \<le> mx"
  shows "tlv_presence (Some p) len mx =
           (if unat len < 2 then Some (0, [])
            else let n = min (unat (p ! 0)) (nat mx)
                 in Some (int n, map (zone_state p (unat len)) [0..<n]))"
  using assms by (rule presence_spec)

theorem tlv_presence_correct_witness:
  "tlv_presence (Some [4, 0x21, 0xFF]) 2 8 = Some (4, [1, 0, 2, 0])"
proof -
  have "[0..<4] = [0, 1, 2, 3 :: nat]" by code_simp
  then show ?thesis
    using tlv_presence_correct [of 2 "[4, 0x21, 0xFF]" 8] by (simp add: zone_state_def)
qed

end
