(* ===== verification/Reasm.thy ===== *)
theory Reasm
  imports Tlv
begin

text \<open>
  The streaming half of src/src/tlv.c: the reassembler \<open>tlv_push\<close>, which hunts for the magic
  word and then collects as many bytes as the header's total length announces. Beside it
  stands the reference \<open>scan\<close>, which cuts a whole byte string into frames at once; the
  reassembler, fed byte by byte, delivers the same frames. The interface the radar thread
  relies on is the locale \<open>framer\<close>.
\<close>

section \<open>The reassembler\<close>

text \<open>
  \<open>len\<close>, \<open>want\<close> and \<open>match\<close> are counters bounded by the invariant below (at most 2048), so
  their unsigned types never wrap. \<open>None\<close> is an access outside \<open>buf\<close> or \<open>tlv_magic\<close>.
\<close>

record tlv_reasm =
  r_buf :: bytes
  r_len :: nat
  r_want :: nat
  r_match :: nat

definition tlv_reset :: "tlv_reasm \<Rightarrow> tlv_reasm" where
  "tlv_reset r = r\<lparr>r_len := 0, r_want := 0, r_match := 0\<rparr>"

definition push_hunt :: "tlv_reasm \<Rightarrow> u8 \<Rightarrow> (bool \<times> tlv_reasm) option" where
  "push_hunt r byte =
     (case rd8 tlv_magic (r_match r) of None \<Rightarrow> None
      | Some m \<Rightarrow>
          if byte = m then
            (let r1 = r\<lparr>r_match := r_match r + 1\<rparr> in
             if r_match r1 = TLV_MAGIC_LEN then
               map_option (\<lambda>b. (False, r1\<lparr>r_buf := b, r_len := TLV_MAGIC_LEN, r_want := 0,
                                          r_match := 0\<rparr>))
                 (poke (r_buf r1) 0 tlv_magic)
             else Some (False, r1))
          else Some (False, r\<lparr>r_match := (if byte = tlv_magic ! 0 then 1 else 0)\<rparr>))"

definition push_finish :: "tlv_reasm \<Rightarrow> bool \<times> tlv_reasm" where
  "push_finish r =
     (if r_len r < r_want r then (False, r) else (True, r\<lparr>r_len := r_want r, r_want := 0\<rparr>))"

definition tlv_push :: "tlv_reasm \<Rightarrow> u8 \<Rightarrow> (bool \<times> tlv_reasm) option" where
  "tlv_push r byte =
     (if r_len r = 0 then push_hunt r byte
      else
        (case poke (r_buf r) (r_len r) [byte] of None \<Rightarrow> None
         | Some b \<Rightarrow>
             let r1 = r\<lparr>r_buf := b, r_len := r_len r + 1\<rparr> in
             if r_want r1 = 0 then
               if r_len r1 < TLV_HDR_LEN then Some (False, r1)
               else
                 (case rd_u32 (r_buf r1) 12 of None \<Rightarrow> None
                  | Some w \<Rightarrow>
                      let r2 = r1\<lparr>r_want := unat w\<rparr> in
                      if r_want r2 < TLV_HDR_LEN \<or> r_want r2 > TLV_MAX_FRAME
                      then Some (False, tlv_reset r2)
                      else Some (push_finish r2))
             else Some (push_finish r1)))"

text \<open>
  How the radar thread drives it: on a 1 the frame is handled and the reassembler reset. The
  driver is written over any such push, reset and handler; \<open>tlv_feed\<close> is the instance that
  only collects the completed reassemblers (as \<open>feed\<close> of tests/test_tlv.c does).
\<close>

fun drive :: "('s \<Rightarrow> u8 \<Rightarrow> (bool \<times> 's) option) \<Rightarrow> ('s \<Rightarrow> 's) \<Rightarrow> ('s \<Rightarrow> 'a \<Rightarrow> 'a option) \<Rightarrow>
              's \<times> 'a \<Rightarrow> bytes \<Rightarrow> ('s \<times> 'a) option" where
  "drive push reset handle (s, a) [] = Some (s, a)"
| "drive push reset handle (s, a) (b # bs) =
     (case push s b of None \<Rightarrow> None
      | Some (done, s') \<Rightarrow>
          if done then
            (case handle s' a of None \<Rightarrow> None
             | Some a' \<Rightarrow> drive push reset handle (reset s', a') bs)
          else drive push reset handle (s', a) bs)"

definition tlv_feed :: "tlv_reasm \<Rightarrow> bytes \<Rightarrow> (tlv_reasm \<times> tlv_reasm list) option" where
  "tlv_feed r bs = drive tlv_push tlv_reset (\<lambda>f fs. Some (fs @ [f])) (r, []) bs"

fun fold_opt :: "('x \<Rightarrow> 'a \<Rightarrow> 'a option) \<Rightarrow> 'x list \<Rightarrow> 'a \<Rightarrow> 'a option" where
  "fold_opt h [] a = Some a"
| "fold_opt h (x # xs) a = (case h x a of None \<Rightarrow> None | Some a' \<Rightarrow> fold_opt h xs a')"

definition frame_of :: "tlv_reasm \<Rightarrow> bytes" where
  "frame_of r = take (r_len r) (r_buf r)"

section \<open>The reference: cutting a byte string into frames\<close>

fun find_magic :: "bytes \<Rightarrow> bytes option" where
  "find_magic [] = None"
| "find_magic (x # xs) = (if prefix tlv_magic (x # xs) then Some (x # xs) else find_magic xs)"

lemma find_magic_length: "find_magic xs = Some ys \<Longrightarrow> length ys \<le> length xs"
  by (induction xs) (auto split: if_splits)

function scan :: "bytes \<Rightarrow> bytes list" where
  "scan xs =
     (case find_magic xs of None \<Rightarrow> []
      | Some ys \<Rightarrow>
          if length ys < 40 then []
          else let w = unat (le32_at ys 12)
               in if w < 40 \<or> w > 2048 then scan (drop 40 ys)
                  else if length ys < w then [] else take w ys # scan (drop w ys))"
  by pat_completeness auto
termination
  by (relation "measure length") (auto dest: find_magic_length)

declare scan.simps [simp del]

section \<open>Invariant\<close>

text \<open>A frame being collected: the magic, then either a header in progress or a known length.\<close>

definition collecting :: "tlv_reasm \<Rightarrow> bool" where
  "collecting r \<longleftrightarrow> 8 \<le> r_len r \<and> take 8 (r_buf r) = tlv_magic \<and> r_match r = 0 \<and>
     (if r_want r = 0 then r_len r < 40
      else 40 \<le> r_len r \<and> r_len r < r_want r \<and> r_want r \<le> 2048 \<and>
           unat (le32_at (r_buf r) 12) = r_want r)"

definition reasm_inv :: "tlv_reasm \<Rightarrow> bool" where
  "reasm_inv r \<longleftrightarrow> length (r_buf r) = 2048 \<and>
     (if r_len r = 0 then r_match r < 8 \<and> r_want r = 0 else collecting r)"

text \<open>The state in which a frame is handed over.\<close>

definition frame_ready :: "tlv_reasm \<Rightarrow> bool" where
  "frame_ready r \<longleftrightarrow> length (r_buf r) = 2048 \<and> 40 \<le> r_len r \<and> r_len r \<le> 2048 \<and>
     take 8 (r_buf r) = tlv_magic \<and> unat (le32_at (r_buf r) 12) = r_len r \<and>
     r_want r = 0 \<and> r_match r = 0"

text \<open>The bytes of the stream the state stands for.\<close>

definition pending :: "tlv_reasm \<Rightarrow> bytes" where
  "pending r = (if r_len r = 0 then take (r_match r) tlv_magic else frame_of r)"

lemma inv_reset: "length (r_buf r) = 2048 \<Longrightarrow> reasm_inv (tlv_reset r)"
  by (simp add: reasm_inv_def tlv_reset_def)

lemma pending_reset [simp]: "pending (tlv_reset r) = []"
  by (simp add: pending_def tlv_reset_def)

lemma le32_at_poke:
  "poke m i bs = Some m' \<Longrightarrow> j + 4 \<le> i \<Longrightarrow> le32_at m' j = le32_at m j"
  by (metis le32_at_take poke_take)

text \<open>One byte: what each branch does to the stream the state stands for.\<close>

lemma hunt_step:
  assumes "reasm_inv r" and "r_len r = 0"
  shows "\<exists>r'. tlv_push r b = Some (False, r') \<and> reasm_inv r' \<and>
           pending r' = (if b = tlv_magic ! r_match r then pending r @ [b]
                         else if b = 2 then [b] else [])"
proof -
  have len: "length (r_buf r) = 2048" and m: "r_match r < 8" and w: "r_want r = 0"
    using assms by (auto simp: reasm_inv_def)
  obtain m' where poke: "poke (r_buf r) 0 tlv_magic = Some m'"
    using poke_in [of 0 tlv_magic "r_buf r"] len by auto
  then have m': "length m' = 2048" "take 8 m' = tlv_magic"
    using len poke_length poke_take_append [of "r_buf r" 0 tlv_magic m'] by auto
  have snoc: "take (Suc (r_match r)) tlv_magic = take (r_match r) tlv_magic @ [tlv_magic ! r_match r]"
    using m by (simp add: take_Suc_conv_app_nth)
  have full: "r_match r = 7 \<Longrightarrow> tlv_magic = take 7 tlv_magic @ [tlv_magic ! 7]"
    by (simp add: tlv_magic_def)
  have rd: "rd8 tlv_magic (r_match r) = Some (tlv_magic ! r_match r)"
    using m by (intro rd8_in) simp
  consider "b = tlv_magic ! r_match r" "r_match r = 7"
    | "b = tlv_magic ! r_match r" "r_match r \<noteq> 7" | "b \<noteq> tlv_magic ! r_match r" by blast
  then show ?thesis
  proof cases
    case 1
    then show ?thesis
      using assms len poke m' full rd
      by (auto simp: tlv_push_def push_hunt_def reasm_inv_def collecting_def pending_def
          frame_of_def Let_def)
  next
    case 2
    then show ?thesis
      using assms len m w snoc rd
      by (auto simp: tlv_push_def push_hunt_def reasm_inv_def pending_def Let_def)
  next
    case 3
    then show ?thesis
      using assms len w rd
      by (auto simp: tlv_push_def push_hunt_def reasm_inv_def pending_def Let_def tlv_magic_def)
  qed
qed


text \<open>The three outcomes of a byte while a frame is being collected.\<close>

definition collect_outcome :: "tlv_reasm \<Rightarrow> u8 \<Rightarrow> bool \<Rightarrow> tlv_reasm \<Rightarrow> bool" where
  "collect_outcome r b done r' \<longleftrightarrow>
     (let p = pending r @ [b]; w = unat (le32_at p 12) in
      if done then frame_ready r' \<and> frame_of r' = p
      else reasm_inv r' \<and>
           (pending r' = p \<or> length p = 40 \<and> (w < 40 \<or> w > 2048) \<and> pending r' = []))"

lemma finish_outcome:
  assumes "length (r_buf r2) = 2048" and "take 8 (r_buf r2) = tlv_magic" and "r_match r2 = 0"
    and "40 \<le> r_len r2" and "r_len r2 \<le> r_want r2" and "r_want r2 \<le> 2048"
    and "unat (le32_at (r_buf r2) 12) = r_want r2" and fr: "frame_of r2 = pending r @ [b]"
  shows "\<exists>done r'. push_finish r2 = (done, r') \<and> collect_outcome r b done r'"
proof (cases "r_len r2 = r_want r2")
  case True
  then have "push_finish r2 = (True, r2\<lparr>r_len := r_want r2, r_want := 0\<rparr>)"
    by (simp add: push_finish_def)
  moreover have "frame_ready (r2\<lparr>r_len := r_want r2, r_want := 0\<rparr>)"
    and "frame_of (r2\<lparr>r_len := r_want r2, r_want := 0\<rparr>) = pending r @ [b]"
    using True assms by (simp_all add: frame_ready_def frame_of_def)
  ultimately show ?thesis by (auto simp: collect_outcome_def Let_def)
next
  case False
  then have "push_finish r2 = (False, r2)" using assms by (simp add: push_finish_def)
  moreover have "r_len r2 \<noteq> 0" "r_want r2 \<noteq> 0" "r_len r2 < r_want r2" "8 \<le> r_len r2"
    using False assms by linarith+
  then have "collecting r2" using assms by (simp add: collecting_def)
  then have "reasm_inv r2" and "pending r2 = pending r @ [b]"
    using \<open>r_len r2 \<noteq> 0\<close> assms(1) fr by (simp_all add: reasm_inv_def pending_def)
  ultimately show ?thesis by (auto simp: collect_outcome_def Let_def)
qed

lemma collect_step:
  assumes inv: "reasm_inv r" and ne: "r_len r \<noteq> 0"
  shows "\<exists>done r'. tlv_push r b = Some (done, r') \<and> collect_outcome r b done r'"
proof -
  have len: "length (r_buf r) = 2048" and col: "collecting r"
    using assms by (auto simp: reasm_inv_def)
  then have lt: "r_len r < 2048" "8 \<le> r_len r" "r_match r = 0" "take 8 (r_buf r) = tlv_magic"
    by (auto simp: collecting_def split: if_splits)
  obtain m where m: "poke (r_buf r) (r_len r) [b] = Some m"
    using poke_in [of "r_len r" "[b]" "r_buf r"] len lt by auto
  have lm: "length m = 2048" using poke_length [OF m] len by simp
  have p: "take (r_len r + 1) m = pending r @ [b]"
    using poke_take_append [OF m] ne by (simp add: pending_def frame_of_def)
  have mag: "take 8 m = tlv_magic"
    using poke_take [OF m] lt by (metis min.absorb1 take_take)
  have lp: "length (pending r @ [b]) = r_len r + 1" 
    unfolding p [symmetric] using lm lt by simp
  have at12: "le32_at (pending r @ [b]) 12 = le32_at m 12" if "40 \<le> r_len r + 1"
    unfolding p [symmetric] using that by (intro le32_at_take) simp
  show ?thesis
  proof (cases "r_want r = 0")
    case True
    note want = this
    have rd: "rd_u32 m 12 = Some (le32_at m 12)" using lm by simp
    consider "r_len r + 1 < 40" | "r_len r + 1 = 40"
      using col want unfolding collecting_def by (cases "r_len r = 39") auto
    then show ?thesis
    proof cases
      case 1
      then show ?thesis
        using want ne m lm lt mag p
        by (auto simp: tlv_push_def collect_outcome_def Let_def reasm_inv_def collecting_def
            pending_def frame_of_def)
    next
      case 2
      let ?w = "unat (le32_at m 12)"
      have w: "unat (le32_at (pending r @ [b]) 12) = ?w" using at12 2 by simp
      show ?thesis
      proof (cases "?w < 40 \<or> ?w > 2048")
        case True
        then show ?thesis
          using want ne m lm rd 2 w lp
          by (auto simp: tlv_push_def collect_outcome_def Let_def reasm_inv_def tlv_reset_def
              pending_def)
      next
        case False
        define r2 where "r2 = r\<lparr>r_buf := m, r_len := 40, r_want := ?w\<rparr>"
        have push: "tlv_push r b = Some (push_finish r2)"
          using want ne m rd 2 False by (simp add: tlv_push_def Let_def r2_def)
        have fr: "frame_of r2 = pending r @ [b]"
          using p 2 by (simp add: r2_def frame_of_def)
        have "length (r_buf r2) = 2048" and "take 8 (r_buf r2) = tlv_magic" and "r_match r2 = 0"
          and "40 \<le> r_len r2" and "r_len r2 \<le> r_want r2" and "r_want r2 \<le> 2048"
          and "unat (le32_at (r_buf r2) 12) = r_want r2"
          using False lm mag lt by (simp_all add: r2_def)
        from finish_outcome [OF this fr] push show ?thesis by auto
      qed
    qed
  next
    case False
    note want = this
    then have c: "40 \<le> r_len r" "r_len r < r_want r" "r_want r \<le> 2048"
      "unat (le32_at (r_buf r) 12) = r_want r"
      using col by (auto simp: collecting_def)
    have "unat (le32_at m 12) = r_want r" using c le32_at_poke [OF m, of 12] by simp
    define r1 where "r1 = r\<lparr>r_buf := m, r_len := r_len r + 1\<rparr>"
    have push: "tlv_push r b = Some (push_finish r1)"
      using want ne m by (simp add: tlv_push_def Let_def r1_def)
    have fr: "frame_of r1 = pending r @ [b]"
      using p by (simp add: r1_def frame_of_def)
    have "length (r_buf r1) = 2048" and "take 8 (r_buf r1) = tlv_magic" and "r_match r1 = 0"
      and "40 \<le> r_len r1" and "r_len r1 \<le> r_want r1" and "r_want r1 \<le> 2048"
      and "unat (le32_at (r_buf r1) 12) = r_want r1"
      using \<open>unat (le32_at m 12) = r_want r\<close> lm mag lt c by (simp_all add: r1_def)
    from finish_outcome [OF this fr] push show ?thesis by auto
  qed
qed

section \<open>The reference on the pending bytes\<close>

lemma find_magic_prefix: "prefix tlv_magic p \<Longrightarrow> find_magic p = Some p"
  by (cases p) (auto simp: tlv_magic_def)

lemma prefix_take8: "take 8 p = tlv_magic \<Longrightarrow> prefix tlv_magic p"
  by (metis take_is_prefix)

lemma take_append_short: "n \<le> length p \<Longrightarrow> take n (p @ xs) = take n p"
  by simp

lemma find_magic_short: "length p < 8 \<Longrightarrow> find_magic p = None"
  by (induction p) (auto dest!: prefix_length_le)

text \<open>
  After a mismatch the hunt keeps only the byte that may start the magic: all eight bytes of
  the magic are different, so no longer tail of the matched part can be a prefix of it.
\<close>

lemma find_magic_mismatch:
  assumes "k < 8" and "b \<noteq> tlv_magic ! k"
  shows "find_magic (take k tlv_magic @ b # xs) = find_magic ((if b = 2 then [b] else []) @ xs)"
proof -
  have "k = 0 \<or> k = 1 \<or> k = 2 \<or> k = 3 \<or> k = 4 \<or> k = 5 \<or> k = 6 \<or> k = 7"
    using assms(1) by linarith
  then show ?thesis
    using assms(2) by (elim disjE) (simp_all add: tlv_magic_def)
qed

lemma scan_mismatch:
  assumes "k < 8" and "b \<noteq> tlv_magic ! k"
  shows "scan (take k tlv_magic @ b # xs) = scan ((if b = 2 then [b] else []) @ xs)"
  unfolding scan.simps [of "take k tlv_magic @ b # xs"]
    scan.simps [of "(if b = 2 then [b] else []) @ xs"]
  by (simp only: find_magic_mismatch [OF assms])

lemma scan_pending: "reasm_inv r \<Longrightarrow> scan (pending r) = []"
proof (cases "r_len r = 0")
  case True
  assume "reasm_inv r"
  with True have "length (pending r) < 8" by (simp add: reasm_inv_def pending_def)
  then show ?thesis by (subst scan.simps) (simp add: find_magic_short)
next
  case False
  assume "reasm_inv r"
  with False have col: "collecting r" and len: "length (r_buf r) = 2048"
    by (auto simp: reasm_inv_def)
  then have lt: "r_len r < 2048" "8 \<le> r_len r"
    by (auto simp: collecting_def split: if_splits)
  then have lp: "length (pending r) = r_len r" using len False by (simp add: pending_def frame_of_def)
  have "take 8 (pending r) = tlv_magic"
    using col lt False by (simp add: pending_def frame_of_def collecting_def min_def)
  then have fm: "find_magic (pending r) = Some (pending r)"
    by (intro find_magic_prefix prefix_take8)
  have "le32_at (pending r) 12 = le32_at (r_buf r) 12" if "40 \<le> r_len r"
    using that False by (simp add: pending_def frame_of_def le32_at_take)
  then show ?thesis
    using col fm lp by (subst scan.simps) (auto simp: collecting_def Let_def split: if_splits)
qed

text \<open>A collected prefix decides what the reference does with the rest of the stream.\<close>

lemma scan_bogus:
  assumes "take 8 p = tlv_magic" and "length p = 40"
    and "unat (le32_at p 12) < 40 \<or> unat (le32_at p 12) > 2048"
  shows "scan (p @ xs) = scan xs"
proof -
  have "take 8 (p @ xs) = tlv_magic" using assms by simp
  then have "find_magic (p @ xs) = Some (p @ xs)" by (intro find_magic_prefix prefix_take8)
  then show ?thesis
    using assms by (subst scan.simps) (simp add: le32_at_append Let_def)
qed

lemma scan_frame:
  assumes "take 8 p = tlv_magic" and "length p = unat (le32_at p 12)"
    and "40 \<le> length p" and "length p \<le> 2048"
  shows "scan (p @ xs) = p # scan xs"
proof -
  have "take 8 (p @ xs) = tlv_magic" using assms by simp
  then have "find_magic (p @ xs) = Some (p @ xs)" by (intro find_magic_prefix prefix_take8)
  moreover have "le32_at (p @ xs) 12 = le32_at p 12" using assms by (intro le32_at_append) simp
  ultimately show ?thesis
    using assms by (subst scan.simps) (simp add: Let_def del: assms(2))
qed

lemma ready_frame:
  assumes "frame_ready r"
  shows "take 8 (frame_of r) = tlv_magic" and "length (frame_of r) = unat (le32_at (frame_of r) 12)"
    and "40 \<le> length (frame_of r)" and "length (frame_of r) \<le> 2048"
  using assms by (simp_all add: frame_ready_def frame_of_def le32_at_take min_def)


section \<open>The interface: a framer\<close>

text \<open>
  What the radar thread relies on: pushing a byte in a valid state is defined and leads to a
  valid state or to a completed frame, and resetting makes the state valid again.
\<close>

lemma drive_append:
  "drive push reset handle (s, a) (xs @ ys) =
     (case drive push reset handle (s, a) xs of None \<Rightarrow> None
      | Some x \<Rightarrow> drive push reset handle x ys)"
  by (induction xs arbitrary: s a) (auto split: option.split prod.split)

locale framer =
  fixes push :: "'s \<Rightarrow> u8 \<Rightarrow> (bool \<times> 's) option"
    and reset :: "'s \<Rightarrow> 's"
    and inv :: "'s \<Rightarrow> bool"
    and ready :: "'s \<Rightarrow> bool"
  assumes push_defined: "inv s \<Longrightarrow>
      \<exists>d s'. push s b = Some (d, s') \<and> (if d then ready s' else inv s')"
    and reset_inv: "inv s \<or> ready s \<Longrightarrow> inv (reset s)"
begin

lemma collect_acc:
  "drive push reset (\<lambda>f fs. Some (fs @ [f])) (s, acc) bs =
   map_option (\<lambda>(s', fs). (s', acc @ fs)) (drive push reset (\<lambda>f fs. Some (fs @ [f])) (s, []) bs)"
proof (induction bs arbitrary: s acc)
  case Nil
  then show ?case by simp
next
  case (Cons b bs)
  show ?case
  proof (cases "push s b")
    case None
    then show ?thesis by simp
  next
    case (Some r)
    obtain d s' where r: "r = (d, s')" by fastforce
    show ?thesis
      using Some r Cons [of "reset s'" "acc @ [s']"] Cons [of "reset s'" "[s']"] Cons [of s' acc]
      by (simp add: option.map_comp comp_def case_prod_beta)
  qed
qed

lemma collect_defined:
  "inv s \<Longrightarrow> \<exists>s' fs. drive push reset (\<lambda>f fs. Some (fs @ [f])) (s, []) bs = Some (s', fs) \<and>
     inv s' \<and> (\<forall>f \<in> set fs. ready f)"
proof (induction bs arbitrary: s)
  case Nil
  then show ?case by simp
next
  case (Cons b bs)
  obtain d s' where push: "push s b = Some (d, s')" and s': "if d then ready s' else inv s'"
    using push_defined [OF Cons.prems] by blast
  then have "inv (if d then reset s' else s')" by (simp add: reset_inv)
  from Cons.IH [OF this] show ?case
    using push s' by (auto simp: collect_acc [of "reset s'" "[s']"] split: if_splits)
qed

text \<open>Driving any handler is collecting the frames and then handling them in order.\<close>

lemma drive_handler:
  "inv s \<Longrightarrow> drive push reset (\<lambda>f fs. Some (fs @ [f])) (s, []) bs = Some (s', fs) \<Longrightarrow>
   drive push reset handle (s, a) bs = map_option (Pair s') (fold_opt handle fs a)"
proof (induction bs arbitrary: s a fs)
  case Nil
  then show ?case by simp
next
  case (Cons b bs)
  obtain d t where push: "push s b = Some (d, t)" and t: "if d then ready t else inv t"
    using push_defined [OF Cons.prems(1)] by blast
  show ?case
  proof (cases d)
    case False
    then show ?thesis using Cons push t by simp
  next
    case True
    then have inv: "inv (reset t)" using t by (simp add: reset_inv)
    obtain fs' where rest: "drive push reset (\<lambda>f fs. Some (fs @ [f])) (reset t, []) bs = Some (s', fs')"
      and fs: "fs = t # fs'"
      using Cons.prems(2) push True by (auto simp: collect_acc [of "reset t" "[t]"])
    show ?thesis
      using Cons.IH [OF inv rest] push True fs by (simp split: option.split)
  qed
qed

text \<open>A handler that is defined on completed frames and keeps a property keeps the thread going.\<close>

lemma drive_safe:
  assumes "inv s" and "J a"
    and handle: "\<And>f a. ready f \<Longrightarrow> J a \<Longrightarrow> \<exists>a'. handle f a = Some a' \<and> J a'"
  shows "\<exists>s' a'. drive push reset handle (s, a) bs = Some (s', a') \<and> inv s' \<and> J a'"
proof -
  obtain s' fs where c: "drive push reset (\<lambda>f fs. Some (fs @ [f])) (s, []) bs = Some (s', fs)"
    and s': "inv s'" and ready: "\<forall>f \<in> set fs. ready f"
    using collect_defined [OF assms(1)] by blast
  have "\<exists>a'. fold_opt handle fs a = Some a' \<and> J a'"
    using ready assms(2)
  proof (induction fs arbitrary: a)
    case Nil
    then show ?case by simp
  next
    case (Cons f fs)
    then obtain a1 where "handle f a = Some a1" "J a1" using handle by fastforce
    with Cons show ?case by simp
  qed
  then obtain a' where "fold_opt handle fs a = Some a'" and J: "J a'" by blast
  then have "drive push reset handle (s, a) bs = Some (s', a')"
    by (simp add: drive_handler [OF assms(1) c])
  with s' J show ?thesis by blast
qed

end

lemma push_defined_tlv:
  assumes "reasm_inv r"
  shows "\<exists>d r'. tlv_push r b = Some (d, r') \<and> (if d then frame_ready r' else reasm_inv r')"
proof (cases "r_len r = 0")
  case True
  then show ?thesis using hunt_step [OF assms True, of b] by auto
next
  case False
  then obtain d r' where push: "tlv_push r b = Some (d, r')" and out: "collect_outcome r b d r'"
    using collect_step [OF assms False, of b] by blast
  have "if d then frame_ready r' else reasm_inv r'"
    using out unfolding collect_outcome_def Let_def by (cases d) simp_all
  with push show ?thesis by blast
qed

lemma inv_reset_tlv: "reasm_inv r \<or> frame_ready r \<Longrightarrow> reasm_inv (tlv_reset r)"
  by (intro inv_reset) (auto simp: reasm_inv_def frame_ready_def)

interpretation tlv: framer tlv_push tlv_reset reasm_inv frame_ready
  by unfold_locales (fact push_defined_tlv, fact inv_reset_tlv)

section \<open>The reassembler implements the reference\<close>

lemma push_scan:
  assumes "reasm_inv r" and "tlv_push r b = Some (d, r')"
  shows "scan (pending r @ b # xs) =
           (if d then frame_of r' # scan (pending (tlv_reset r') @ xs) else scan (pending r' @ xs))"
proof (cases "r_len r = 0")
  case True
  from hunt_step [OF assms(1) True, of b] assms(2)
  have "\<not> d" and p: "pending r' = (if b = tlv_magic ! r_match r then pending r @ [b]
                         else if b = 2 then [b] else [])" by auto
  moreover have "r_match r < 8" and "pending r = take (r_match r) tlv_magic"
    using True assms(1) by (auto simp: reasm_inv_def pending_def)
  ultimately show ?thesis using scan_mismatch by simp
next
  case False
  have out: "collect_outcome r b d r'"
    using collect_step [OF assms(1) False, of b] assms(2) by auto
  show ?thesis
  proof (cases d)
    case True
    then have "frame_ready r'" and fr: "frame_of r' = pending r @ [b]"
      using out by (auto simp: collect_outcome_def Let_def)
    then show ?thesis
      using scan_frame [OF ready_frame, of r' xs] True by simp
  next
    case nd: False
    let ?p = "pending r @ [b]"
    have "pending r' = ?p \<or> length ?p = 40 \<and>
        (unat (le32_at ?p 12) < 40 \<or> unat (le32_at ?p 12) > 2048) \<and> pending r' = []"
      using out nd by (auto simp: collect_outcome_def Let_def)
    moreover have "take 8 ?p = tlv_magic"
      using assms(1) False by (auto simp: reasm_inv_def collecting_def pending_def frame_of_def min_def
          split: if_splits)
    ultimately show ?thesis
      using scan_bogus [of ?p xs] nd by auto
  qed
qed

lemma feed_scan:
  "reasm_inv r \<Longrightarrow> tlv_feed r bs = Some (s, fs) \<Longrightarrow>
   reasm_inv s \<and> map frame_of fs = scan (pending r @ bs)"
proof (induction bs arbitrary: r fs)
  case Nil
  then show ?case by (simp add: tlv_feed_def scan_pending)
next
  case (Cons b bs)
  obtain d t where push: "tlv_push r b = Some (d, t)" and t: "if d then frame_ready t else reasm_inv t"
    using push_defined_tlv [OF Cons.prems(1)] by blast
  show ?case
  proof (cases d)
    case False
    then show ?thesis
      using Cons push t push_scan [OF Cons.prems(1) push, of bs] by (simp add: tlv_feed_def)
  next
    case True
    then have inv: "reasm_inv (tlv_reset t)" using t by (simp add: tlv.reset_inv)
    obtain fs' where "tlv_feed (tlv_reset t) bs = Some (s, fs')" and "fs = t # fs'"
      using Cons.prems(2) push True by (auto simp: tlv_feed_def tlv.collect_acc [of "tlv_reset t" "[t]"])
    then show ?thesis
      using Cons.IH [OF inv] True push_scan [OF Cons.prems(1) push, of bs] by simp
  qed
qed


lemma feed_append:
  assumes "tlv_feed r xs = Some (s, fs)" and "tlv_feed s ys = Some (t, gs)"
  shows "tlv_feed r (xs @ ys) = Some (t, fs @ gs)"
  using assms by (simp add: tlv_feed_def drive_append tlv.collect_acc [of s fs])

text \<open>Cutting a stream at any point: the frames before it and those of what is pending.\<close>

lemma scan_split:
  assumes "reasm_inv r" and "tlv_feed r xs = Some (s, fs)" and "reasm_inv s"
  shows "scan (pending r @ xs @ ys) = map frame_of fs @ scan (pending s @ ys)"
proof -
  obtain t gs where g: "tlv_feed s ys = Some (t, gs)"
    using tlv.collect_defined [OF assms(3), of ys] by (auto simp: tlv_feed_def)
  show ?thesis
    using feed_scan [OF assms(3) g] feed_scan [OF assms(1) feed_append [OF assms(2) g]] by simp
qed

lemma feed_defined:
  "reasm_inv r \<Longrightarrow> \<exists>s fs. tlv_feed r bs = Some (s, fs) \<and> reasm_inv s \<and> (\<forall>f \<in> set fs. frame_ready f)"
  unfolding tlv_feed_def by (rule tlv.collect_defined)

text \<open>A reassembler with an all-zero buffer, as the static variable of the thread starts.\<close>

definition reasm0 :: tlv_reasm where
  "reasm0 = \<lparr>r_buf = replicate 2048 0, r_len = 0, r_want = 0, r_match = 0\<rparr>"

lemma inv_reasm0: "reasm_inv reasm0"
  by (simp add: reasm_inv_def reasm0_def)

text \<open>
  C13: Memory safety of \<open>tlv_push\<close>: from a state that satisfies the invariant, every byte is
  processed without an access outside \<open>buf\<close> or \<open>tlv_magic\<close>; it leads to a state that
  satisfies the invariant again, or completes a frame of 40 to 2048 bytes that starts with the
  magic word and whose header announces exactly the number of bytes collected.
\<close>

theorem tlv_push_safe:
  assumes "reasm_inv r"
  shows "\<exists>d r'. tlv_push r b = Some (d, r') \<and> (if d then frame_ready r' else reasm_inv r') \<and>
           r_len r' \<le> 2048 \<and> r_want r' \<le> 2048 \<and> r_match r' < 8"
proof -
  obtain d r' where push: "tlv_push r b = Some (d, r')" and r': "if d then frame_ready r' else reasm_inv r'"
    using push_defined_tlv [OF assms] by blast
  have "r_len r' \<le> 2048 \<and> r_want r' \<le> 2048 \<and> r_match r' < 8"
    using r' by (auto simp: frame_ready_def reasm_inv_def collecting_def split: if_splits)
  with push r' show ?thesis by blast
qed

theorem tlv_push_safe_witness:
  "\<exists>d r'. tlv_push reasm0 2 = Some (d, r') \<and> (if d then frame_ready r' else reasm_inv r') \<and>
     r_len r' \<le> 2048 \<and> r_want r' \<le> 2048 \<and> r_match r' < 8"
  using tlv_push_safe [of reasm0 2] inv_reasm0 by blast

lemma reassembler_scan:
  assumes "length (r_buf r) = 2048"
  shows "\<exists>s fs. tlv_feed (tlv_reset r) bs = Some (s, fs) \<and> map frame_of fs = scan bs \<and>
           (\<forall>f \<in> set fs. frame_ready f)"
proof -
  have inv: "reasm_inv (tlv_reset r)" using assms by (rule inv_reset)
  then obtain s fs where "tlv_feed (tlv_reset r) bs = Some (s, fs)" "\<forall>f \<in> set fs. frame_ready f"
    using feed_defined by blast
  with feed_scan [OF inv] show ?thesis by auto
qed

text \<open>
  C6: The streaming reassembler computes the reference: after a reset, whatever the buffer
  still holds, feeding any byte string is defined and delivers exactly the frames that the
  whole-string cutter \<open>scan\<close> finds (next magic word, its announced length, resync behind a
  header whose length is bogus), in order.
\<close>

theorem reassembler_is_scan:
  assumes "length (r_buf r) = 2048"
  shows "\<exists>s fs. tlv_feed (tlv_reset r) bs = Some (s, fs) \<and> map frame_of fs = scan bs \<and>
           (\<forall>f \<in> set fs. frame_ready f)"
  using assms by (rule reassembler_scan)

theorem reassembler_is_scan_witness:
  "\<exists>s fs. tlv_feed (tlv_reset reasm0) [2, 1, 4] = Some (s, fs) \<and> map frame_of fs = scan [2, 1, 4] \<and>
     (\<forall>f \<in> set fs. frame_ready f)"
  by (rule reassembler_is_scan) (simp add: reasm0_def)

section \<open>Streams\<close>

lemma magic_distinct: "distinct tlv_magic"
  by (simp add: tlv_magic_def)

lemma magic_not_2: "0 < i \<Longrightarrow> i < 8 \<Longrightarrow> tlv_magic ! i \<noteq> 2"
  using nth_eq_iff_index_eq [OF magic_distinct, of i 0] by (simp add: tlv_magic_def)

lemma find_magic_noise:
  assumes "\<not> sublist tlv_magic noise" and f: "take 8 f = tlv_magic"
  shows "find_magic (noise @ f) = Some f"
  using assms(1)
proof (induction noise)
  case Nil
  then show ?case using f by (simp add: find_magic_prefix prefix_take8)
next
  case (Cons x xs)
  have "\<not> prefix tlv_magic ((x # xs) @ f)"
  proof
    assume "prefix tlv_magic ((x # xs) @ f)"
    then consider "prefix tlv_magic (x # xs)" | us where "tlv_magic = (x # xs) @ us" "prefix us f"
      unfolding prefix_append by blast
    then show False
    proof cases
      case 1
      then show False using Cons.prems by auto
    next
      case (2 us)
      then have us: "us \<noteq> []" using Cons.prems by auto
      have "length (x # xs) + length us = 8"
        using arg_cong [OF 2(1), of length] by simp
      with us have lt: "length (x # xs) < 8" by (cases us) auto
      have "f ! 0 = us ! 0" using 2(2) us by (cases us) (auto simp: prefix_def)
      moreover have "f ! 0 = tlv_magic ! 0" using f by (metis nth_take zero_less_numeral)
      moreover have "tlv_magic ! length (x # xs) = us ! 0"
        by (subst 2(1)) (simp add: nth_append)
      ultimately have "tlv_magic ! length (x # xs) = 2" by (simp add: tlv_magic_def)
      with magic_not_2 lt show False by blast
    qed
  qed
  moreover have "\<not> sublist tlv_magic xs" using Cons.prems by (auto simp: sublist_Cons_right)
  ultimately show ?case using Cons.IH by simp
qed

text \<open>A stream of segments: noise without a magic word, then a frame the radar built.\<close>

definition segment_ok :: "bytes \<times> tlv_header \<times> (u32 \<times> bytes) list \<Rightarrow> bool" where
  "segment_ok = (\<lambda>(noise, h, ts). \<not> sublist tlv_magic noise \<and> length (build_frame h ts) \<le> 2048)"

definition segment_bytes :: "bytes \<times> tlv_header \<times> (u32 \<times> bytes) list \<Rightarrow> bytes" where
  "segment_bytes = (\<lambda>(noise, h, ts). noise @ build_frame h ts)"

lemma take8_build_frame: "take 8 (build_frame h ts) = tlv_magic"
  by (simp add: build_frame_def)

lemma scan_segment:
  assumes "segment_ok (noise, h, ts)"
  shows "scan (segment_bytes (noise, h, ts) @ xs) = build_frame h ts # scan xs"
proof -
  let ?f = "build_frame h ts"
  have n: "\<not> sublist tlv_magic noise" and l: "length ?f \<le> 2048"
    using assms by (auto simp: segment_ok_def)
  then have "find_magic (noise @ ?f @ xs) = Some (?f @ xs)"
    by (intro find_magic_noise) (simp_all add: take8_build_frame)
  moreover have "find_magic (?f @ xs) = Some (?f @ xs)"
    by (intro find_magic_prefix prefix_take8) (simp add: take8_build_frame)
  ultimately have "scan (noise @ ?f @ xs) = scan (?f @ xs)"
    by (subst (1 2) scan.simps) simp
  also have "\<dots> = ?f # scan xs"
  proof (rule scan_frame)
    have "unat (of_nat (40 + length (enc_tlvs ts)) :: u32) = 40 + length (enc_tlvs ts)"
      using l by (intro unat_of_nat_small) simp
    then show "length ?f = unat (le32_at ?f 12)"
      using build_frame_total [of h ts "[]"] by simp
  qed (use l take8_build_frame in simp_all)
  finally show ?thesis by (simp add: segment_bytes_def)
qed

lemma scan_segments:
  "\<forall>g \<in> set segs. segment_ok g \<Longrightarrow>
   scan (concat (map segment_bytes segs)) = map (\<lambda>(noise, h, ts). build_frame h ts) segs"
proof (induction segs)
  case Nil
  then show ?case by (subst scan.simps) simp
next
  case (Cons g segs)
  then show ?case by (cases g) (simp add: scan_segment)
qed

text \<open>
  C3: Every frame the radar sends is delivered: in a stream of frames of at most 2048 bytes with
  arbitrary noise before each (any bytes that do not contain the magic word, partial magics
  included), the reassembler delivers exactly those frames, in order, and nothing else.
\<close>

theorem stream_delivered:
  assumes "\<forall>g \<in> set segs. segment_ok g"
  shows "\<exists>s fs. tlv_feed reasm0 (concat (map segment_bytes segs)) = Some (s, fs) \<and>
           map frame_of fs = map (\<lambda>(noise, h, ts). build_frame h ts) segs"
proof -
  have "tlv_reset reasm0 = reasm0" by (simp add: tlv_reset_def reasm0_def)
  then show ?thesis
    using reassembler_scan [of reasm0 "concat (map segment_bytes segs)"] scan_segments [OF assms]
    by (auto simp: reasm0_def)
qed

abbreviation (input) sample_header :: tlv_header where
  "sample_header \<equiv> \<lparr>h_version = 0x05050300, h_total_len = 0, h_platform = 0x000a6432,
     h_frame_no = 7, h_cpu_cycles = 0, h_num_detected = 1, h_num_tlvs = 0, h_sub_frame = 0xFFFFFFFF\<rparr>"

theorem stream_delivered_witness:
  "\<exists>s fs. tlv_feed reasm0 ([2, 1, 9] @ sample_frame) = Some (s, fs) \<and>
     map frame_of fs = [sample_frame]"
proof -
  let ?ts = "[(306, replicate 24 0), (315, [4, 0x21])] :: (u32 \<times> bytes) list"
  have "\<not> sublist tlv_magic [2, 1, 9]"
    using sublist_length_le [of tlv_magic "[2, 1, 9]"] by auto
  moreover have "length (build_frame sample_header ?ts) \<le> 2048" by simp
  ultimately show ?thesis
    using stream_delivered [of "[([2, 1, 9], sample_header, ?ts)]"]
    by (simp add: segment_ok_def segment_bytes_def sample_frame_def)
qed

text \<open>
  Resynchronisation: a header whose length field is bogus (below 40 or above 2048) is
  dropped whole, its 40 bytes and nothing more, and the frames delivered are those of the
  stream behind it.
\<close>

theorem bogus_length_resync:
  assumes "take 8 hdr = tlv_magic" and "length hdr = 40"
    and "unat (le32_at hdr 12) < 40 \<or> unat (le32_at hdr 12) > 2048"
  shows "\<exists>s fs s' fs'. tlv_feed reasm0 (hdr @ xs) = Some (s, fs) \<and>
           tlv_feed reasm0 xs = Some (s', fs') \<and> map frame_of fs = map frame_of fs'"
proof -
  have r: "tlv_reset reasm0 = reasm0" "length (r_buf reasm0) = 2048"
    by (simp_all add: tlv_reset_def reasm0_def)
  show ?thesis
    using reassembler_scan [OF r(2), of "hdr @ xs"] reassembler_scan [OF r(2), of xs]
      scan_bogus [OF assms, of xs] unfolding r(1) by metis
qed

theorem bogus_length_resync_witness:
  "\<exists>s fs s' fs'. tlv_feed reasm0 ((tlv_magic @ replicate 32 0) @ sample_frame) = Some (s, fs) \<and>
     tlv_feed reasm0 sample_frame = Some (s', fs') \<and> map frame_of fs = map frame_of fs'"
  by (rule bogus_length_resync) (simp_all add: le32_at_def nth_append of_le32_def)

text \<open>
  Looking up a TLV in the buffer of a completed frame is defined, and depends on the frame's
  own bytes only: the answer is the first payload of the type in the frame, never bytes left
  over from an earlier, longer frame.
\<close>

theorem completed_frame_find:
  assumes "frame_ready r"
  shows "\<exists>res. tlv_find (r_buf r) type = Some res \<and>
           found (r_buf r) (r_len r) res (first_tlv type (tlvs (drop 40 (frame_of r))))"
  unfolding frame_of_def
  by (rule tlv_find_defined) (use assms in \<open>simp_all add: frame_ready_def\<close>)

theorem completed_frame_find_witness:
  "\<exists>res. tlv_find (sample_frame @ replicate 1966 0xFF) 315 = Some res \<and>
     found (sample_frame @ replicate 1966 0xFF) 82 res (Some [4, 0x21])"
proof -
  let ?r = "\<lparr>r_buf = sample_frame @ replicate 1966 0xFF, r_len = 82, r_want = 0, r_match = 0\<rparr>"
  have "take 8 sample_frame = tlv_magic" by (simp add: sample_frame_def take8_build_frame)
  then have "frame_ready ?r"
    by (simp add: frame_ready_def sample_frame_facts le32_at_append)
  from completed_frame_find [OF this, of 315] show ?thesis
    by (simp add: frame_of_def sample_frame_facts)
qed

end
