(* ===== verification/Resync.thy ===== *)
theory Resync
  imports Reasm
begin

text \<open>
  The reassembler recovers by itself: from any state it can be in, after whatever was lost or
  damaged on the line, it delivers at most one torn frame and then exactly the frames sent,
  all but those that begin within the next 2040 bytes. The frames sent must hold the magic word
  only at their heads; a frame that contains it again can be taken up in the middle.
\<close>

section \<open>Cutting a stream in the middle of a frame\<close>

text \<open>A frame that fits the buffer and holds the magic word nowhere but at its head.\<close>

definition clean :: "tlv_header \<times> (u32 \<times> bytes) list \<Rightarrow> bool" where
  "clean = (\<lambda>(h, ts). length (build_frame h ts) \<le> 2048 \<and> \<not> sublist tlv_magic (drop 1 (build_frame h ts)))"

definition sent :: "(tlv_header \<times> (u32 \<times> bytes) list) list \<Rightarrow> bytes list" where
  "sent fr = map (\<lambda>x. build_frame (fst x) (snd x)) fr"

lemma sent_simps [simp]:
  "sent [] = []" "sent ((h, ts) # fr) = build_frame h ts # sent fr" "length (sent fr) = length fr"
  by (simp_all add: sent_def)

lemma not_in_nil [simp]: "\<not> sublist tlv_magic []"
  by (simp add: tlv_magic_def)

lemma scan_noise: "\<not> sublist tlv_magic xs \<Longrightarrow> scan xs = []"
proof -
  have "\<not> sublist tlv_magic xs \<Longrightarrow> find_magic xs = None"
    by (induction xs) (auto simp: sublist_Cons_right)
  then show "\<not> sublist tlv_magic xs \<Longrightarrow> scan xs = []" by (subst scan.simps) simp
qed

lemma scan_Nil [simp]: "scan [] = []"
  by (rule scan_noise [OF not_in_nil])

lemma scan_short: "length xs < 40 \<Longrightarrow> scan xs = []"
proof (cases "find_magic xs")
  case (Some ys)
  assume "length xs < 40"
  then have "length ys < 40" using find_magic_length [OF Some] by simp
  then show ?thesis by (subst scan.simps) (simp add: Some)
qed (subst scan.simps, simp)

lemma scan_clean:
  assumes "\<forall>x \<in> set fr. clean x" and "\<not> sublist tlv_magic noise"
  shows "scan (noise @ concat (sent fr)) = sent fr"
proof -
  have all: "scan (concat (sent fr)) = sent fr" if "\<forall>x \<in> set fr. clean x" for fr
  proof -
    have "\<forall>g \<in> set (map (\<lambda>(h, ts). ([], h, ts)) fr). segment_ok g"
      using that by (auto simp: clean_def segment_ok_def tlv_magic_def)
    from scan_segments [OF this] show ?thesis
      by (simp add: sent_def segment_bytes_def comp_def case_prod_beta)
  qed
  show ?thesis
  proof (cases fr)
    case Nil
    then show ?thesis using assms(2) by (simp add: scan_noise)
  next
    case (Cons x fs)
    obtain h ts where x: "x = (h, ts)" by (cases x)
    have "segment_ok (noise, h, ts)" using assms Cons x by (simp add: segment_ok_def clean_def)
    from scan_segment [OF this, of "concat (sent fs)"] all [of fs] assms(1) show ?thesis
      by (simp add: Cons x segment_bytes_def)
  qed
qed

lemma scan_suffix:
  assumes "\<forall>x \<in> set fr. clean x" and "c \<le> length (concat (sent fr))"
  shows "\<exists>n \<le> length fr. scan (drop c (concat (sent fr))) = drop n (sent fr) \<and>
           (n = 0 \<or> length (concat (take (n - 1) (sent fr))) < c)"
  using assms
proof (induction fr arbitrary: c)
  case Nil
  then show ?case by (simp add: scan_noise tlv_magic_def)
next
  case (Cons x fr)
  obtain h ts where x: "x = (h, ts)" by (cases x)
  let ?f = "build_frame h ts"
  consider "c = 0" | "0 < c" "c \<le> length ?f" | "length ?f < c" by linarith
  then show ?case
  proof cases
    case 1
    then show ?thesis
      using scan_clean [OF Cons.prems(1), of "[]"] by (intro exI [of _ 0]) (simp add: tlv_magic_def)
  next
    case 2
    have "drop c ?f = drop (c - 1) (drop 1 ?f)" using 2 by simp
    then have "sublist (drop c ?f) (drop 1 ?f)" by (metis sublist_drop)
    then have "\<not> sublist tlv_magic (drop c ?f)"
      using Cons.prems(1) x by (auto simp: clean_def dest: sublist_order.order.trans)
    from scan_clean [OF _ this, of fr] Cons.prems(1) 2 show ?thesis
      by (intro exI [of _ 1]) (simp add: x)
  next
    case 3
    have "c - length ?f \<le> length (concat (sent fr))" using Cons.prems(2) x 3 by simp
    with Cons.IH Cons.prems(1) obtain n where n: "n \<le> length fr" "scan (drop (c - length ?f) (concat (sent fr))) = drop n (sent fr)"
      "n = 0 \<or> length (concat (take (n - 1) (sent fr))) < c - length ?f"
      by (metis list.set_intros(2))
    then show ?thesis using 3
      by (intro exI [of _ "Suc n"]) (cases n, auto simp: x)
  qed
qed

section \<open>Recovery\<close>

lemma scan_recovers:
  assumes inv: "reasm_inv r" and cl: "\<forall>x \<in> set fr. clean x"
  shows "\<exists>junk n. scan (pending r @ concat (sent fr)) = junk @ drop n (sent fr) \<and> length junk \<le> 1 \<and> n \<le> length fr \<and>
           (n = 0 \<or> length (concat (take (n - 1) (sent fr))) < 2040)"
proof (cases "r_len r = 0")
  case True
  then have p: "pending r = take (r_match r) tlv_magic" and k: "r_match r < 8"
    using inv by (simp_all add: pending_def reasm_inv_def)
  have "scan (pending r @ concat (sent fr)) = scan (concat (sent fr))"
  proof (cases "r_match r = 0 \<or> fr = []")
    case True
    then show ?thesis using scan_pending [OF inv] p by (auto simp: scan_noise not_in_nil)
  next
    case False
    then obtain h ts fs where fr: "fr = (h, ts) # fs" by (metis list.exhaust prod.exhaust)
    obtain xs where f: "concat (sent fr) = 2 # xs"
      by (simp add: fr build_frame_def tlv_magic_def)
    have "2 \<noteq> tlv_magic ! r_match r" using False k magic_not_2 [of "r_match r"] by auto
    from scan_mismatch [OF k this, of xs] show ?thesis by (simp add: p f)
  qed
  then show ?thesis using scan_clean [OF cl, of "[]"] by (intro exI [of _ "[]"] exI [of _ 0]) (simp add: tlv_magic_def)
next
  case False
  let ?p = "pending r" and ?x = "concat (sent fr)"
  let ?q = "?p @ ?x"
  let ?w = "unat (le32_at ?q 12)"
  have col: "collecting r" and len: "length (r_buf r) = 2048" using inv False by (simp_all add: reasm_inv_def)
  then have p: "take 8 ?p = tlv_magic" "8 \<le> length ?p"
    "length ?p < 40 \<or> (length ?p < ?w \<and> 40 \<le> ?w \<and> ?w \<le> 2048)"
    using False by (auto simp: collecting_def pending_def frame_of_def le32_at_append le32_at_take min_def split: if_splits)
  have q: "take 8 ?q = tlv_magic" using p(1,2) by simp
  then have found: "find_magic ?q = Some ?q" by (intro find_magic_prefix prefix_take8)
  have part: "\<exists>n \<le> length fr. scan (drop k ?q) = drop n (sent fr) \<and>
      (n = 0 \<or> length (concat (take (n - 1) (sent fr))) < 2040)"
    if "length ?p \<le> k" "k \<le> length ?q" "k \<le> 2048" for k
    using scan_suffix [OF cl, of "k - length ?p"] that p(2) by force
  have none: ?thesis if "scan ?q = []" and "length ?x < 2040"
  proof -
    have "length (concat (take (length fr - 1) (sent fr))) \<le> length ?x"
      by (metis append_take_drop_id concat_append le_add1 length_append)
    then show ?thesis using that by (intro exI [of _ "[]"] exI [of _ "length fr"]) simp
  qed
  show ?thesis
  proof (cases "length ?q < 40")
    case True
    with none p(2) show ?thesis by (simp add: scan_short)
  next
    case long: False
    show ?thesis
    proof (cases "?w < 40 \<or> 2048 < ?w")
      case True
      have "take 8 (take 40 ?q) = tlv_magic" unfolding take_take using q by (simp del: take_append)
      then have "scan (take 40 ?q @ drop 40 ?q) = scan (drop 40 ?q)"
        using True long by (intro scan_bogus) (simp_all add: le32_at_take del: take_append length_append)
      moreover have "length ?p < 40" using p(3) True by auto
      ultimately show ?thesis
        using part [of 40] long by (intro exI [of _ "[]"]) (auto simp del: length_append)
    next
      case w: False
      have lt: "length ?p < ?w" using p(3) w by linarith
      show ?thesis
      proof (cases "length ?q < ?w")
        case True
        then have "scan ?q = []" using w long by (subst scan.simps) (simp add: found Let_def del: length_append)
        with True w none p(2) show ?thesis by simp
      next
        case False
        then have "scan ?q = [take ?w ?q] @ scan (drop ?w ?q)"
          using w long by (subst scan.simps) (simp add: found Let_def del: length_append)
        moreover obtain n where "n \<le> length fr" "scan (drop ?w ?q) = drop n (sent fr)"
          "n = 0 \<or> length (concat (take (n - 1) (sent fr))) < 2040"
          using part [of ?w] lt False w by auto
        ultimately show ?thesis by (intro exI [of _ "[take ?w ?q]"] exI [of _ n]) simp
      qed
    qed
  qed
qed

text \<open>
  C5: the reassembler recovers by itself, as long as the frames sent are clean: at most 2048
  bytes each, with the magic word at the head and nowhere else. Then from any state that
  satisfies the invariant, whatever bytes were lost or damaged before, a stream of such frames
  is delivered in order after at most one torn frame, and from then on without a gap. Lost
  are at worst the frames that begin within the first 2040 bytes of the stream (at an offset
  below 2040), the rest of a buffer that the torn frame had left to fill.
\<close>

theorem stream_recovers:
  assumes "reasm_inv r" and "\<forall>x \<in> set fr. clean x"
  shows "\<exists>s fs junk n. tlv_feed r (concat (sent fr)) = Some (s, fs) \<and> map frame_of fs = junk @ drop n (sent fr) \<and>
    length junk \<le> 1 \<and> n \<le> length fr \<and> (n = 0 \<or> length (concat (take (n - 1) (sent fr))) < 2040)"
proof -
  obtain s fs where f: "tlv_feed r (concat (sent fr)) = Some (s, fs)"
    using feed_defined [OF assms(1)] by blast
  then have "map frame_of fs = scan (pending r @ concat (sent fr))" using feed_scan [OF assms(1)] by blast
  with f scan_recovers [OF assms] show ?thesis by auto
qed

text \<open>The line was cut after thirty bytes of a frame; then come two whole ones.\<close>

theorem stream_recovers_witness:
  "\<exists>r s fs junk n. tlv_feed reasm0 (take 30 (build_frame sample_header [])) = Some (r, []) \<and>
     tlv_feed r (concat (sent [(sample_header, []), (sample_header, [])])) = Some (s, fs) \<and>
     map frame_of fs = junk @ drop n (sent [(sample_header, []), (sample_header, [])]) \<and> length junk \<le> 1"
proof -
  let ?b = "take 30 (build_frame sample_header [])"
  obtain r fs where r: "tlv_feed reasm0 ?b = Some (r, fs)" "reasm_inv r" using feed_defined [OF inv_reasm0] by blast
  have "scan ?b = []" by (rule scan_short) simp
  then have "fs = []" using feed_scan [OF inv_reasm0 r(1)] by (simp add: pending_def reasm0_def)
  moreover have "\<not> sublist tlv_magic (drop 1 (build_frame sample_header []))" by code_simp
  then have "\<forall>x \<in> set [(sample_header, []), (sample_header, [])]. clean x" by (simp add: clean_def)
  ultimately show ?thesis using stream_recovers [OF r(2)] r(1) by blast
qed

end
