(* ===== verification/Host_Tests.thy ===== *)
theory Host_Tests
  imports Resync Frame
begin

text \<open>
  The repository's host tests, tests/test_frame.c and tests/test_tlv.c, run on the model: each
  test is a predicate with the assertions of its function, each theorem says that it holds. The
  frames of test_tlv.c are built with any frame numbers, and the buffers behind the frames hold
  any bytes, so the theorems cover every run of the tests; floats are compared as patterns.
\<close>

section \<open>The frame encoder\<close>

definition check_crc_vector :: bool where
  "check_crc_vector \<longleftrightarrow> sntl_crc16 0xFFFF [0x31, 0x32, 0x33, 0x34, 0x35, 0x36, 0x37, 0x38, 0x39] = 0x29B1"

definition check_frame_sizes :: bool where
  "check_frame_sizes \<longleftrightarrow> sntl_frame_size 0 = 18 \<and> sntl_frame_size 2 = 66 \<and> sntl_frame_size 2880 = 69138"

definition check_header :: bool where
  "check_header \<longleftrightarrow>
     (let h = sntl_encode_header 2 [0x50, 0x52, 0x41, 0x33, 0x46, 0x39, 0x32, 0x43] in
      h ! 0 = 0x53 \<and> h ! 1 = 0x4E \<and> h ! 2 = 0x54 \<and> h ! 3 = 0x4C \<and> h ! 4 = 3 \<and> h ! 5 = 24 \<and>
      h ! 6 = 2 \<and> h ! 7 = 0 \<and> take 8 (drop 8 h) = [0x50, 0x52, 0x41, 0x33, 0x46, 0x39, 0x32, 0x43]) \<and>
     (let h = sntl_encode_header 0 [0x50, 0x52, 0x2D, 0x41, 0x33, 0x46, 0x39] in
      take 8 (drop 8 h) = [0x50, 0x52, 0x2D, 0x41, 0x33, 0x46, 0x39, 0])"

definition check_empty_frame :: bool where
  "check_empty_frame \<longleftrightarrow>
     (let h = sntl_encode_header 0 [0x50, 0x52, 0x41, 0x33, 0x46, 0x39, 0x32, 0x43];
          crc = sntl_crc16 0xFFFF h;
          f = h @ [ucast (crc AND 0xFF), ucast (drop_bit 8 crc)] in
      sntl_frame_size 0 = length f \<and> sntl_crc16 0xFFFF (take SNTL_HEADER_SIZE f) = crc)"

definition check_record_encoding :: bool where
  "check_record_encoding \<longleftrightarrow>
     (let r = \<lparr>rec_seq = 0x11223344, rec_ts = 0x55667788, rec_headcount = 3, rec_occ_s = 27, rec_dwell_s = 0x0403,
               rec_flags = SNTL_FLAG_RTC_UNSET OR SNTL_FLAG_NO_TRACKER, rec_batt = 100, rec_pm25 = 123,
               rec_pm10 = 456, rec_temp = 2350, rec_rh = 4512, rec_voc = 1005\<rparr>;
          b = sntl_encode_record r;
          b' = sntl_encode_record (r\<lparr>rec_temp := - 1250, rec_rh := SNTL_AQ_UNKNOWN_S\<rparr>) in
      take 4 b = [0x44, 0x33, 0x22, 0x11] \<and> take 4 (drop 4 b) = [0x88, 0x77, 0x66, 0x55] \<and>
      b ! 8 = 3 \<and> b ! 9 = 27 \<and> b ! 10 = 0x03 \<and> b ! 11 = 0x04 \<and> b ! 12 = 0x24 \<and> b ! 13 = 100 \<and>
      b ! 14 = 123 \<and> b ! 15 = 0 \<and> b ! 16 = 0xC8 \<and> b ! 17 = 0x01 \<and> b ! 18 = 0x2E \<and> b ! 19 = 0x09 \<and>
      b ! 20 = 0xA0 \<and> b ! 21 = 0x11 \<and> b ! 22 = 0xED \<and> b ! 23 = 0x03 \<and>
      b' ! 18 = 0x1E \<and> b' ! 19 = 0xFB \<and> b' ! 20 = 0xFF \<and> b' ! 21 = 0x7F)"

definition check_cmd_parsing :: bool where
  "check_cmd_parsing \<longleftrightarrow>
     sntl_parse_cmd [0x01, 0x2A, 0x00, 0x00, 0x00] = Some 42 \<and>
     sntl_parse_cmd [0x02, 0x00, 0x00, 0x00, 0x00] = None \<and> sntl_parse_cmd [0x01, 0x00] = None"

definition check_dump_range :: bool where
  "check_dump_range \<longleftrightarrow>
     sntl_dump_range 0 0 3 = (3, 0) \<and> sntl_dump_range 2 0 3 = (1, 2) \<and> fst (sntl_dump_range 3 0 3) = 0 \<and>
     sntl_dump_range 0 100 103 = (3, 100) \<and> fst (sntl_dump_range 0 0 0) = 0"

lemma crc_vector_test: "check_crc_vector"
  by (simp only: check_crc_vector_def crc16_check_vector)

lemma frame_sizes_test: "check_frame_sizes"
  by (simp add: check_frame_sizes_def sntl_frame_size_def)

lemma header_test: "check_header"
  by code_simp

lemma empty_frame_test: "check_empty_frame"
  by (simp add: check_empty_frame_def Let_def sntl_frame_size_def)

lemma record_test: "check_record_encoding"
  by code_simp

lemma cmd_test: "check_cmd_parsing"
  by code_simp

lemma dump_range_test: "check_dump_range"
  by code_simp

text \<open>All of test_frame.c passes.\<close>

theorem frame_tests_pass:
  "check_crc_vector \<and> check_frame_sizes \<and> check_header \<and> check_empty_frame \<and> check_record_encoding \<and>
   check_cmd_parsing \<and> check_dump_range"
  by (intro conjI crc_vector_test frame_sizes_test header_test empty_frame_test record_test cmd_test dump_range_test)

section \<open>The frames of test_tlv.c\<close>

abbreviation (input) TLV_STATS :: u32 where "TLV_STATS \<equiv> 306"
abbreviation (input) TLV_POINTS :: u32 where "TLV_POINTS \<equiv> 301"

text \<open>Two 3D targets, ids 9 and 10: x, y and z, then 24 zero floats.\<close>

definition two_targets :: "(tlv_target \<times> bytes) list" where
  "two_targets =
     [(\<lparr>t_tid = 9, t_x = 0x3FC00000, t_y = 0x40400000, t_z = 0x3F99999A\<rparr>, replicate 96 0),
      (\<lparr>t_tid = 10, t_x = 0xC0000000, t_y = 0x40A00000, t_z = 0x3F99999A\<rparr>, replicate 96 0)]"

definition test_header :: "u32 \<Rightarrow> tlv_header" where
  "test_header frame_no =
     \<lparr>h_version = 0x05050300, h_total_len = 0, h_platform = 0x000a6432, h_frame_no = frame_no,
      h_cpu_cycles = 0, h_num_detected = 1, h_num_tlvs = 0, h_sub_frame = 0xFFFFFFFF\<rparr>"

definition test_tlvs :: "bool \<Rightarrow> (u32 \<times> bytes) list" where
  "test_tlvs with_targets =
     (TLV_STATS, replicate 24 0) #
     (if with_targets then [(TLV_TARGET_LIST, enc_targets 112 two_targets)] else []) @
     [(TLV_ENHANCED_PRESENCE, [4, 0x21])]"

definition test_frame :: "u32 \<Rightarrow> bool \<Rightarrow> bytes" where
  "test_frame frame_no with_targets = build_frame (test_header frame_no) (test_tlvs with_targets)"

text \<open>\<open>feed\<close>: a frame past the \<open>max\<close>-th is neither copied nor reset.\<close>

fun feed :: "tlv_reasm \<Rightarrow> bytes \<Rightarrow> nat \<Rightarrow> bytes list \<Rightarrow> (tlv_reasm \<times> bytes list) option" where
  "feed r [] mx fs = Some (r, fs)"
| "feed r (b # bs) mx fs =
     (case tlv_push r b of None \<Rightarrow> None
      | Some (done, r) \<Rightarrow>
          if done \<and> length fs < mx then feed (tlv_reset r) bs mx (fs @ [frame_of r]) else feed r bs mx fs)"

definition check_decode :: "bytes \<Rightarrow> u32 \<Rightarrow> bool \<Rightarrow> bool" where
  "check_decode f frame_no with_targets \<longleftrightarrow>
     (case tlv_header_get f of None \<Rightarrow> False
      | Some h \<Rightarrow> h_version h = 0x05050300 \<and> h_platform h = 0x000a6432 \<and> h_frame_no h = frame_no \<and>
                  h_num_tlvs h = (if with_targets then 3 else 2)) \<and>
     (case tlv_find f TLV_ENHANCED_PRESENCE of
        Some (Some p, len) \<Rightarrow> len = 2 \<and> tlv_presence (Some (drop (unat p) f)) len 8 =
          Some (4, [TLV_ZONE_MINOR, TLV_ZONE_NONE, TLV_ZONE_MAJOR, TLV_ZONE_NONE])
      | _ \<Rightarrow> False) \<and>
     (if with_targets
      then (case tlv_find f TLV_TARGET_LIST of
              Some (Some p, len) \<Rightarrow> len = 2 * 112 \<and>
                tlv_targets (Some (drop (unat p) f)) len 8 = Some (map fst two_targets)
            | _ \<Rightarrow> False) \<and> tlv_find f TLV_POINTS = Some (None, 0)
      else tlv_find f TLV_TARGET_LIST = Some (None, 0))"

lemma length_test_frame: "length (test_frame n w) = (if w then 314 else 82)"
  by (simp add: test_frame_def test_tlvs_def enc_targets_def enc_target_def two_targets_def)

lemma find_test:
  "\<exists>res. tlv_find (test_frame n w @ stale) type = Some res \<and>
     found (test_frame n w @ stale) (length (test_frame n w)) res (first_tlv type (test_tlvs w))"
  unfolding test_frame_def
  by (rule find_built) (use length_test_frame [of n w] in \<open>simp add: test_frame_def del: length_build_frame split: if_splits\<close>)

lemma found_test:
  assumes "first_tlv type (test_tlvs w) = Some p" and "len = of_nat (length p)"
  obtains off where "tlv_find (test_frame n w @ stale) type = Some (Some off, len)"
    "take (length p) (drop (unat off) (test_frame n w @ stale)) = p"
  using find_test [of n w stale type] assms by (auto simp: found_def)

lemma not_found_test:
  "first_tlv type (test_tlvs w) = None \<Longrightarrow> tlv_find (test_frame n w @ stale) type = Some (None, 0)"
  using find_test [of n w stale type] by (auto simp: found_def)

lemma zones_test: "take 2 m = [4, 0x21] \<Longrightarrow> tlv_presence (Some m) 2 8 = Some (4, [1, 0, 2, 0])"
proof -
  assume "take 2 m = [4, 0x21]"
  then have "m = 4 # 0x21 # drop 2 m" by (metis append_Cons append_Nil append_take_drop_id)
  then obtain m' where "m = 4 # 0x21 # m'" by blast
  moreover have "cdiv 0 4 = 0" "cdiv 1 4 = 0" "cdiv 2 4 = 0" "cdiv 3 4 = 0" by code_simp+
  ultimately show ?thesis
    by (simp add: tlv_presence_def presence_loop.simps rd8_def)
qed

lemma targets_test:
  assumes "take 224 m = enc_targets 112 two_targets"
  shows "tlv_targets (Some m) 224 8 = Some (map fst two_targets)"
proof -
  have wf: "\<forall>e \<in> set two_targets. target_wf 112 e" by (simp add: two_targets_def target_wf_def enc_target_def)
  have m: "m = enc_targets 112 two_targets @ drop 224 m" by (metis assms append_take_drop_id)
  have len: "length m \<ge> 224" using arg_cong [OF m, of length] length_enc_targets [OF wf] by (simp add: two_targets_def)
  have "target_at m 112 (i * 112) = fst (two_targets ! i)" if "i < 2" for i
    using target_at_enc_targets [OF wf, of i "drop 224 m"] that m by (simp add: two_targets_def)
  from this [of 0] this [of 1] show ?thesis
    using tlv_targets_spec [of 224 m 8] len by (simp add: target_size_def upt_rec two_targets_def)
qed

lemma decode_test: "check_decode (test_frame n w @ stale) n w"
proof -
  let ?f = "test_frame n w @ stale"
  have h: "tlv_header_get ?f = Some ((test_header n)\<lparr>h_total_len := of_nat (length (test_frame n w)),
      h_num_tlvs := of_nat (length (test_tlvs w))\<rparr>)"
    by (simp add: test_frame_def header_built)
  have "first_tlv 315 (test_tlvs w) = Some [4, 0x21]" by (simp add: test_tlvs_def)
  then obtain p where p: "tlv_find ?f 315 = Some (Some p, 2)" "take 2 (drop (unat p) ?f) = [4, 0x21]"
    by (rule found_test [where n = n and stale = stale]) (simp_all add: numeral_2_eq_2)
  show ?thesis
  proof (cases w)
    case False
    moreover have "tlv_find ?f 308 = Some (None, 0)"
      using False by (intro not_found_test) (simp add: test_tlvs_def)
    ultimately show ?thesis
      using False h p(1) zones_test [OF p(2)] by (simp add: check_decode_def test_header_def test_tlvs_def)
  next
    case True
    have len: "length (enc_targets 112 two_targets) = 224"
      by (simp add: enc_targets_def enc_target_def two_targets_def)
    have "first_tlv 308 (test_tlvs w) = Some (enc_targets 112 two_targets)" using True by (simp add: test_tlvs_def)
    then obtain q where q: "tlv_find ?f 308 = Some (Some q, 224)" "take 224 (drop (unat q) ?f) = enc_targets 112 two_targets"
      by (rule found_test [where n = n and stale = stale and len = 224]) (simp_all add: len)
    have "tlv_find ?f 301 = Some (None, 0)" by (intro not_found_test) (simp add: test_tlvs_def)
    then show ?thesis
      using True h p(1) q(1) zones_test [OF p(2)] targets_test [OF q(2)]
      by (simp add: check_decode_def test_header_def test_tlvs_def)
  qed
qed

section \<open>The streams of test_tlv.c\<close>

text \<open>As long as at most \<open>max\<close> frames complete, \<open>feed\<close> collects what the driver of the thread handles.\<close>

lemma feed_collects:
  "drive tlv_push tlv_reset (\<lambda>f fs. Some (fs @ [f])) (r, acc) bs = Some (s, gs) \<Longrightarrow> length gs \<le> mx \<Longrightarrow>
   feed r bs mx (map frame_of acc) = Some (s, map frame_of gs) \<and> length acc \<le> length gs"
proof (induction bs arbitrary: r acc)
  case (Cons b bs)
  obtain d r' where push: "tlv_push r b = Some (d, r')" using Cons.prems(1) by (auto split: option.splits)
  show ?case
  proof (cases d)
    case True
    then have "drive tlv_push tlv_reset (\<lambda>f fs. Some (fs @ [f])) (tlv_reset r', acc @ [r']) bs = Some (s, gs)"
      using Cons.prems(1) push by simp
    from Cons.IH [OF this Cons.prems(2)] show ?thesis using True push Cons.prems(2) by simp
  next
    case False
    then show ?thesis using Cons.prems push Cons.IH [of r' acc] by simp
  qed
qed simp

lemma feed_scan_frames:
  assumes "length (r_buf r) = 2048" and "length (scan bs) \<le> mx"
  shows "\<exists>s. feed (tlv_reset r) bs mx [] = Some (s, scan bs)"
proof -
  obtain s fs where f: "tlv_feed (tlv_reset r) bs = Some (s, fs)" "map frame_of fs = scan bs"
    using reassembler_scan [OF assms(1), of bs] by blast
  moreover have "length fs \<le> mx" using arg_cong [OF f(2), of length] assms(2) by simp
  ultimately show ?thesis
    using feed_collects [of "tlv_reset r" "[]" bs s fs mx] by (simp add: tlv_feed_def)
qed

text \<open>
  A stream test feeds its bytes to the reassembler, whose buffer may hold anything, and expects
  the listed frames and no other; \<open>stale\<close> is what the arrays \<open>got\<close> hold behind them.
\<close>

definition stream_test :: "tlv_reasm \<Rightarrow> bytes \<Rightarrow> bytes \<Rightarrow> (u32 \<times> bool) list \<Rightarrow> bool" where
  "stream_test re buf stale expected \<longleftrightarrow>
     (case feed (tlv_reset re) buf 4 [] of None \<Rightarrow> False
      | Some (_, got) \<Rightarrow> length got = length expected \<and>
          list_all2 (\<lambda>f (no, with_targets). check_decode (f @ stale) no with_targets) got expected)"

definition check_stream :: "tlv_reasm \<Rightarrow> bytes \<Rightarrow> u32 \<Rightarrow> u32 \<Rightarrow> bool" where
  "check_stream re stale n1 n2 \<longleftrightarrow>
     stream_test re (test_frame n1 True @ test_frame n2 False @ take 3 tlv_magic) stale [(n1, True), (n2, False)]"

definition check_leading_garbage :: "tlv_reasm \<Rightarrow> bytes \<Rightarrow> u32 \<Rightarrow> bool" where
  "check_leading_garbage re stale n1 \<longleftrightarrow>
     stream_test re ([0xAA, 0x02, 0x01, 0x04, 0x00, 0x02, 0x02, 0x01] @ test_frame n1 True) stale [(n1, True)]"

definition check_bogus_length :: "tlv_reasm \<Rightarrow> bytes \<Rightarrow> u32 \<Rightarrow> u32 \<Rightarrow> bool" where
  "check_bogus_length re stale n1 n2 \<longleftrightarrow>
     stream_test re ((test_frame n1 False)[12 := 0x9F, 13 := 0x86, 14 := 0x01] @ test_frame n2 True) stale [(n2, True)]"

definition check_truncated_tlv :: "bytes \<Rightarrow> u32 \<Rightarrow> bool" where
  "check_truncated_tlv stale n1 \<longleftrightarrow>
     tlv_find ((test_frame n1 True)[TLV_HDR_LEN + 4 := 0xFF, TLV_HDR_LEN + 5 := 0xFF] @ stale) TLV_ENHANCED_PRESENCE =
       Some (None, 0)"

definition check_2d_targets :: "bytes \<Rightarrow> bool" where
  "check_2d_targets stale \<longleftrightarrow>
     (let p = le32 4 @ le32 0xBFA00000 @ le32 0x40200000 @ replicate 64 0 in
      length p = 76 \<and>
      tlv_targets (Some (p @ stale)) 76 4 = Some [\<lparr>t_tid = 4, t_x = 0xBFA00000, t_y = 0x40200000, t_z = 0\<rparr>] \<and>
      tlv_targets (Some (p @ stale)) 33 4 = Some [] \<and> tlv_targets None 0 4 = Some [])"

lemma stream_test_scan:
  assumes "length (r_buf re) = 2048" and "scan buf = map (\<lambda>(n, w). test_frame n w) expected" and "length expected \<le> 4"
  shows "stream_test re buf stale expected"
proof -
  obtain s where "feed (tlv_reset re) buf 4 [] = Some (s, scan buf)"
    using feed_scan_frames [OF assms(1), of buf 4] assms(2,3) by auto
  then show ?thesis
    by (auto simp: stream_test_def assms(2) list_all2_map1 decode_test intro!: list_all2_refl)
qed

lemma test_segment:
  "\<not> sublist tlv_magic noise \<Longrightarrow> scan (noise @ test_frame n w @ xs) = test_frame n w # scan xs"
  using scan_segment [of noise "test_header n" "test_tlvs w" xs] length_test_frame [of n w]
  by (simp add: segment_ok_def segment_bytes_def test_frame_def del: length_build_frame split: if_splits)

lemma scan_end [simp]: "length xs < 8 \<Longrightarrow> scan xs = []"
  by (subst scan.simps) (simp add: find_magic_short)

lemma stream_passes: "length (r_buf re) = 2048 \<Longrightarrow> check_stream re stale n1 n2"
  unfolding check_stream_def
  using test_segment [OF not_in_nil] by (intro stream_test_scan) (simp_all add: tlv_magic_def)

lemma leading_garbage_passes: "length (r_buf re) = 2048 \<Longrightarrow> check_leading_garbage re stale n1"
proof -
  have n: "\<not> sublist tlv_magic [0xAA, 0x02, 0x01, 0x04, 0x00, 0x02, 0x02, 0x01]" by code_simp
  show "length (r_buf re) = 2048 \<Longrightarrow> ?thesis"
    unfolding check_leading_garbage_def
    using test_segment [OF n, of n1 True "[]"] by (intro stream_test_scan) simp_all
qed

text \<open>A length of 0x1869F does not fit the buffer: the header goes, and the rest is noise.\<close>

lemma bogus_length_passes: "length (r_buf re) = 2048 \<Longrightarrow> check_bogus_length re stale n1 n2"
proof -
  let ?f = "(test_frame n1 False)[12 := 0x9F, 13 := 0x86, 14 := 0x01]"
  have len: "length ?f = 82" by (simp add: length_test_frame)
  have b15: "?f ! 15 = 0" by (simp add: test_frame_def build_frame_def nth_append le32_def test_tlvs_def)
  have "take 8 (take 40 ?f) = tlv_magic" by (simp add: test_frame_def take8_build_frame)
  moreover have "length (take 40 ?f) = 40" using len by simp
  moreover have "le32_at (take 40 ?f) 12 = 0x1869F"
    using len b15 by (simp add: le32_at_take) (simp add: le32_at_def of_le32_def)
  ultimately have bogus: "scan (take 40 ?f @ xs) = scan xs" for xs by (intro scan_bogus) simp_all
  have rest: "drop 40 ?f = enc_tlvs (test_tlvs False)"
    by (simp add: test_frame_def build_frame_body)
  have "\<not> sublist tlv_magic (enc_tlvs (test_tlvs False))" by code_simp
  from bogus [of "enc_tlvs (test_tlvs False) @ test_frame n2 True"] test_segment [OF this, of n2 True "[]"]
  have "scan (?f @ test_frame n2 True) = [test_frame n2 True]"
    by (metis append.assoc append_Nil2 append_take_drop_id rest scan_end list.size(3) zero_less_numeral)
  then show "length (r_buf re) = 2048 \<Longrightarrow> ?thesis"
    unfolding check_bogus_length_def by (intro stream_test_scan) simp_all
qed

lemma truncated_tlv_passes: "check_truncated_tlv stale n1"
proof -
  let ?m = "(test_frame n1 True)[44 := 0xFF, 45 := 0xFF] @ stale"
  have total: "le32_at ?m 12 = 314"
    using build_frame_total [of "test_header n1" "test_tlvs True" stale] length_test_frame [of n1 True]
    by (simp add: test_frame_def le32_at_def nth_append)
  have b: "test_frame n1 True ! 46 = 0" "test_frame n1 True ! 47 = 0"
    by (simp_all add: test_frame_def build_frame_def test_tlvs_def nth_append le32_def)
  have "le32_at (drop 40 (take 314 ?m)) 4 = 0xFFFF"
    using b length_test_frame [of n1 True] by (simp add: le32_at_def of_le32_def nth_append)
  then have "tlvs (drop 40 (take 314 ?m)) = []" by (subst tlvs.simps) (simp add: length_test_frame)
  then show ?thesis
    using tlv_find_defined [of 314 ?m 315] total length_test_frame [of n1 True]
    by (simp add: check_truncated_tlv_def found_def)
qed

lemma targets_2d_passes: "check_2d_targets stale"
proof -
  let ?p = "le32 4 @ le32 0xBFA00000 @ le32 0x40200000 @ replicate 64 0 :: bytes"
  have "target_at (?p @ stale) 76 0 = \<lparr>t_tid = 4, t_x = 0xBFA00000, t_y = 0x40200000, t_z = 0\<rparr>"
    by (simp add: target_at_def le32_at_skip)
  then show ?thesis
    using tlv_targets_spec [of 76 "?p @ stale" 4] tlv_targets_spec [of 33 "?p @ stale" 4]
    by (simp add: check_2d_targets_def Let_def target_size_def) (simp add: tlv_targets_def)
qed

text \<open>
  All of test_tlv.c passes: with any content of the static buffers and any frame numbers, a
  stream with two frames and a partial magic, a frame behind noise, a frame behind one of a
  bogus length, a TLV that runs past its frame, and 2D targets are handled as its assertions
  say.
\<close>

theorem tlv_tests_pass:
  assumes "length (r_buf re) = 2048"
  shows "check_stream re stale n1 n2 \<and> check_leading_garbage re stale n1 \<and> check_bogus_length re stale n1 n2 \<and>
    check_truncated_tlv stale n1 \<and> check_2d_targets stale"
  using assms by (intro conjI stream_passes leading_garbage_passes bogus_length_passes truncated_tlv_passes targets_2d_passes)

theorem tlv_tests_pass_witness: "check_stream reasm0 [] 7 8 \<and> check_bogus_length reasm0 [0xAA] 1 99"
  using tlv_tests_pass [of reasm0 "[]" 7 8] tlv_tests_pass [of reasm0 "[0xAA]" 1 99] by (simp add: reasm0_def)

end
