(* ===== verification/Store.thy ===== *)
theory Store
  imports Frame
begin

text \<open>
  src/src/store.h and src/src/store.c: the flash ring of records. The non-volatile store
  underneath (Zephyr's NVS) is a parameter: its operations are fields of the record
  \<open>nvs_ops\<close>, and what the code relies on is the predicate \<open>nvs_contract\<close>. Proved here: an
  append makes the new record readable and keeps every other record of the last
  \<open>STORE_CAPACITY\<close>, a reader never gets a record under a wrong sequence number, and a reboot
  resumes the sequence numbers, the records and the clock.
\<close>

section \<open>Constants\<close>

definition STORE_CAPACITY :: nat where
  "STORE_CAPACITY = 24 * 3600 div STORE_PERIOD_S"

abbreviation (input) NVS_ID_META :: nat where "NVS_ID_META \<equiv> 1"
abbreviation (input) NVS_ID_FORMAT :: nat where "NVS_ID_FORMAT \<equiv> 2"
abbreviation (input) NVS_ID_FLOOR :: nat where "NVS_ID_FLOOR \<equiv> 3"
abbreviation (input) NVS_ID_REC0 :: nat where "NVS_ID_REC0 \<equiv> 0x100"

lemma capacity [simp]: "STORE_CAPACITY = 2880"
  by (simp add: STORE_CAPACITY_def)

section \<open>The memory images of what is stored\<close>

text \<open>
  The structs as they lie in memory on the little-endian core. \<open>struct sntl_record\<close> needs no
  padding: its fields fall on their natural alignment at 0, 4, 8, 9, 10, 12, 13, 14 to 22.
\<close>

definition record_image :: "sntl_record \<Rightarrow> bytes" where
  "record_image r =
     le32 (rec_seq r) @ le32 (rec_ts r) @ [rec_headcount r, rec_occ_s r] @ le16 (rec_dwell_s r) @
     [rec_flags r, rec_batt r] @ le16 (rec_pm25 r) @ le16 (rec_pm10 r) @
     le16 (rec_temp r) @ le16 (rec_rh r) @ le16 (rec_voc r)"

abbreviation (input) sizeof_record :: nat where "sizeof_record \<equiv> 24"
abbreviation (input) sizeof_meta :: nat where "sizeof_meta \<equiv> 8"

definition NVS_FORMAT :: u16 where
  "NVS_FORMAT = of_nat sizeof_record"

record meta =
  next_seq :: u32
  base_sec :: u32

definition meta_image :: "meta \<Rightarrow> bytes" where
  "meta_image m = le32 (next_seq m) @ le32 (base_sec m)"

text \<open>Reading a struct back from the bytes of the buffer it was read into.\<close>

definition record_of_image :: "bytes \<Rightarrow> sntl_record" where
  "record_of_image b =
     \<lparr>rec_seq = of_le32 (b ! 0) (b ! 1) (b ! 2) (b ! 3),
      rec_ts = of_le32 (b ! 4) (b ! 5) (b ! 6) (b ! 7),
      rec_headcount = b ! 8, rec_occ_s = b ! 9, rec_dwell_s = of_le16 (b ! 10) (b ! 11),
      rec_flags = b ! 12, rec_batt = b ! 13, rec_pm25 = of_le16 (b ! 14) (b ! 15),
      rec_pm10 = of_le16 (b ! 16) (b ! 17), rec_temp = of_le16 (b ! 18) (b ! 19),
      rec_rh = of_le16 (b ! 20) (b ! 21), rec_voc = of_le16 (b ! 22) (b ! 23)\<rparr>"

definition meta_of_image :: "bytes \<Rightarrow> meta" where
  "meta_of_image b = \<lparr>next_seq = of_le32 (b ! 0) (b ! 1) (b ! 2) (b ! 3),
                     base_sec = of_le32 (b ! 4) (b ! 5) (b ! 6) (b ! 7)\<rparr>"

text \<open>A read into a buffer overwrites a prefix of it.\<close>

definition overlay :: "bytes \<Rightarrow> bytes \<Rightarrow> bytes" where
  "overlay data buf = data @ drop (length data) buf"

section \<open>NVS, the store underneath\<close>

text \<open>
  Zephyr's NVS is not part of this repository. Each operation returns the C return value and
  the new file system; a read returns the return value and the bytes it copied. The geometry
  of the partition is given to \<open>mount\<close>.
\<close>

record nvs_geometry =
  offset :: nat
  sector_size :: u16
  sector_count :: u16

record 'f nvs_ops =
  nvs_mount :: "nvs_geometry \<Rightarrow> 'f \<Rightarrow> int \<times> 'f"
  nvs_clear :: "'f \<Rightarrow> int \<times> 'f"
  nvs_read :: "'f \<Rightarrow> nat \<Rightarrow> nat \<Rightarrow> int \<times> bytes"
  nvs_write :: "'f \<Rightarrow> nat \<Rightarrow> bytes \<Rightarrow> int \<times> 'f"

text \<open>
  The documented behaviour the code relies on, over the contents \<open>view fs id\<close> of an entry:
  a read of an entry of the requested length returns that length and the entry, of an absent
  entry a negative error, of an entry of another length some other number; a successful write
  replaces one entry and no other, a failed one leaves the old or the new entry; mounting
  changes no entry and clearing removes all.
\<close>

definition nvs_reads :: "'f nvs_ops \<Rightarrow> ('f \<Rightarrow> nat \<Rightarrow> bytes option) \<Rightarrow> bool" where
  "nvs_reads ops view \<longleftrightarrow>
     (\<forall>fs k len. case view fs k of
          None \<Rightarrow> fst (nvs_read ops fs k len) < 0 \<and> snd (nvs_read ops fs k len) = []
        | Some d \<Rightarrow> if length d = len then nvs_read ops fs k len = (int len, d)
                   else fst (nvs_read ops fs k len) \<noteq> int len \<and>
                        length (snd (nvs_read ops fs k len)) \<le> len)"

definition nvs_writes :: "'f nvs_ops \<Rightarrow> ('f \<Rightarrow> nat \<Rightarrow> bytes option) \<Rightarrow> bool" where
  "nvs_writes ops view \<longleftrightarrow>
     (\<forall>fs k d. let (e, fs') = nvs_write ops fs k d in
          (if 0 \<le> e then view fs' k = Some d else view fs' k \<in> {view fs k, Some d}) \<and>
          (\<forall>j. j \<noteq> k \<longrightarrow> view fs' j = view fs j))"

definition nvs_mounts :: "'f nvs_ops \<Rightarrow> ('f \<Rightarrow> nat \<Rightarrow> bytes option) \<Rightarrow> bool" where
  "nvs_mounts ops view \<longleftrightarrow>
     (\<forall>fs g. view (snd (nvs_mount ops g fs)) = view fs) \<and>
     (\<forall>fs k. fst (nvs_clear ops fs) = 0 \<longrightarrow> view (snd (nvs_clear ops fs)) k = None)"

definition nvs_contract :: "'f nvs_ops \<Rightarrow> ('f \<Rightarrow> nat \<Rightarrow> bytes option) \<Rightarrow> bool" where
  "nvs_contract ops view \<longleftrightarrow> nvs_reads ops view \<and> nvs_writes ops view \<and> nvs_mounts ops view"

section \<open>State and operations\<close>

text \<open>The file-scope variables of store.c; at boot they are zero.\<close>

record 'f store =
  fs :: 'f
  meta :: meta
  boot_offset :: u32
  floor_seq :: u32

definition store_boot :: "'f \<Rightarrow> 'f store" where
  "store_boot f = \<lparr>fs = f, meta = \<lparr>next_seq = 0, base_sec = 0\<rparr>, boot_offset = 0, floor_seq = 0\<rparr>"

text \<open>Uptime is in milliseconds, as \<open>k_uptime_get\<close> returns it.\<close>

definition store_now :: "int \<Rightarrow> 'f store \<Rightarrow> u32" where
  "store_now uptime s = boot_offset s + of_int (cdiv uptime 1000)"

text \<open>What the board answers at start-up: the flash device and its page layout.\<close>

record board =
  flash_ready :: bool
  page_info_err :: int
  page_size :: nat

abbreviation (input) PARTITION_OFFSET :: nat where "PARTITION_OFFSET \<equiv> 0xd8000"
abbreviation (input) PARTITION_SIZE :: nat where "PARTITION_SIZE \<equiv> 0x28000"

definition read_meta :: "'f nvs_ops \<Rightarrow> 'f \<Rightarrow> meta" where
  "read_meta ops f =
     (let (n, data) = nvs_read ops f NVS_ID_META sizeof_meta in
      if n \<noteq> int sizeof_meta then \<lparr>next_seq = 0, base_sec = 0\<rparr> else meta_of_image data)"

definition read_format :: "'f nvs_ops \<Rightarrow> 'f \<Rightarrow> u16" where
  "read_format ops f =
     (let b = overlay (snd (nvs_read ops f NVS_ID_FORMAT 2)) (le16 0) in of_le16 (b ! 0) (b ! 1))"

definition read_floor :: "'f nvs_ops \<Rightarrow> 'f \<Rightarrow> u32 \<Rightarrow> u32" where
  "read_floor ops f old =
     (let b = overlay (snd (nvs_read ops f NVS_ID_FLOOR 4)) (le32 old)
      in of_le32 (b ! 0) (b ! 1) (b ! 2) (b ! 3))"

text \<open>The format change: erase, remount, and write format, floor and meta, in that order.\<close>

definition store_reformat :: "'f nvs_ops \<Rightarrow> nvs_geometry \<Rightarrow> 'f store \<Rightarrow> int \<times> 'f store" where
  "store_reformat ops g s =
     (let (err, f1) = nvs_clear ops (fs s); s1 = s\<lparr>fs := f1\<rparr> in
      if err \<noteq> 0 then (err, s1)
      else let (err, f2) = nvs_mount ops g (fs s1); s2 = s1\<lparr>fs := f2\<rparr> in
      if err \<noteq> 0 then (err, s2)
      else let s3 = s2\<lparr>floor_seq := next_seq (meta s2)\<rparr>;
               (e1, f4) = nvs_write ops (fs s3) NVS_ID_FORMAT (le16 NVS_FORMAT);
               s4 = s3\<lparr>fs := f4\<rparr> in
      if e1 < 0 then (- EIO, s4)
      else let (e2, f5) = nvs_write ops (fs s4) NVS_ID_FLOOR (le32 (floor_seq s4));
               s5 = s4\<lparr>fs := f5\<rparr> in
      if e2 < 0 then (- EIO, s5)
      else let (e3, f6) = nvs_write ops (fs s5) NVS_ID_META (meta_image (meta s5));
               s6 = s5\<lparr>fs := f6\<rparr> in
      if e3 < 0 then (- EIO, s6) else (0, s6))"

definition store_init :: "'f nvs_ops \<Rightarrow> board \<Rightarrow> 'f store \<Rightarrow> int \<times> 'f store" where
  "store_init ops bd s =
     (if \<not> flash_ready bd then (- ENODEV, s)
      else if page_info_err bd \<noteq> 0 then (page_info_err bd, s)
      else let g = \<lparr>offset = PARTITION_OFFSET, sector_size = of_nat (page_size bd),
                    sector_count = of_nat (PARTITION_SIZE div page_size bd)\<rparr>;
               (err, f) = nvs_mount ops g (fs s); s1 = s\<lparr>fs := f\<rparr> in
      if err \<noteq> 0 then (err, s1)
      else let s2 = s1\<lparr>meta := read_meta ops (fs s1)\<rparr>;
               (err, s3) = (if read_format ops (fs s2) \<noteq> NVS_FORMAT then store_reformat ops g s2
                            else (0, s2\<lparr>floor_seq := read_floor ops (fs s2) (floor_seq s2)\<rparr>)) in
      if err \<noteq> 0 then (err, s3)
      else (0, s3\<lparr>boot_offset := base_sec (meta s3)\<rparr>))"

definition store_next_seq :: "'f store \<Rightarrow> u32" where
  "store_next_seq s = next_seq (meta s)"

definition store_oldest_seq :: "'f store \<Rightarrow> u32" where
  "store_oldest_seq s =
     (let ring = (if next_seq (meta s) > of_nat STORE_CAPACITY
                  then next_seq (meta s) - of_nat STORE_CAPACITY else 0)
      in if floor_seq s > ring then floor_seq s else ring)"

definition slot :: "u32 \<Rightarrow> nat" where
  "slot seq = NVS_ID_REC0 + unat (seq mod of_nat STORE_CAPACITY)"

text \<open>The record is filled in through the pointer, so it is returned too.\<close>

definition store_append ::
  "'f nvs_ops \<Rightarrow> int \<Rightarrow> 'f store \<Rightarrow> sntl_record \<Rightarrow> int \<times> sntl_record \<times> 'f store" where
  "store_append ops uptime s r =
     (let r = r\<lparr>rec_seq := next_seq (meta s), rec_ts := store_now uptime s\<rparr>;
          (err, f) = nvs_write ops (fs s) (slot (rec_seq r)) (record_image r);
          s1 = s\<lparr>fs := f\<rparr> in
      if err < 0 then (err, r, s1)
      else let s2 = s1\<lparr>meta := \<lparr>next_seq = next_seq (meta s1) + 1, base_sec = rec_ts r\<rparr>\<rparr>;
               (err, f) = nvs_write ops (fs s2) NVS_ID_META (meta_image (meta s2));
               s3 = s2\<lparr>fs := f\<rparr> in
      (if err < 0 then err else 0, r, s3))"

text \<open>
  The range check of \<open>store_get\<close> runs before the lock is taken, the read under it; an append
  may come in between, so the two parts take their own states.
\<close>

definition store_get_check :: "'f store \<Rightarrow> u32 \<Rightarrow> bool" where
  "store_get_check s seq \<longleftrightarrow> \<not> (seq \<ge> next_seq (meta s) \<or> seq < store_oldest_seq s)"

definition store_get_read :: "'f nvs_ops \<Rightarrow> 'f store \<Rightarrow> u32 \<Rightarrow> sntl_record \<Rightarrow> int \<times> sntl_record" where
  "store_get_read ops s seq out =
     (let (n, data) = nvs_read ops (fs s) (slot seq) sizeof_record;
          out = record_of_image (overlay data (record_image out)) in
      if n \<noteq> int sizeof_record then (- ENOENT, out)
      else (if rec_seq out = seq then 0 else - ENOENT, out))"

definition store_get :: "'f nvs_ops \<Rightarrow> 'f store \<Rightarrow> u32 \<Rightarrow> sntl_record \<Rightarrow> int \<times> sntl_record" where
  "store_get ops s seq out =
     (if \<not> store_get_check s seq then (- ENOENT, out) else store_get_read ops s seq out)"


section \<open>Consequences of the contract\<close>

lemma nvs_write_law:
  assumes "nvs_contract ops view" and "nvs_write ops f k d = (e, f')"
  shows "(if 0 \<le> e then view f' k = Some d else view f' k \<in> {view f k, Some d}) \<and>
         (\<forall>j. j \<noteq> k \<longrightarrow> view f' j = view f j)"
proof -
  have "nvs_writes ops view" using assms(1) by (simp add: nvs_contract_def)
  from this [unfolded nvs_writes_def, rule_format, of f k d] show ?thesis
    unfolding assms(2) by (simp split: if_splits)
qed

lemma nvs_write_ok:
  "nvs_contract ops view \<Longrightarrow> nvs_write ops f k d = (e, f') \<Longrightarrow> 0 \<le> e \<Longrightarrow>
   view f' = (view f)(k := Some d)"
  by (drule (1) nvs_write_law) (simp add: fun_eq_iff)

lemma nvs_write_fail:
  "nvs_contract ops view \<Longrightarrow> nvs_write ops f k d = (e, f') \<Longrightarrow> e < 0 \<Longrightarrow>
   view f' = view f \<or> view f' = (view f)(k := Some d)"
  by (drule (1) nvs_write_law) (auto simp: fun_eq_iff)

lemma nvs_write_any:
  "nvs_contract ops view \<Longrightarrow> nvs_write ops f k d = (e, f') \<Longrightarrow>
   view f' = view f \<or> view f' = (view f)(k := Some d)"
  using nvs_write_ok [of ops view f k d e f'] nvs_write_fail [of ops view f k d e f'] by linarith

lemma nvs_read_law:
  assumes "nvs_contract ops view"
  shows "case view f k of
          None \<Rightarrow> fst (nvs_read ops f k len) < 0 \<and> snd (nvs_read ops f k len) = []
        | Some d \<Rightarrow> if length d = len then nvs_read ops f k len = (int len, d)
                   else fst (nvs_read ops f k len) \<noteq> int len \<and>
                        length (snd (nvs_read ops f k len)) \<le> len"
  using assms unfolding nvs_contract_def nvs_reads_def by blast

lemma nvs_read_hit:
  "nvs_contract ops view \<Longrightarrow> view f k = Some d \<Longrightarrow> length d = len \<Longrightarrow>
   nvs_read ops f k len = (int len, d)"
  using nvs_read_law [of ops view f k len] by simp

lemma nvs_read_absent:
  "nvs_contract ops view \<Longrightarrow> view f k = None \<Longrightarrow>
   fst (nvs_read ops f k len) < 0 \<and> snd (nvs_read ops f k len) = []"
  using nvs_read_law [of ops view f k len] by simp

lemma nvs_read_other:
  "nvs_contract ops view \<Longrightarrow> view f k = Some d \<Longrightarrow> length d \<noteq> len \<Longrightarrow>
   fst (nvs_read ops f k len) \<noteq> int len \<and> length (snd (nvs_read ops f k len)) \<le> len"
  using nvs_read_law [of ops view f k len] by simp

lemma nvs_mount_view: "nvs_contract ops view \<Longrightarrow> nvs_mount ops g f = (e, f') \<Longrightarrow> view f' = view f"
  unfolding nvs_contract_def nvs_mounts_def by (metis snd_conv)

lemma nvs_clear_view:
  "nvs_contract ops view \<Longrightarrow> nvs_clear ops f = (0, f') \<Longrightarrow> view f' k = None"
  unfolding nvs_contract_def nvs_mounts_def by (metis fst_conv snd_conv)

section \<open>Images and slots\<close>

lemma length_record_image [simp]: "length (record_image r) = 24"
  by (simp add: record_image_def)

lemma length_meta_image [simp]: "length (meta_image m) = 8"
  by (simp add: meta_image_def)

lemma record_of_record_image [simp]: "record_of_image (record_image r) = r"
  by (simp add: record_of_image_def record_image_def le32_def le16_def)

lemma meta_of_meta_image [simp]: "meta_of_image (meta_image m) = m"
  by (simp add: meta_of_image_def meta_image_def le32_def)

lemma overlay_full: "length data = length buf \<Longrightarrow> overlay data buf = data"
  by (simp add: overlay_def)

lemma overlay_Nil [simp]: "overlay [] buf = buf"
  by (simp add: overlay_def)

text \<open>The wire format of a record is its memory image.\<close>

lemma record_image_wire: "record_image r = sntl_encode_record r"
  by (simp add: record_image_def encode_record_eq)

lemma slot_nat: "slot s = 256 + unat s mod 2880"
  by (simp add: slot_def unat_mod)

lemma slot_distinct:
  "unat s < unat t \<Longrightarrow> unat t - unat s < 2880 \<Longrightarrow> slot s \<noteq> slot t"
proof
  assume lt: "unat s < unat t" "unat t - unat s < 2880" and "slot s = slot t"
  then have "unat s mod 2880 = unat t mod 2880" by (simp add: slot_nat)
  then have "2880 dvd unat t - unat s" using lt by (metis less_imp_le_nat mod_eq_dvd_iff_nat)
  with lt show False by (auto dest: dvd_imp_le)
qed

lemma slot_other [simp]: "slot s \<noteq> Suc 0" "Suc 0 \<noteq> slot s" "slot s \<noteq> NVS_ID_FORMAT" "slot s \<noteq> NVS_ID_FLOOR"
  by (simp_all add: slot_nat)

lemma oldest_nat:
  "unat (store_oldest_seq s) = max (unat (floor_seq s)) (unat (next_seq (meta s)) - 2880)"
proof -
  let ?n = "next_seq (meta s)"
  have sub: "unat (?n - 2880) = unat ?n - 2880" if "?n > 2880"
  proof -
    have "unat (?n - 2880) = unat ?n - unat (2880 :: u32)" using that by (intro unat_sub) simp
    then show ?thesis by simp
  qed
  show ?thesis
    by (auto simp: store_oldest_seq_def Let_def word_nat sub max_def)
qed


section \<open>What a reader sees\<close>

definition store_lookup :: "'f nvs_ops \<Rightarrow> 'f store \<Rightarrow> u32 \<Rightarrow> sntl_record option" where
  "store_lookup ops s seq =
     (let (e, r) = store_get ops s seq zero_record in if e = 0 then Some r else None)"

text \<open>The entry of a slot as a record with the expected sequence number.\<close>

definition slot_record :: "bytes option \<Rightarrow> u32 \<Rightarrow> sntl_record option" where
  "slot_record entry seq =
     (case entry of None \<Rightarrow> None
      | Some d \<Rightarrow> if length d = 24 \<and> rec_seq (record_of_image d) = seq
                 then Some (record_of_image d) else None)"

lemma slot_record_image [simp]:
  "slot_record (Some (record_image r)) seq = (if rec_seq r = seq then Some r else None)"
  by (simp add: slot_record_def)

lemma slot_record_seq: "slot_record e seq = Some r \<Longrightarrow> rec_seq r = seq"
  by (auto simp: slot_record_def split: option.splits if_splits)

lemma get_read_slot:
  assumes "nvs_contract ops view"
  shows "(case store_get_read ops s seq out of (e, r) \<Rightarrow> if e = 0 then Some r else None) =
           slot_record (view (fs s) (slot seq)) seq"
proof (cases "view (fs s) (slot seq)")
  case None
  then have "fst (nvs_read ops (fs s) (slot seq) 24) < 0"
    using nvs_read_absent [OF assms None] by blast
  then show ?thesis
    using None by (simp add: store_get_read_def slot_record_def case_prod_beta Let_def)
next
  case (Some d)
  show ?thesis
  proof (cases "length d = 24")
    case True
    then have "nvs_read ops (fs s) (slot seq) 24 = (24, d)"
      using nvs_read_hit [OF assms Some True] by simp
    then show ?thesis
      using Some True by (simp add: store_get_read_def slot_record_def overlay_full Let_def)
  next
    case False
    then have "fst (nvs_read ops (fs s) (slot seq) 24) \<noteq> 24"
      using nvs_read_other [OF assms Some False] by simp
    then show ?thesis
      using Some False by (simp add: store_get_read_def slot_record_def case_prod_beta Let_def)
  qed
qed

lemma lookup_eq:
  assumes "nvs_contract ops view"
  shows "store_lookup ops s seq =
           (if store_get_check s seq then slot_record (view (fs s) (slot seq)) seq else None)"
  using get_read_slot [OF assms, of s seq zero_record]
  by (simp add: store_lookup_def store_get_def Let_def)

lemma check_nat:
  "store_get_check s seq \<longleftrightarrow>
     unat (floor_seq s) \<le> unat seq \<and> unat (next_seq (meta s)) \<le> unat seq + 2880 \<and>
     unat seq < unat (next_seq (meta s))"
  by (auto simp: store_get_check_def word_nat oldest_nat)

section \<open>The abstract log and the refinement\<close>

text \<open>
  What the store promises: a log of numbered records of which the last \<open>STORE_CAPACITY\<close> are
  held. Appending gives the record the next number and drops the one that falls out.
\<close>

record log =
  log_next :: nat
  log_held :: "nat \<Rightarrow> sntl_record option"

definition log_append :: "log \<Rightarrow> sntl_record \<Rightarrow> log" where
  "log_append l r =
     \<lparr>log_next = log_next l + 1,
      log_held = (\<lambda>k. if k = log_next l then Some r
                      else if k + STORE_CAPACITY \<le> log_next l then None else log_held l k)\<rparr>"

definition log_of :: "'f nvs_ops \<Rightarrow> 'f store \<Rightarrow> log" where
  "log_of ops s =
     \<lparr>log_next = unat (next_seq (meta s)),
      log_held = (\<lambda>k. if k < 2 ^ 32 then store_lookup ops s (of_nat k) else None)\<rparr>"

text \<open>The number to assign next is in range and nothing above it is claimed.\<close>

definition store_ok :: "'f store \<Rightarrow> bool" where
  "store_ok s \<longleftrightarrow> floor_seq s \<le> next_seq (meta s) \<and> unat (next_seq (meta s)) + 1 < 2 ^ 32"

lemma append_cases:
  assumes c: "nvs_contract ops view" and a: "store_append ops up s r = (e, r', s')"
  shows "r' = r\<lparr>rec_seq := next_seq (meta s), rec_ts := store_now up s\<rparr>"
    and "floor_seq s' = floor_seq s" and "boot_offset s' = boot_offset s"
    and "e = 0 \<Longrightarrow> meta s' = \<lparr>next_seq = next_seq (meta s) + 1, base_sec = rec_ts r'\<rparr>"
    and "e = 0 \<Longrightarrow> view (fs s') = (view (fs s))(slot (next_seq (meta s)) := Some (record_image r'),
           NVS_ID_META := Some (meta_image (meta s')))"
proof -
  let ?r = "r\<lparr>rec_seq := next_seq (meta s), rec_ts := store_now up s\<rparr>"
  let ?m = "\<lparr>next_seq = next_seq (meta s) + 1, base_sec = rec_ts ?r\<rparr>"
  obtain e1 f1 where w1: "nvs_write ops (fs s) (slot (rec_seq ?r)) (record_image ?r) = (e1, f1)"
    by fastforce
  obtain e2 f2 where w2: "nvs_write ops f1 NVS_ID_META (meta_image ?m) = (e2, f2)"
    by fastforce
  show "r' = ?r" and "floor_seq s' = floor_seq s" and "boot_offset s' = boot_offset s"
    using a w1 w2 by (auto simp: store_append_def Let_def split: if_splits)
  assume e: "e = 0"
  have e1: "0 \<le> e1" and e2: "0 \<le> e2" and s': "s' = s\<lparr>fs := f2, meta := ?m\<rparr>"
    using a w1 w2 e by (auto simp: store_append_def Let_def split: if_splits)
  show "meta s' = \<lparr>next_seq = next_seq (meta s) + 1, base_sec = rec_ts r'\<rparr>"
    using s' \<open>r' = ?r\<close> by simp
  show "view (fs s') = (view (fs s))(slot (next_seq (meta s)) := Some (record_image r'),
           NVS_ID_META := Some (meta_image (meta s')))"
    using nvs_write_ok [OF c w1 e1] nvs_write_ok [OF c w2 e2] s' \<open>r' = ?r\<close> by simp
qed

text \<open>The state after an append, whatever led to it.\<close>

definition appended :: "('f \<Rightarrow> nat \<Rightarrow> bytes option) \<Rightarrow> 'f store \<Rightarrow> sntl_record \<Rightarrow> 'f store \<Rightarrow> bool" where
  "appended view s r' s' \<longleftrightarrow>
     rec_seq r' = next_seq (meta s) \<and> floor_seq s' = floor_seq s \<and>
     meta s' = \<lparr>next_seq = next_seq (meta s) + 1, base_sec = rec_ts r'\<rparr> \<and>
     view (fs s') = (view (fs s))(slot (next_seq (meta s)) := Some (record_image r'),
                                  NVS_ID_META := Some (meta_image (meta s')))"

lemma append_appended:
  assumes "nvs_contract ops view" and "store_append ops up s r = (0, r', s')"
  shows "appended view s r' s'"
  using append_cases [OF assms] by (simp add: appended_def)

lemma appended_lookup:
  assumes c: "nvs_contract ops view" and a: "appended view s r' s'" and ok: "store_ok s"
  shows "store_lookup ops s' seq =
           (if seq = next_seq (meta s) then Some r'
            else if unat seq + 2880 \<le> unat (next_seq (meta s)) then None
            else store_lookup ops s seq)"
proof -
  let ?n = "next_seq (meta s)"
  have n': "unat (next_seq (meta s')) = unat ?n + 1"
    using a ok by (simp add: store_ok_def unat_add_nowrap appended_def)
  have fl: "unat (floor_seq s) \<le> unat ?n" using ok by (simp add: store_ok_def word_nat)
  have seq': "rec_seq r' = ?n" and flr: "floor_seq s' = floor_seq s" using a by (simp_all add: appended_def)
  have entry: "view (fs s') (slot seq) =
      (if slot seq = slot ?n then Some (record_image r') else view (fs s) (slot seq))"
    using a by (simp add: appended_def)
  show ?thesis
  proof (cases "seq = ?n")
    case True
    then show ?thesis
      using fl n' entry seq' flr by (simp add: lookup_eq [OF c] check_nat)
  next
    case False
    then have ne: "unat seq \<noteq> unat ?n" by (simp add: word_unat_eq_iff)
    have chk: "store_get_check s' seq \<longleftrightarrow> store_get_check s seq \<and> \<not> unat seq + 2880 \<le> unat ?n"
      using ne n' flr by (auto simp: check_nat)
    have "slot seq \<noteq> slot ?n" if "store_get_check s seq" "\<not> unat seq + 2880 \<le> unat ?n"
      using that by (intro slot_distinct) (auto simp: check_nat)
    then show ?thesis
      using False chk entry by (auto simp: lookup_eq [OF c])
  qed
qed

lemma appended_refines:
  assumes c: "nvs_contract ops view" and a: "appended view s r' s'" and ok: "store_ok s"
  shows "log_of ops s' = log_append (log_of ops s) r'"
proof -
  have n': "unat (next_seq (meta s')) = unat (next_seq (meta s)) + 1"
    using a ok by (simp add: store_ok_def unat_add_nowrap appended_def)
  have held: "store_lookup ops s' (of_nat k) =
      (if k = unat (next_seq (meta s)) then Some r'
       else if k + 2880 \<le> unat (next_seq (meta s)) then None else store_lookup ops s (of_nat k))"
    if "k < 2 ^ 32" for k
  proof -
    have k: "unat (of_nat k :: u32) = k" using that by (intro unat_of_nat_small) simp
    then have "of_nat k = next_seq (meta s) \<longleftrightarrow> k = unat (next_seq (meta s))"
      by (metis word_unat_eq_iff)
    then show ?thesis using appended_lookup [OF c a ok, of "of_nat k"] by (simp only: k)
  qed
  have "unat (next_seq (meta s)) < 2 ^ 32" using ok by (simp add: store_ok_def)
  then show ?thesis
    using n' held held [of "unat (next_seq (meta s))"]
    by (auto simp: log_of_def log_append_def fun_eq_iff)
qed

lemmas append_lookup = appended_lookup [OF _ append_appended]
lemmas log_append_refines = appended_refines [OF _ append_appended]


section \<open>Persistence\<close>

text \<open>What the flash must hold for a reboot to find the state again.\<close>

definition persisted :: "('f \<Rightarrow> nat \<Rightarrow> bytes option) \<Rightarrow> 'f store \<Rightarrow> bool" where
  "persisted view s \<longleftrightarrow>
     view (fs s) NVS_ID_META = Some (meta_image (meta s)) \<and>
     view (fs s) NVS_ID_FORMAT = Some (le16 NVS_FORMAT) \<and>
     (view (fs s) NVS_ID_FLOOR = Some (le32 (floor_seq s)) \<or>
      view (fs s) NVS_ID_FLOOR = None \<and> floor_seq s = 0)"

lemma append_persisted:
  assumes "nvs_contract ops view" and "store_append ops up s r = (0, r', s')" and "persisted view s"
  shows "persisted view s'"
  using append_cases [OF assms(1,2)] assms(3) by (auto simp: persisted_def)

lemma read_meta_hit:
  assumes "nvs_contract ops view" and "view f NVS_ID_META = Some (meta_image m)"
  shows "read_meta ops f = m"
  using nvs_read_hit [OF assms(1,2), of 8] by (simp add: read_meta_def)

lemma read_meta_absent:
  assumes "nvs_contract ops view" and "view f NVS_ID_META = None"
  shows "read_meta ops f = \<lparr>next_seq = 0, base_sec = 0\<rparr>"
  using nvs_read_absent [OF assms, of 8] by (auto simp: read_meta_def case_prod_beta)

lemma read_format_hit:
  assumes "nvs_contract ops view" and "view f NVS_ID_FORMAT = Some (le16 x)"
  shows "read_format ops f = x"
  using nvs_read_hit [OF assms, of 2] by (simp add: read_format_def overlay_full le16_def)

lemma read_format_absent:
  assumes "nvs_contract ops view" and "view f NVS_ID_FORMAT = None"
  shows "read_format ops f = 0"
  using nvs_read_absent [OF assms, of 2] by (simp add: read_format_def le16_def of_le16_def)

lemma read_floor_cases:
  assumes "nvs_contract ops view"
    and "view f NVS_ID_FLOOR = Some (le32 x) \<or> view f NVS_ID_FLOOR = None \<and> x = old"
  shows "read_floor ops f old = x"
  using assms(2)
proof
  assume "view f NVS_ID_FLOOR = Some (le32 x)"
  then show ?thesis
    using nvs_read_hit [OF assms(1), of f 3 "le32 x" 4] by (simp add: read_floor_def overlay_full le32_def)
next
  assume "view f NVS_ID_FLOOR = None \<and> x = old"
  then show ?thesis
    using nvs_read_absent [OF assms(1), of f 3 4] by (simp add: read_floor_def le32_def)
qed

text \<open>The geometry the mount is asked for, and the two ways through \<open>store_init\<close>.\<close>

definition geometry :: "board \<Rightarrow> nvs_geometry" where
  "geometry bd = \<lparr>offset = PARTITION_OFFSET, sector_size = of_nat (page_size bd),
                  sector_count = of_nat (PARTITION_SIZE div page_size bd)\<rparr>"

lemma init_mounted:
  assumes "store_init ops bd s = (0, s')"
  obtains f where "nvs_mount ops (geometry bd) (fs s) = (0, f)"
    and "read_format ops f = NVS_FORMAT \<Longrightarrow>
         s' = s\<lparr>fs := f, meta := read_meta ops f, floor_seq := read_floor ops f (floor_seq s),
                boot_offset := base_sec (read_meta ops f)\<rparr>"
    and "read_format ops f \<noteq> NVS_FORMAT \<Longrightarrow>
         \<exists>s3. store_reformat ops (geometry bd) (s\<lparr>fs := f, meta := read_meta ops f\<rparr>) = (0, s3) \<and>
              s' = s3\<lparr>boot_offset := base_sec (meta s3)\<rparr>"
proof -
  obtain e f where m: "nvs_mount ops (geometry bd) (fs s) = (e, f)" by fastforce
  obtain e3 s3 where r: "store_reformat ops (geometry bd) (s\<lparr>fs := f, meta := read_meta ops f\<rparr>) = (e3, s3)"
    by fastforce
  have "e = 0" using assms m
    by (auto simp: store_init_def geometry_def [symmetric] Let_def split: if_splits)
  then show ?thesis
    using assms m r
    by (intro that [of f]) (auto simp: store_init_def geometry_def [symmetric] Let_def split: if_splits)
qed

lemma init_reboot:
  assumes c: "nvs_contract ops view" and p: "persisted view s"
    and i: "store_init ops bd (store_boot (fs s)) = (0, s')"
  shows "meta s' = meta s" and "floor_seq s' = floor_seq s"
    and "boot_offset s' = base_sec (meta s)" and "view (fs s') = view (fs s)"
proof -
  from i obtain f where m: "nvs_mount ops (geometry bd) (fs s) = (0, f)"
    and s': "read_format ops f = NVS_FORMAT \<Longrightarrow>
         s' = (store_boot (fs s))\<lparr>fs := f, meta := read_meta ops f,
                floor_seq := read_floor ops f (floor_seq (store_boot (fs s))),
                boot_offset := base_sec (read_meta ops f)\<rparr>"
    by (rule init_mounted) (auto simp: store_boot_def)
  have v: "view f = view (fs s)" using nvs_mount_view [OF c m] .
  then have "read_format ops f = NVS_FORMAT"
    using p by (intro read_format_hit [OF c]) (simp add: persisted_def)
  moreover have "read_meta ops f = meta s"
    using p v by (intro read_meta_hit [OF c]) (simp add: persisted_def)
  moreover have "read_floor ops f (floor_seq (store_boot (fs s))) = floor_seq s"
    using p v by (intro read_floor_cases [OF c]) (auto simp: persisted_def store_boot_def)
  ultimately show "meta s' = meta s" and "floor_seq s' = floor_seq s"
    and "boot_offset s' = base_sec (meta s)" and "view (fs s') = view (fs s)"
    using s' v by simp_all
qed

lemma reformat_ok:
  assumes c: "nvs_contract ops view" and r: "store_reformat ops g s = (0, s')"
  shows "meta s' = meta s" and "floor_seq s' = next_seq (meta s)" and "persisted view s'"
    and "\<And>k. k \<notin> {NVS_ID_META, NVS_ID_FORMAT, NVS_ID_FLOOR} \<Longrightarrow> view (fs s') k = None"
proof -
  obtain e1 f1 where 1: "nvs_clear ops (fs s) = (e1, f1)" by fastforce
  obtain e2 f2 where 2: "nvs_mount ops g f1 = (e2, f2)" by fastforce
  obtain e3 f3 where 3: "nvs_write ops f2 2 (le16 NVS_FORMAT) = (e3, f3)" by fastforce
  obtain e4 f4 where 4: "nvs_write ops f3 3 (le32 (next_seq (meta s))) = (e4, f4)" by fastforce
  obtain e5 f5 where 5: "nvs_write ops f4 1 (meta_image (meta s)) = (e5, f5)" by fastforce
  have e: "e1 = 0" "e2 = 0" "0 \<le> e3" "0 \<le> e4" "0 \<le> e5"
    and s': "s' = s\<lparr>fs := f5, floor_seq := next_seq (meta s)\<rparr>"
    using r 1 2 3 4 5 by (auto simp: store_reformat_def Let_def split: if_splits)
  have "view f1 k = None" for k using nvs_clear_view [OF c] 1 e by simp
  then have f2: "view f2 k = None" for k using nvs_mount_view [OF c 2] by simp
  have v: "view f5 = (view f2)(2 := Some (le16 NVS_FORMAT), 3 := Some (le32 (next_seq (meta s))),
      1 := Some (meta_image (meta s)))"
    using nvs_write_ok [OF c 3 e(3)] nvs_write_ok [OF c 4 e(4)] nvs_write_ok [OF c 5 e(5)] by simp
  show "meta s' = meta s" "floor_seq s' = next_seq (meta s)" using s' by simp_all
  show "persisted view s'" using s' v by (simp add: persisted_def)
  show "\<And>k. k \<notin> {1, 2, 3} \<Longrightarrow> view (fs s') k = None" using s' v f2 by simp
qed


section \<open>The interface: a durable log\<close>

text \<open>
  What the rest of the firmware relies on: every step of the store (an append, a reboot)
  keeps the store valid, extends the abstract log by the records it emitted, numbers them
  consecutively and stamps them with a clock that does not run backwards.
\<close>

lemma log_append_sel:
  "log_next (log_append l r) = Suc (log_next l)"
  "log_held (log_append l r) k =
     (if k = log_next l then Some r else if k + 2880 \<le> log_next l then None else log_held l k)"
  by (simp_all add: log_append_def)

lemma log_append_next [simp]: "log_next (foldl log_append l rs) = log_next l + length rs"
  by (induction rs arbitrary: l) (simp_all add: log_append_def)

lemma log_append_held:
  "log_next l \<le> k \<Longrightarrow> k < log_next l + length rs \<Longrightarrow>
   log_held (foldl log_append l rs) k =
     (if log_next l + length rs \<le> k + 2880 then Some (rs ! (k - log_next l)) else None)"
proof (induction rs rule: rev_induct)
  case (snoc r rs)
  show ?case
  proof (cases "k = log_next l + length rs")
    case True
    then show ?thesis by (simp add: log_append_sel nth_append)
  next
    case False
    then have "k - log_next l < length rs" using snoc.prems by auto
    then show ?thesis using False snoc by (auto simp: log_append_sel nth_append)
  qed
qed simp

locale durable_log =
  fixes abs :: "'s \<Rightarrow> log" and clock :: "'s \<Rightarrow> nat"
    and step :: "'s \<Rightarrow> sntl_record list \<Rightarrow> 's \<Rightarrow> bool" and inv :: "'s \<Rightarrow> bool"
  assumes step_inv: "inv s \<Longrightarrow> step s rs t \<Longrightarrow> inv t"
    and step_log: "inv s \<Longrightarrow> step s rs t \<Longrightarrow> abs t = foldl log_append (abs s) rs"
    and step_seq: "inv s \<Longrightarrow> step s rs t \<Longrightarrow>
          map (unat \<circ> rec_seq) rs = [log_next (abs s) ..< log_next (abs s) + length rs]"
    and step_clock: "inv s \<Longrightarrow> step s rs t \<Longrightarrow>
          sorted (clock s # map (unat \<circ> rec_ts) rs @ [clock t])"
begin

lemma run_inv: "runs step s rs t \<Longrightarrow> inv s \<Longrightarrow> inv t"
  by (induction rule: runs.induct) (auto intro: step_inv)

lemma run_log: "runs step s rs t \<Longrightarrow> inv s \<Longrightarrow> abs t = foldl log_append (abs s) rs"
proof (induction rule: runs.induct)
  case (runs_step s xs t ys u)
  then show ?case using step_log [OF run_inv, of s xs t ys u] by simp
qed simp

lemma run_seq:
  "runs step s rs t \<Longrightarrow> inv s \<Longrightarrow>
   map (unat \<circ> rec_seq) rs = [log_next (abs s) ..< log_next (abs s) + length rs]"
proof (induction rule: runs.induct)
  case (runs_step s xs t ys u)
  have "map (unat \<circ> rec_seq) ys = [log_next (abs t) ..< log_next (abs t) + length ys]"
    using step_seq run_inv runs_step.hyps runs_step.prems by blast
  moreover have "log_next (abs t) = log_next (abs s) + length xs"
    using run_log [OF runs_step.hyps(1) runs_step.prems] by simp
  moreover have "[a ..< a + length (xs @ ys)] = [a ..< a + length xs] @ [a + length xs ..< a + length xs + length ys]"
    for a by (metis add.assoc le_add1 length_append upt_add_eq_append)
  ultimately show ?case
    using runs_step.IH [OF runs_step.prems] by (simp only: map_append)
qed simp

lemma run_clock:
  "runs step s rs t \<Longrightarrow> inv s \<Longrightarrow> sorted (clock s # map (unat \<circ> rec_ts) rs @ [clock t])"
proof (induction rule: runs.induct)
  case (runs_step s xs t ys u)
  have "sorted (clock t # map (unat \<circ> rec_ts) ys @ [clock u])"
    using step_clock run_inv runs_step.hyps runs_step.prems by blast
  moreover have "sorted (a # A @ [c]) \<Longrightarrow> sorted (c # B @ [d]) \<Longrightarrow> sorted (a # (A @ B) @ [d])"
    for a c d :: nat and A B
    by (auto simp: sorted_append) (meson order_trans)+
  ultimately show ?case
    using runs_step.IH [OF runs_step.prems] by (simp only: map_append)
qed simp

text \<open>The last \<open>STORE_CAPACITY\<close> records of a run are held, the older ones are not.\<close>

lemma run_held:
  assumes "runs step s rs t" and "inv s" and "i < length rs"
  shows "log_held (abs t) (log_next (abs s) + i) =
           (if length rs \<le> i + 2880 then Some (rs ! i) else None)"
  using assms(3) run_log [OF assms(1,2)] by (simp add: log_append_held)

end

text \<open>Boots, appends and reboots of one node; the second component is the uptime.\<close>

definition in_range :: "'f store \<Rightarrow> int \<Rightarrow> bool" where
  "in_range s up \<longleftrightarrow> 0 \<le> up \<and> unat (next_seq (meta s)) + 1 < 2 ^ 32 \<and>
     unat (boot_offset s) + nat (up div 1000) < 2 ^ 32"

inductive store_step ::
  "'f nvs_ops \<Rightarrow> 'f store \<times> int \<Rightarrow> sntl_record list \<Rightarrow> 'f store \<times> int \<Rightarrow> bool"
  for ops :: "'f nvs_ops" where
  step_append: "up \<le> up' \<Longrightarrow> in_range s up' \<Longrightarrow> store_append ops up' s r = (0, r', s') \<Longrightarrow>
     store_step ops (s, up) [r'] (s', up')"
| step_reboot: "store_init ops bd (store_boot (fs s)) = (0, s') \<Longrightarrow>
     store_step ops (s, up) [] (s', 0)"

inductive_cases store_stepE: "store_step ops (s, up) rs c"

text \<open>The invariant between steps: flash and variables agree, the clock is not behind.\<close>

definition node_inv :: "('f \<Rightarrow> nat \<Rightarrow> bytes option) \<Rightarrow> 'f store \<times> int \<Rightarrow> bool" where
  "node_inv view = (\<lambda>(s, up). persisted view s \<and> floor_seq s \<le> next_seq (meta s) \<and> 0 \<le> up \<and>
     unat (base_sec (meta s)) \<le> unat (boot_offset s) + nat (up div 1000))"

lemma store_now_nat:
  assumes "in_range s up"
  shows "unat (store_now up s) = unat (boot_offset s) + nat (up div 1000)"
proof -
  have u: "cdiv up 1000 = int (nat (up div 1000))"
    using assms by (simp add: in_range_def cdiv_nonneg pos_imp_zdiv_nonneg_iff)
  have "unat (of_nat (nat (up div 1000)) :: u32) = nat (up div 1000)"
    using assms by (intro unat_of_nat_small) (simp add: in_range_def)
  then show ?thesis
    using assms unfolding store_now_def u of_int_of_nat_eq
    by (subst unat_add_nowrap) (simp_all add: in_range_def)
qed

lemma in_range_ok: "in_range s up \<Longrightarrow> floor_seq s \<le> next_seq (meta s) \<Longrightarrow> store_ok s"
  by (simp add: in_range_def store_ok_def)

lemma append_step:
  assumes c: "nvs_contract ops view" and inv: "node_inv view (s, up)" and up: "up \<le> up'"
    and rng: "in_range s up'" and a: "store_append ops up' s r = (0, r', s')"
  shows "node_inv view (s', up')" and "log_of ops s' = log_append (log_of ops s) r'"
    and "unat (rec_seq r') = log_next (log_of ops s)"
    and "unat (base_sec (meta s)) \<le> unat (rec_ts r')" and "base_sec (meta s') = rec_ts r'"
proof -
  note ap = append_cases [OF c a]
  have ok: "store_ok s" using in_range_ok rng inv by (auto simp: node_inv_def)
  then have n': "unat (next_seq (meta s')) = unat (next_seq (meta s)) + 1"
    using ap(4) by (simp add: store_ok_def unat_add_nowrap)
  have ts: "unat (rec_ts r') = unat (boot_offset s) + nat (up' div 1000)"
    using ap(1) store_now_nat [OF rng] by simp
  have "nat (up div 1000) \<le> nat (up' div 1000)"
    using up by (intro nat_mono zdiv_mono1) simp_all
  then show "unat (base_sec (meta s)) \<le> unat (rec_ts r')"
    using inv ts by (simp add: node_inv_def)
  show "base_sec (meta s') = rec_ts r'" using ap(4) by simp
  have "persisted view s'" using append_persisted [OF c a] inv by (simp add: node_inv_def)
  then show "node_inv view (s', up')"
    using inv up ap(2,3,4) n' ts by (auto simp: node_inv_def word_nat)
  show "log_of ops s' = log_append (log_of ops s) r'" using log_append_refines [OF c c a ok] .
  show "unat (rec_seq r') = log_next (log_of ops s)" using ap(1) by (simp add: log_of_def)
qed

lemma lookup_cong:
  assumes "nvs_contract ops view" and "meta s' = meta s" and "floor_seq s' = floor_seq s"
    and "view (fs s') = view (fs s)"
  shows "log_of ops s' = log_of ops s"
proof -
  have "store_get_check s' seq = store_get_check s seq" for seq
    using assms(2,3) by (simp add: check_nat)
  then have "store_lookup ops s' seq = store_lookup ops s seq" for seq
    using assms(4) by (simp add: lookup_eq [OF assms(1)])
  then have "store_lookup ops s' = store_lookup ops s" by (rule ext)
  then show ?thesis using assms(2) by (simp only: log_of_def)
qed

lemma reboot_step:
  assumes c: "nvs_contract ops view" and inv: "node_inv view (s, up)"
    and i: "store_init ops bd (store_boot (fs s)) = (0, s')"
  shows "node_inv view (s', 0)" and "log_of ops s' = log_of ops s" and "meta s' = meta s"
proof -
  have p: "persisted view s" using inv by (simp add: node_inv_def)
  note re = init_reboot [OF c p i]
  show "log_of ops s' = log_of ops s" using re by (intro lookup_cong [OF c])
  show "node_inv view (s', 0)" using inv re by (simp add: node_inv_def persisted_def)
  show "meta s' = meta s" by (rule re)
qed


lemma step_inv':
  assumes c: "nvs_contract ops view" and inv: "node_inv view x" and st: "store_step ops x rs y"
  shows "node_inv view y" and "log_of ops (fst y) = foldl log_append (log_of ops (fst x)) rs"
    and "map (unat \<circ> rec_seq) rs = [log_next (log_of ops (fst x)) ..< log_next (log_of ops (fst x)) + length rs]"
    and "sorted (unat (base_sec (meta (fst x))) # map (unat \<circ> rec_ts) rs @ [unat (base_sec (meta (fst y)))])"
proof -
  have all: "node_inv view y \<and> log_of ops (fst y) = foldl log_append (log_of ops (fst x)) rs \<and>
    map (unat \<circ> rec_seq) rs = [log_next (log_of ops (fst x)) ..< log_next (log_of ops (fst x)) + length rs] \<and>
    sorted (unat (base_sec (meta (fst x))) # map (unat \<circ> rec_ts) rs @ [unat (base_sec (meta (fst y)))])"
    using st
  proof cases
    case (step_append up up' s r r' s')
    then show ?thesis using append_step [OF c _ step_append(4-6)] inv by simp
  next
    case (step_reboot bd s s' up)
    then show ?thesis using reboot_step [OF c _ step_reboot(4)] inv by auto
  qed
  show "node_inv view y" using all by blast
  show "log_of ops (fst y) = foldl log_append (log_of ops (fst x)) rs" using all by blast
  show "map (unat \<circ> rec_seq) rs = [log_next (log_of ops (fst x)) ..< log_next (log_of ops (fst x)) + length rs]"
    using all by blast
  show "sorted (unat (base_sec (meta (fst x))) # map (unat \<circ> rec_ts) rs @ [unat (base_sec (meta (fst y)))])"
    using all by blast
qed

text \<open>The store of store.c over any NVS that keeps its contract is a durable log.\<close>

interpretation flash: durable_log
  "\<lambda>x. log_of ops (fst x)" "\<lambda>x. unat (base_sec (meta (fst x)))" "store_step ops"
  "\<lambda>x. nvs_contract ops view \<and> node_inv view x"
  for ops :: "'f nvs_ops" and view :: "'f \<Rightarrow> nat \<Rightarrow> bytes option"
  by unfold_locales (auto simp only: step_inv')


section \<open>A store in memory\<close>

text \<open>An NVS that never fails, holding its entries in a map: the contract can be met.\<close>

definition mem_nvs :: "(nat \<Rightarrow> bytes option) nvs_ops" where
  "mem_nvs =
     \<lparr>nvs_mount = (\<lambda>g f. (0, f)),
      nvs_clear = (\<lambda>f. (0, \<lambda>k. None)),
      nvs_read = (\<lambda>f k len. case f k of None \<Rightarrow> (- ENOENT, []) | Some d \<Rightarrow> (int (length d), take len d)),
      nvs_write = (\<lambda>f k d. (int (length d), f(k := Some d)))\<rparr>"

lemma mem_nvs_sel [simp]:
  "nvs_mount mem_nvs g f = (0, f)" "nvs_clear mem_nvs f = (0, \<lambda>k. None)"
  "nvs_read mem_nvs f k len = (case f k of None \<Rightarrow> (- ENOENT, []) | Some d \<Rightarrow> (int (length d), take len d))"
  "nvs_write mem_nvs f k d = (int (length d), f(k := Some d))"
  by (simp_all add: mem_nvs_def)

lemma mem_nvs_contract: "nvs_contract mem_nvs (\<lambda>f. f)"
  by (auto simp: nvs_contract_def nvs_reads_def nvs_writes_def nvs_mounts_def split: option.splits)

definition good_board :: board where
  "good_board = \<lparr>flash_ready = True, page_info_err = 0, page_size = 4096\<rparr>"

definition mem_boot :: "(nat \<Rightarrow> bytes option) store" where
  "mem_boot = \<lparr>fs = (\<lambda>k. None)(2 := Some (le16 NVS_FORMAT), 3 := Some (le32 0),
                   1 := Some (meta_image \<lparr>next_seq = 0, base_sec = 0\<rparr>)),
               meta = \<lparr>next_seq = 0, base_sec = 0\<rparr>, boot_offset = 0, floor_seq = 0\<rparr>"

lemma mem_init: "store_init mem_nvs good_board (store_boot (\<lambda>k. None)) = (0, mem_boot)"
  by (simp add: store_init_def good_board_def store_boot_def read_meta_def read_format_def
      NVS_FORMAT_def store_reformat_def mem_boot_def le16_def of_le16_def)

text \<open>The first record of the device, thirty-one seconds after boot.\<close>

definition mem_one :: "sntl_record \<times> (nat \<Rightarrow> bytes option) store" where
  "mem_one = snd (store_append mem_nvs 31000 mem_boot zero_record)"

lemma mem_append: "store_append mem_nvs 31000 mem_boot zero_record = (0, fst mem_one, snd mem_one)"
  by (simp add: mem_one_def store_append_def Let_def)

lemma mem_in_range: "in_range mem_boot 31000"
  by (simp add: in_range_def mem_boot_def)

lemma mem_step: "store_step mem_nvs (mem_boot, 0) [fst mem_one] (snd mem_one, 31000)"
  by (rule step_append [OF _ mem_in_range mem_append]) simp

lemma mem_ok: "store_ok mem_boot"
  by (simp add: store_ok_def mem_boot_def)

section \<open>What store.c promises\<close>

lemma fresh_init:
  assumes c: "nvs_contract ops view" and e: "\<forall>k. view f k = None"
    and i: "store_init ops bd (store_boot f) = (0, s)"
  shows "meta s = \<lparr>next_seq = 0, base_sec = 0\<rparr>" and "node_inv view (s, 0)" and "view (fs s) (slot seq) = None"
proof -
  from i obtain f1 where m: "nvs_mount ops (geometry bd) f = (0, f1)"
    and re: "read_format ops f1 \<noteq> NVS_FORMAT \<Longrightarrow>
       \<exists>s3. store_reformat ops (geometry bd) ((store_boot f)\<lparr>fs := f1, meta := read_meta ops f1\<rparr>) = (0, s3) \<and>
            s = s3\<lparr>boot_offset := base_sec (meta s3)\<rparr>"
    by (rule init_mounted) (auto simp: store_boot_def)
  have v: "view f1 k = None" for k using e nvs_mount_view [OF c m] by simp
  have "read_format ops f1 \<noteq> NVS_FORMAT"
    using read_format_absent [OF c v] by (simp add: NVS_FORMAT_def)
  then obtain s3 where r: "store_reformat ops (geometry bd)
        ((store_boot f)\<lparr>fs := f1, meta := \<lparr>next_seq = 0, base_sec = 0\<rparr>\<rparr>) = (0, s3)"
    and s: "s = s3\<lparr>boot_offset := base_sec (meta s3)\<rparr>"
    using re read_meta_absent [OF c v] by auto
  show "meta s = \<lparr>next_seq = 0, base_sec = 0\<rparr>" using reformat_ok(1) [OF c r] s by simp
  then show "node_inv view (s, 0)"
    using reformat_ok(2,3) [OF c r] reformat_ok(1) [OF c r] s by (simp add: node_inv_def persisted_def)
  show "view (fs s) (slot seq) = None" using reformat_ok(4) [OF c r, of "slot seq"] s by simp
qed

lemma store_run_facts:
  assumes "nvs_contract ops view" and "\<forall>k. view f k = None"
    and "store_init ops bd (store_boot f) = (0, s)"
    and "runs (store_step ops) (s, 0) rs (t, up)"
  shows "map (unat \<circ> rec_seq) rs = [0 ..< length rs] \<and> unat (store_next_seq t) = length rs \<and>
    sorted (map (unat \<circ> rec_ts) rs) \<and>
    (\<forall>i < length rs. store_lookup ops t (rec_seq (rs ! i)) =
       (if length rs \<le> i + STORE_CAPACITY then Some (rs ! i) else None))"
proof -
  note fi = fresh_init [OF assms(1-3)]
  have inv: "nvs_contract ops view \<and> node_inv view (s, 0)" using assms(1) fi by simp
  have z: "log_next (log_of ops s) = 0" using fi by (simp add: log_of_def)
  have seqs: "map (unat \<circ> rec_seq) rs = [0 ..< length rs]"
    using flash.run_seq [OF assms(4) inv] z by simp
  have nx: "unat (next_seq (meta t)) = length rs"
  proof -
    have "log_next (log_of ops t) = log_next (log_of ops s) + length rs"
      using arg_cong [OF flash.run_log [OF assms(4) inv], of log_next] by simp
    then show ?thesis using z by (simp add: log_of_def)
  qed
  have held: "store_lookup ops t (rec_seq (rs ! i)) =
      (if length rs \<le> i + 2880 then Some (rs ! i) else None)" if i: "i < length rs" for i
  proof -
    have u: "unat (rec_seq (rs ! i)) = i"
      using arg_cong [OF seqs, of "\<lambda>l. l ! i"] i by simp
    then have lt: "i < 2 ^ 32" using unsigned_less [where ?'a = nat, of "rec_seq (rs ! i)"] by simp
    have "rec_seq (rs ! i) = of_nat i" using u lt unat_of_nat_small [of i, where 'a = 32] by (simp add: word_unat_eq_iff)
    then show ?thesis
      using flash.run_held [OF assms(4) inv i] z lt by (simp add: log_of_def)
  qed
  have "sorted (map (unat \<circ> rec_ts) rs)"
    using flash.run_clock [OF assms(4) inv] by (simp only: sorted_append sorted_simps)
  then show ?thesis
    unfolding store_next_seq_def capacity using seqs nx held by blast
qed

text \<open>
  Whatever happened since the first boot, a slot never holds a record that was not appended under
  the number it carries.
\<close>

lemma slots_hold_log:
  assumes c: "nvs_contract ops view" and "\<forall>k. view f k = None" and "store_init ops bd (store_boot f) = (0, s)"
    and "runs (store_step ops) (s, 0) rs x"
  shows "slot_record (view (fs (fst x)) (slot seq)) seq = Some r \<Longrightarrow> unat seq < length rs \<and> r = rs ! unat seq"
  using assms(4)
proof (induction "(s, 0 :: int)" rs x arbitrary: r rule: runs.induct)
  case runs_refl
  then show ?case using fresh_init(3) [OF assms(1-3), of seq] by (simp add: slot_record_def)
next
  case (runs_step xs t ys u)
  have inv: "nvs_contract ops view \<and> node_inv view (s, 0)" using c fresh_init(2) [OF assms(1-3)] by simp
  have nt: "node_inv view t" using flash.run_inv [OF runs_step(1) inv] by simp
  have next_t: "unat (next_seq (meta (fst t))) = length xs"
    using store_run_facts [OF assms(1-3), of xs "fst t" "snd t"] runs_step(1) by (simp add: store_next_seq_def)
  from runs_step(3) show ?case
  proof cases
    case (step_append up up' v q q' v')
    note ap = append_cases [OF c step_append(6)]
    show ?thesis
    proof (cases "slot seq = slot (next_seq (meta v))")
      case True
      then have "r = q'" "rec_seq q' = seq" using runs_step.prems step_append(3) ap(5) by (auto split: if_splits)
      then have "seq = next_seq (meta v)" using ap(1) by simp
      then show ?thesis using next_t step_append \<open>r = q'\<close> by simp
    next
      case False
      then have "slot_record (view (fs v) (slot seq)) seq = Some r"
        using runs_step.prems step_append(3) ap(5) by simp
      then show ?thesis using runs_step(2) [of r] step_append by (simp add: nth_append)
    qed
  next
    case (step_reboot bd' v v' up)
    have "persisted view v" using nt step_reboot(1) by (simp add: node_inv_def)
    from init_reboot(4) [OF c this step_reboot(4)] show ?thesis
      using runs_step step_reboot by simp
  qed
qed

text \<open>
  C7: from the first boot on erased flash, through any sequence of appends and reboots, the
  records get the sequence numbers 0, 1, 2, ... without a gap or a repeat, their timestamps
  never go backwards, and at the end each of the last 2880 records reads back as it was
  written while older ones are refused.
\<close>

theorem store_run_correct:
  assumes "nvs_contract ops view" and "\<forall>k. view f k = None"
    and "store_init ops bd (store_boot f) = (0, s)"
    and "runs (store_step ops) (s, 0) rs (t, up)"
  shows "map (unat \<circ> rec_seq) rs = [0 ..< length rs] \<and> unat (store_next_seq t) = length rs \<and>
    sorted (map (unat \<circ> rec_ts) rs) \<and>
    (\<forall>i < length rs. store_lookup ops t (rec_seq (rs ! i)) =
       (if length rs \<le> i + STORE_CAPACITY then Some (rs ! i) else None))"
  by (rule store_run_facts [OF assms])

theorem store_run_correct_witness:
  "map (unat \<circ> rec_seq) [fst mem_one] = [0] \<and> store_lookup mem_nvs (snd mem_one) 0 = Some (fst mem_one)"
proof -
  have seq: "rec_seq (fst mem_one) = 0" by (simp add: mem_one_def store_append_def Let_def mem_boot_def)
  have "runs (store_step mem_nvs) (mem_boot, 0) [fst mem_one] (snd mem_one, 31000)"
    using runs_one [of "store_step mem_nvs"] mem_step by blast
  from store_run_correct [OF mem_nvs_contract _ mem_init this] show ?thesis
    using seq by simp
qed


text \<open>
  A successful append implements the abstract log: the new record is readable under the
  number it was given, the record 2880 before it is not any more, and every other record
  reads as before.
\<close>

theorem store_append_refines:
  assumes "nvs_contract ops view" and "store_append ops up s r = (0, r', s')" and "store_ok s"
  shows "log_of ops s' = log_append (log_of ops s) r' \<and>
         r' = r\<lparr>rec_seq := store_next_seq s, rec_ts := store_now up s\<rparr>"
  using log_append_refines [OF assms(1,1,2,3)] append_cases(1) [OF assms(1,2)]
  by (simp add: store_next_seq_def)

theorem store_append_refines_witness:
  "log_of mem_nvs (snd mem_one) = log_append (log_of mem_nvs mem_boot) (fst mem_one)"
  using store_append_refines [OF mem_nvs_contract mem_append mem_ok] by blast

text \<open>
  C23: the range check of a read is made without the lock. Whatever append slips in before the
  read, the read either fails with -ENOENT or returns the record that was there at the check,
  and it fails exactly if there was none or the append recycled its slot.
\<close>

theorem store_get_race:
  assumes "nvs_contract ops view" and "store_ok s" and "store_get_check s seq"
    and "store_append ops up s r = (0, r', s')"
  shows "case store_get_read ops s' seq out of (e, x) \<Rightarrow>
           (e = 0 \<or> e = - ENOENT) \<and>
           (e = 0 \<longleftrightarrow> unat seq + STORE_CAPACITY \<noteq> unat (store_next_seq s) \<and> store_lookup ops s seq \<noteq> None) \<and>
           (e = 0 \<longrightarrow> store_lookup ops s seq = Some x)"
proof -
  let ?n = "next_seq (meta s)"
  note ap = append_cases [OF assms(1,4)]
  obtain e x where g: "store_get_read ops s' seq out = (e, x)" by fastforce
  have e: "e = 0 \<or> e = - ENOENT"
    using g by (auto simp: store_get_read_def Let_def split: prod.splits if_splits)
  have read: "(if e = 0 then Some x else None) = slot_record (view (fs s') (slot seq)) seq"
    using get_read_slot [OF assms(1), of s' seq out] g by simp
  have old: "store_lookup ops s seq = slot_record (view (fs s) (slot seq)) seq"
    using assms(3) by (simp add: lookup_eq [OF assms(1)])
  have chk: "unat seq < unat ?n" "unat ?n \<le> unat seq + 2880"
    using assms(3) by (auto simp: check_nat)
  show ?thesis
  proof (cases "unat seq + 2880 = unat ?n")
    case True
    have "slot seq = slot ?n" by (simp add: slot_nat flip: True)
    then have "view (fs s') (slot seq) = Some (record_image r')" using ap(5) by simp
    moreover have "rec_seq r' \<noteq> seq" using ap(1) chk by (auto simp: word_unat_eq_iff)
    ultimately have "e \<noteq> 0" using read by (auto split: if_splits)
    then show ?thesis using g e True by (simp add: store_next_seq_def)
  next
    case False
    then have "slot seq \<noteq> slot ?n" using chk by (intro slot_distinct) auto
    then have "view (fs s') (slot seq) = view (fs s) (slot seq)" using ap(5) by simp
    then have "(if e = 0 then Some x else None) = store_lookup ops s seq" using read old by simp
    then show ?thesis using g e False
      by (cases "store_lookup ops s seq") (auto simp: store_next_seq_def split: if_splits)
  qed
qed

theorem store_get_race_witness:
  "fst (store_get_read mem_nvs
         (snd (snd (store_append mem_nvs 61000 (snd mem_one) zero_record))) 0 zero_record) = 0"
proof -
  have m: "meta (snd mem_one) = \<lparr>next_seq = 1, base_sec = 31\<rparr>" "floor_seq (snd mem_one) = 0"
    by (simp_all add: mem_one_def store_append_def Let_def mem_boot_def store_now_def cdiv_def)
  have chk: "store_get_check (snd mem_one) 0" using m by (simp add: check_nat)
  moreover have "store_ok (snd mem_one)" using m by (simp add: store_ok_def)
  moreover have "rec_seq (fst mem_one) = 0" by (simp add: mem_one_def store_append_def Let_def mem_boot_def)
  then have "store_lookup mem_nvs (snd mem_one) 0 = Some (fst mem_one)"
    using appended_lookup [OF mem_nvs_contract append_appended [OF mem_nvs_contract mem_append] mem_ok, of 0] by (simp add: mem_boot_def)
  moreover obtain r' s' where ap: "store_append mem_nvs 61000 (snd mem_one) zero_record = (0, r', s')"
    by (simp add: store_append_def Let_def)
  ultimately show ?thesis
    using store_get_race [OF mem_nvs_contract, of "snd mem_one" 0 61000 zero_record r' s' zero_record] m
    by (auto simp: store_next_seq_def ap split: prod.splits)
qed


lemma flash_fields:
  assumes "nvs_contract ops view" and "store_append ops up s r = (e, r', s')"
  shows "view (fs s') \<in> {view (fs s), (view (fs s))(slot (next_seq (meta s)) := Some (record_image r')),
           (view (fs s))(slot (next_seq (meta s)) := Some (record_image r'),
              NVS_ID_META := Some (meta_image \<lparr>next_seq = next_seq (meta s) + 1, base_sec = rec_ts r'\<rparr>))}"
proof -
  let ?r = "r\<lparr>rec_seq := next_seq (meta s), rec_ts := store_now up s\<rparr>"
  let ?m = "\<lparr>next_seq = next_seq (meta s) + 1, base_sec = rec_ts ?r\<rparr>"
  obtain e1 f1 where w1: "nvs_write ops (fs s) (slot (rec_seq ?r)) (record_image ?r) = (e1, f1)"
    by fastforce
  obtain e2 f2 where w2: "nvs_write ops f1 NVS_ID_META (meta_image ?m) = (e2, f2)"
    by fastforce
  show ?thesis
  proof (cases "e1 < 0")
    case True
    then have "fs s' = f1 \<and> r' = ?r" using assms(2) w1 by (auto simp: store_append_def Let_def)
    then show ?thesis using nvs_write_fail [OF assms(1) w1 True] by auto
  next
    case False
    then have "fs s' = f2 \<and> r' = ?r"
      using assms(2) w1 w2 by (auto simp: store_append_def Let_def split: if_splits)
    moreover have "view f1 = (view (fs s))(slot (next_seq (meta s)) := Some (record_image ?r))"
      using nvs_write_ok [OF assms(1) w1] False by simp
    moreover have "view f2 = view f1 \<or> view f2 = (view f1)(NVS_ID_META := Some (meta_image ?m))"
      by (rule nvs_write_any [OF assms(1) w2])
    ultimately show ?thesis by auto
  qed
qed

text \<open>The log without the record whose slot the next append recycles.\<close>

definition drop_oldest :: "log \<Rightarrow> log" where
  "drop_oldest l = l\<lparr>log_held := \<lambda>k. if k + STORE_CAPACITY = log_next l then None else log_held l k\<rparr>"

lemma half_written:
  assumes c: "nvs_contract ops view" and m: "meta t = meta s" and fl: "floor_seq t = floor_seq s"
    and r: "rec_seq r' = next_seq (meta s)"
    and v: "view (fs t) = (view (fs s))(slot (next_seq (meta s)) := Some (record_image r'))"
  shows "log_of ops t = drop_oldest (log_of ops s)"
proof -
  let ?n = "next_seq (meta s)"
  have look: "store_lookup ops t seq =
      (if unat seq + 2880 = unat ?n then None else store_lookup ops s seq)" for seq
  proof (cases "store_get_check s seq")
    case True
    then have chk: "unat seq < unat ?n" "unat ?n \<le> unat seq + 2880" by (auto simp: check_nat)
    then have "slot seq \<noteq> slot ?n" if "unat seq + 2880 \<noteq> unat ?n"
      using that by (intro slot_distinct) auto
    moreover have "slot seq = slot ?n" if "unat seq + 2880 = unat ?n"
      by (simp add: slot_nat flip: that)
    ultimately show ?thesis
      using True chk m fl v r by (auto simp: lookup_eq [OF c] check_nat)
  next
    case False
    moreover have "store_get_check t seq = store_get_check s seq" using m fl by (simp add: check_nat)
    ultimately show ?thesis by (simp add: lookup_eq [OF c])
  qed
  have "unat (of_nat k :: u32) = k" if "k < 2 ^ 32" for k
    using that by (intro unat_of_nat_small) simp
  with look have "store_lookup ops t (of_nat k) =
      (if k + 2880 = unat ?n then None else store_lookup ops s (of_nat k))" if "k < 2 ^ 32" for k
    using that by metis
  then show ?thesis by (auto simp: log_of_def drop_oldest_def m fun_eq_iff)
qed

text \<open>
  C12: when an append reports an error, or power is lost after either of its two flash writes,
  a reboot of the device finds either the log with the record appended, or the old log, at
  worst without the oldest record, whose slot was being overwritten.
\<close>

theorem append_power_loss:
  assumes "nvs_contract ops view" and "persisted view s" and "store_ok s"
    and "store_append ops up s r = (e, r', s')"
    and "f = fs s' \<or> f = snd (nvs_write ops (fs s) (slot (store_next_seq s)) (record_image r'))"
    and "store_init ops bd (store_boot f) = (0, t)"
  shows "log_of ops t \<in> {log_of ops s, drop_oldest (log_of ops s), log_append (log_of ops s) r'}"
proof -
  let ?n = "next_seq (meta s)" and ?m = "\<lparr>next_seq = next_seq (meta s) + 1, base_sec = rec_ts r'\<rparr>"
  have r': "rec_seq r' = ?n" using append_cases(1) [OF assms(1,4)] by simp
  obtain e1 f1 where w: "nvs_write ops (fs s) (slot ?n) (record_image r') = (e1, f1)" by fastforce
  have "view f1 = view (fs s) \<or> view f1 = (view (fs s))(slot ?n := Some (record_image r'))"
    by (rule nvs_write_any [OF assms(1) w])
  then consider (none) "view f = view (fs s)"
    | (half) "view f = (view (fs s))(slot ?n := Some (record_image r'))"
    | (all) "view f = (view (fs s))(slot ?n := Some (record_image r'), NVS_ID_META := Some (meta_image ?m))"
    using assms(5) flash_fields [OF assms(1,4)] w by (auto simp: store_next_seq_def)
  then show ?thesis
  proof cases
    case none
    then have "persisted view (s\<lparr>fs := f\<rparr>)" using assms(2) by (simp add: persisted_def)
    from init_reboot [OF assms(1) this, of bd t] show ?thesis
      using assms(6) none lookup_cong [OF assms(1), of t s] by simp
  next
    case half
    then have "persisted view (s\<lparr>fs := f\<rparr>)" using assms(2) by (simp add: persisted_def)
    from init_reboot [OF assms(1) this, of bd t] show ?thesis
      using assms(6) half half_written [OF assms(1) _ _ r', of t] by simp
  next
    case all
    then have "persisted view (s\<lparr>fs := f, meta := ?m\<rparr>)" using assms(2) by (auto simp: persisted_def)
    from init_reboot [OF assms(1) this, of bd t] have "appended view s r' t"
      using assms(6) all r' by (simp add: appended_def)
    then show ?thesis using appended_refines [OF assms(1) _ assms(3)] by simp
  qed
qed


lemma mem_init_ok: "\<exists>t. store_init mem_nvs good_board s = (0, t)"
  by (simp add: store_init_def good_board_def store_reformat_def Let_def)

theorem append_power_loss_witness:
  "\<exists>t. store_init mem_nvs good_board
         (store_boot (snd (nvs_write mem_nvs (fs mem_boot) 256 (record_image (fst mem_one))))) = (0, t) \<and>
       log_of mem_nvs t \<in> {log_of mem_nvs mem_boot, drop_oldest (log_of mem_nvs mem_boot),
                           log_append (log_of mem_nvs mem_boot) (fst mem_one)}"
proof -
  let ?f = "snd (nvs_write mem_nvs (fs mem_boot) 256 (record_image (fst mem_one)))"
  obtain t where t: "store_init mem_nvs good_board (store_boot ?f) = (0, t)"
    using mem_init_ok by blast
  have "persisted (\<lambda>f. f) mem_boot" by (simp add: persisted_def mem_boot_def)
  moreover have "slot (store_next_seq mem_boot) = 256"
    by (simp add: slot_nat store_next_seq_def mem_boot_def)
  ultimately show ?thesis
    using append_power_loss [OF mem_nvs_contract _ mem_ok mem_append _ t] t by fastforce
qed

text \<open>
  C24: when the flash holds records of another format, the boot erases them but keeps the
  sequence counter and the clock, and from then on claims none of the erased records: the
  oldest number is the next one and every lookup is refused.
\<close>

theorem format_change:
  assumes "nvs_contract ops view" and "view f NVS_ID_META = Some (meta_image m)"
    and "view f NVS_ID_FORMAT = Some (le16 x)" and "x \<noteq> NVS_FORMAT"
    and "store_init ops bd (store_boot f) = (0, s)"
  shows "store_next_seq s = next_seq m \<and> store_oldest_seq s = next_seq m \<and>
         boot_offset s = base_sec m \<and> (\<forall>seq. store_lookup ops s seq = None) \<and> node_inv view (s, 0)"
proof -
  from assms(5) obtain f1 where mt: "nvs_mount ops (geometry bd) f = (0, f1)"
    and re: "read_format ops f1 \<noteq> NVS_FORMAT \<Longrightarrow>
       \<exists>s3. store_reformat ops (geometry bd) ((store_boot f)\<lparr>fs := f1, meta := read_meta ops f1\<rparr>) = (0, s3) \<and>
            s = s3\<lparr>boot_offset := base_sec (meta s3)\<rparr>"
    by (rule init_mounted) (auto simp: store_boot_def)
  have v: "view f1 = view f" by (rule nvs_mount_view [OF assms(1) mt])
  have "read_format ops f1 \<noteq> NVS_FORMAT" and "read_meta ops f1 = m"
    using read_format_hit [OF assms(1), of f1 x] read_meta_hit [OF assms(1), of f1 m] assms v by simp_all
  then obtain s3 where r: "store_reformat ops (geometry bd)
        ((store_boot f)\<lparr>fs := f1, meta := m\<rparr>) = (0, s3)"
    and s: "s = s3\<lparr>boot_offset := base_sec (meta s3)\<rparr>"
    using re by auto
  note rf = reformat_ok [OF assms(1) r]
  have f: "meta s = m" "floor_seq s = next_seq m" "persisted view s" "boot_offset s = base_sec m"
    using rf s by (simp_all add: persisted_def)
  then have "\<not> store_get_check s seq" for seq by (simp add: check_nat)
  then have "store_lookup ops s seq = None" for seq by (simp add: lookup_eq [OF assms(1)])
  moreover have "store_oldest_seq s = next_seq m"
    using f by (simp add: word_unat_eq_iff oldest_nat)
  ultimately show ?thesis using f by (simp add: store_next_seq_def node_inv_def)
qed

theorem format_change_witness:
  "\<exists>s. store_init mem_nvs good_board
         (store_boot ((\<lambda>k. None)(1 := Some (meta_image \<lparr>next_seq = 7, base_sec = 210\<rparr>), 2 := Some (le16 16)))) = (0, s)
       \<and> store_next_seq s = 7 \<and> store_oldest_seq s = 7"
proof -
  let ?f = "(\<lambda>k. None)(1 := Some (meta_image \<lparr>next_seq = 7, base_sec = 210\<rparr>), 2 := Some (le16 16)) :: nat \<Rightarrow> bytes option"
  obtain s where s: "store_init mem_nvs good_board (store_boot ?f) = (0, s)" using mem_init_ok by blast
  have "(16 :: u16) \<noteq> NVS_FORMAT" by (simp add: NVS_FORMAT_def)
  from format_change [OF mem_nvs_contract, of ?f "\<lparr>next_seq = 7, base_sec = 210\<rparr>", OF _ _ this s]
  show ?thesis using s by auto
qed

text \<open>
  The format change is not safe against power loss. The counter is written back only after
  the erase, so when power fails in between, the next boot starts numbering at 0 again,
  whatever the counter was, and its records collide with numbers already used.
\<close>

theorem interrupted_reformat_restarts_seq:
  assumes "nvs_contract ops view" and "nvs_clear ops f = (0, f')"
    and "store_init ops bd (store_boot f') = (0, s)"
  shows "store_next_seq s = 0 \<and> store_now 0 s = 0"
proof -
  have "\<forall>k. view f' k = None" using nvs_clear_view [OF assms(1,2)] by blast
  note fi = fresh_init [OF assms(1) this assms(3)]
  have "boot_offset s = base_sec (meta s)"
    using assms(3) by (auto simp: store_init_def Let_def split: if_splits prod.splits)
  then show ?thesis using fi by (simp add: store_next_seq_def store_now_def cdiv_def)
qed

theorem interrupted_reformat_restarts_seq_witness:
  "\<exists>f s. f 1 = Some (meta_image \<lparr>next_seq = 7, base_sec = 210\<rparr>) \<and>
     store_init mem_nvs good_board (store_boot (snd (nvs_clear mem_nvs f))) = (0, s) \<and> store_next_seq s = 0"
proof -
  let ?f = "(\<lambda>k. None)(1 := Some (meta_image \<lparr>next_seq = 7, base_sec = 210\<rparr>), 2 := Some (le16 16)) :: nat \<Rightarrow> bytes option"
  obtain s where s: "store_init mem_nvs good_board (store_boot (\<lambda>k. None)) = (0, s)" using mem_init_ok by blast
  have "store_next_seq s = 0"
    using interrupted_reformat_restarts_seq [OF mem_nvs_contract mem_nvs_sel(2) s] by blast
  then show ?thesis using s by (intro exI [of _ ?f] exI [of _ s]) simp
qed

end
