(* ===== verification/Window.thy ===== *)
theory Window
  imports Prelude
begin

text \<open>
  The interface between a sensor and the main loop: a sensor handles events, which may give
  it samples, and hands over a window of what it saw when asked, starting the next one. Both
  sensors of the firmware (sen5x.c, radar.c) have this shape. The lemmas here say that what
  is handed over, window after window, is the summary of the samples of that window alone.
\<close>

text \<open>The samples a list of events gives, from a state on.\<close>

fun seen :: "('e \<Rightarrow> 's \<Rightarrow> 's) \<Rightarrow> ('e \<Rightarrow> 's \<Rightarrow> 'x list) \<Rightarrow> 'e list \<Rightarrow> 's \<Rightarrow> 'x list" where
  "seen handle got [] s = []"
| "seen handle got (e # es) s = got e s @ seen handle got es (handle e s)"

text \<open>Several windows in a row: the events of each, its samples and what it hands over.\<close>

fun windows :: "('e \<Rightarrow> 's \<Rightarrow> 's) \<Rightarrow> ('s \<Rightarrow> 'w \<times> 's) \<Rightarrow> 'e list list \<Rightarrow> 's \<Rightarrow> 'w list" where
  "windows handle hand [] s = []"
| "windows handle hand (es # ess) s =
     (let (w, t) = hand (fold handle es s) in w # windows handle hand ess t)"

fun samples ::
  "('e \<Rightarrow> 's \<Rightarrow> 's) \<Rightarrow> ('e \<Rightarrow> 's \<Rightarrow> 'x list) \<Rightarrow> ('s \<Rightarrow> 'w \<times> 's) \<Rightarrow> 'e list list \<Rightarrow> 's \<Rightarrow> 'x list list" where
  "samples handle got hand [] s = []"
| "samples handle got hand (es # ess) s =
     seen handle got es s # samples handle got hand ess (snd (hand (fold handle es s)))"

text \<open>The states the windows are taken in, each after the last event of its window.\<close>

fun takes :: "('e \<Rightarrow> 's \<Rightarrow> 's) \<Rightarrow> ('s \<Rightarrow> 'w \<times> 's) \<Rightarrow> 'e list list \<Rightarrow> 's \<Rightarrow> 's list" where
  "takes handle hand [] s = []"
| "takes handle hand (es # ess) s =
     fold handle es s # takes handle hand ess (snd (hand (fold handle es s)))"

lemma length_takes [simp]: "length (takes handle hand ess s) = length ess"
  by (induction ess arbitrary: s) simp_all

lemma windows_takes: "windows handle hand ess s = map (\<lambda>u. fst (hand u)) (takes handle hand ess s)"
  by (induction ess arbitrary: s) (simp_all add: case_prod_beta Let_def)

lemma length_windows [simp]: "length (windows handle hand ess s) = length ess"
  by (induction ess arbitrary: s) (simp_all add: case_prod_beta Let_def)

lemma length_samples [simp]: "length (samples handle got hand ess s) = length ess"
  by (induction ess arbitrary: s) simp_all

locale windowed =
  fixes handle :: "'e \<Rightarrow> 's \<Rightarrow> 's" and got :: "'e \<Rightarrow> 's \<Rightarrow> 'x list"
    and hand :: "'s \<Rightarrow> 'w \<times> 's"
    and rep :: "'s \<Rightarrow> 'x list \<Rightarrow> bool" and meets :: "'x list \<Rightarrow> 'w \<Rightarrow> bool"
  assumes handle_rep: "rep s xs \<Longrightarrow> rep (handle e s) (xs @ got e s)"
    and take_rep: "rep s xs \<Longrightarrow> hand s = (w, t) \<Longrightarrow> meets xs w \<and> rep t []"
begin

lemma fold_rep: "rep s xs \<Longrightarrow> rep (fold handle es s) (xs @ seen handle got es s)"
proof (induction es arbitrary: s xs)
  case (Cons e es)
  then show ?case using handle_rep [OF Cons.prems, of e] by fastforce
qed simp

lemma window_meets:
  "rep s [] \<Longrightarrow> hand (fold handle es s) = (w, t) \<Longrightarrow> meets (seen handle got es s) w \<and> rep t []"
  using fold_rep [of s "[]" es] take_rep by fastforce

lemma takes_rep:
  "rep s [] \<Longrightarrow> list_all2 rep (takes handle hand ess s) (samples handle got hand ess s)"
proof (induction ess arbitrary: s)
  case (Cons es ess)
  obtain w t where t: "hand (fold handle es s) = (w, t)" by fastforce
  then show ?case
    using fold_rep [OF Cons.prems, of es] window_meets [OF Cons.prems t] Cons.IH [of t] by simp
qed simp

lemma windows_meet:
  "rep s [] \<Longrightarrow> list_all2 meets (samples handle got hand ess s) (windows handle hand ess s)"
proof (induction ess arbitrary: s)
  case (Cons es ess)
  obtain w t where t: "hand (fold handle es s) = (w, t)" by fastforce
  then show ?case using window_meets [OF Cons.prems t] Cons.IH [of t] by simp
qed simp

end

end
