(* ===== verification/Sen5x.thy ===== *)
theory Sen5x
  imports Crc Window
begin

text \<open>
  src/src/sen5x.h and src/src/sen5x.c: the air-quality sensor on the I2C bus. The bus and the
  sensor behind it are a parameter: the record \<open>i2c_ops\<close> over a state of the bus of any type,
  with sleeping as an operation on that state, because time passes for the sensor too. Proved
  here: a word damaged on the bus within eight neighbouring bits never passes the checksum, a
  window is the peak of the particulate samples and the last value of the others, and the
  window handed over is marked dead exactly when nothing was read or the fan or laser failed.
\<close>

section \<open>Constants and state\<close>

abbreviation (input) CMD_START_MEASUREMENT :: u16 where "CMD_START_MEASUREMENT \<equiv> 0x0021"
abbreviation (input) CMD_READ_MEASURED :: u16 where "CMD_READ_MEASURED \<equiv> 0x03C4"
abbreviation (input) CMD_READ_PRODUCT_NAME :: u16 where "CMD_READ_PRODUCT_NAME \<equiv> 0xD014"
abbreviation (input) CMD_READ_STATUS :: u16 where "CMD_READ_STATUS \<equiv> 0xD206"
abbreviation (input) MAX_WORDS :: nat where "MAX_WORDS \<equiv> 16"
abbreviation (input) SEN5X_UNKNOWN_U :: u16 where "SEN5X_UNKNOWN_U \<equiv> 0xFFFF"
abbreviation (input) SEN5X_UNKNOWN_S :: i16 where "SEN5X_UNKNOWN_S \<equiv> 0x7FFF"

definition STATUS_FATAL :: u32 where
  "STATUS_FATAL = push_bit 4 1 OR push_bit 5 1"

record sen5x_window =
  aq_pm25 :: u16
  aq_pm10 :: u16
  aq_temp :: i16
  aq_rh :: i16
  aq_voc :: i16
  aq_alive :: bool

text \<open>The I2C controller and the kernel's sleep; a read returns the error and the buffer.\<close>

record 'b i2c_ops =
  i2c_ready :: "'b \<Rightarrow> bool"
  i2c_write :: "'b \<Rightarrow> bytes \<Rightarrow> int \<times> 'b"
  i2c_read :: "'b \<Rightarrow> nat \<Rightarrow> int \<times> bytes \<times> 'b"
  msleep :: "nat \<Rightarrow> 'b \<Rightarrow> 'b"

text \<open>The file-scope variables of sen5x.c, with the state of the bus.\<close>

record 'b sen5x =
  sx_bus :: 'b
  sx_running :: bool
  sx_acc :: sen5x_window

section \<open>Operations\<close>

definition crc8_shift :: "u8 \<Rightarrow> u8" where
  "crc8_shift crc = (if crc AND 0x80 \<noteq> 0 then push_bit 1 crc XOR 0x31 else push_bit 1 crc)"

definition crc8 :: "bytes \<Rightarrow> u8" where
  "crc8 d = foldl (\<lambda>crc i. (crc8_shift ^^ 8) (crc XOR d ! i)) 0xFF [0..<2]"

definition send_cmd :: "'b i2c_ops \<Rightarrow> u16 \<Rightarrow> 'b \<Rightarrow> int \<times> 'b" where
  "send_cmd ops c b = i2c_write ops b [ucast (drop_bit 8 c), ucast c]"

text \<open>The loop over the words; a bad checksum leaves the words before it in \<open>out\<close>.\<close>

fun words_loop :: "bytes \<Rightarrow> nat \<Rightarrow> nat \<Rightarrow> u16 list \<Rightarrow> int \<times> u16 list" where
  "words_loop raw i 0 out = (0, out)"
| "words_loop raw i (Suc k) out =
     (if crc8 [raw ! (i * 3), raw ! (i * 3 + 1)] \<noteq> raw ! (i * 3 + 2) then (- EIO, out)
      else words_loop raw (Suc i) k
             (out[i := push_bit 8 (ucast (raw ! (i * 3))) OR ucast (raw ! (i * 3 + 1))]))"

definition read_words ::
  "'b i2c_ops \<Rightarrow> u16 \<Rightarrow> u16 list \<Rightarrow> nat \<Rightarrow> 'b \<Rightarrow> int \<times> u16 list \<times> 'b" where
  "read_words ops c out words b =
     (let (err, b) = send_cmd ops c b in
      if err \<noteq> 0 then (err, out, b)
      else let b = msleep ops 20 b;
               (err, raw, b) = i2c_read ops b (words * 3) in
      if err \<noteq> 0 then (err, out, b)
      else let (err, out) = words_loop raw 0 words out in (err, out, b))"

definition acc_reset :: sen5x_window where
  "acc_reset = \<lparr>aq_pm25 = SEN5X_UNKNOWN_U, aq_pm10 = SEN5X_UNKNOWN_U, aq_temp = SEN5X_UNKNOWN_S,
                aq_rh = SEN5X_UNKNOWN_S, aq_voc = SEN5X_UNKNOWN_S, aq_alive = False\<rparr>"

text \<open>The name printed, if one is, and the bus after it. The terminator ends the name.\<close>

definition print_product_name :: "'b i2c_ops \<Rightarrow> 'b \<Rightarrow> bytes option \<times> 'b" where
  "print_product_name ops b =
     (let (err, w, b) = read_words ops CMD_READ_PRODUCT_NAME (replicate MAX_WORDS 0) MAX_WORDS b in
      if err \<noteq> 0 then (None, b)
      else (Some (takeWhile (\<lambda>c. c \<noteq> 0) (concat (map (\<lambda>x. [ucast (drop_bit 8 x), ucast x]) w))), b))"

definition sen5x_start :: "'b i2c_ops \<Rightarrow> 'b sen5x \<Rightarrow> int \<times> 'b sen5x" where
  "sen5x_start ops s =
     (let s = s\<lparr>sx_acc := acc_reset\<rparr> in
      if \<not> i2c_ready ops (sx_bus s) then (- ENODEV, s)
      else let (_, b) = print_product_name ops (sx_bus s);
               (err, b) = send_cmd ops CMD_START_MEASUREMENT b;
               s = s\<lparr>sx_bus := b\<rparr> in
      if err \<noteq> 0 then (err, s)
      else (0, s\<lparr>sx_bus := msleep ops 50 (sx_bus s), sx_running := True\<rparr>))"

text \<open>What \<open>sen5x_poll\<close> does with the eight words of a good read.\<close>

definition fold_sample :: "sen5x_window \<Rightarrow> u16 list \<Rightarrow> sen5x_window" where
  "fold_sample a w =
     (let a = (if w ! 1 \<noteq> 0xFFFF \<and> (aq_pm25 a = SEN5X_UNKNOWN_U \<or> w ! 1 > aq_pm25 a)
               then a\<lparr>aq_pm25 := w ! 1\<rparr> else a);
          a = (if w ! 3 \<noteq> 0xFFFF \<and> (aq_pm10 a = SEN5X_UNKNOWN_U \<or> w ! 3 > aq_pm10 a)
               then a\<lparr>aq_pm10 := w ! 3\<rparr> else a);
          a = (if w ! 4 \<noteq> 0xFFFF then a\<lparr>aq_rh := w ! 4\<rparr> else a);
          a = (if w ! 5 \<noteq> 0xFFFF then a\<lparr>aq_temp := of_int (cdiv (sint (w ! 5)) 2)\<rparr> else a);
          a = (if w ! 6 \<noteq> 0xFFFF then a\<lparr>aq_voc := w ! 6\<rparr> else a)
      in a\<lparr>aq_alive := True\<rparr>)"

definition sen5x_poll :: "'b i2c_ops \<Rightarrow> 'b sen5x \<Rightarrow> 'b sen5x" where
  "sen5x_poll ops s =
     (if \<not> sx_running s then s
      else let (err, w, b) = read_words ops CMD_READ_MEASURED (replicate 8 0) 8 (sx_bus s);
               s = s\<lparr>sx_bus := b\<rparr> in
      if err \<noteq> 0 then s else s\<lparr>sx_acc := fold_sample (sx_acc s) w\<rparr>)"

definition sen5x_window_take :: "'b i2c_ops \<Rightarrow> 'b sen5x \<Rightarrow> sen5x_window \<times> 'b sen5x" where
  "sen5x_window_take ops s =
     (let s = (if aq_alive (sx_acc s)
               then let (err, st, b) = read_words ops CMD_READ_STATUS (replicate 2 0) 2 (sx_bus s);
                        s = s\<lparr>sx_bus := b\<rparr> in
                    if err = 0
                    then let status = push_bit 16 (ucast (st ! 0)) OR ucast (st ! 1) :: u32 in
                         if status AND STATUS_FATAL \<noteq> 0
                         then s\<lparr>sx_acc := (sx_acc s)\<lparr>aq_alive := False\<rparr>\<rparr> else s
                    else s
               else s)
      in (sx_acc s, s\<lparr>sx_acc := acc_reset\<rparr>))"


section \<open>The checksum\<close>

lemma bit_0x80: "((w :: u8) AND 0x80 \<noteq> 0) = bit w 7"
proof -
  have "(0x80 :: u8) = push_bit 7 1" by (simp add: push_bit_eq_mult)
  then show ?thesis by (simp add: bit_iff_and_push_bit_not_eq_0)
qed

lemma crc8_shift_crc_shift: "crc8_shift = crc_shift 0x31"
  by (rule ext) (simp add: crc8_shift_def crc_shift_def bit_0x80)

interpretation crc8: crc_register "0x31 :: u8"
  by unfold_locales simp

lemma crc8_bits: "crc8 [a, b] = crc_bits 0x31 0xFF (bytes_bits [a, b])"
proof -
  have "[0..<2] = [0, 1 :: nat]" by (simp add: numeral_2_eq_2)
  then show ?thesis by (simp add: crc8_def crc_bits_byte crc8_shift_crc_shift)
qed

text \<open>The test vector of the comment at \<open>crc8\<close>.\<close>

lemma crc8_check_vector: "crc8 [0xBE, 0xEF] = 0x92"
proof -
  have "[0..<2] = [0, 1 :: nat]" by (simp add: numeral_2_eq_2)
  then show ?thesis by (simp add: crc8_def funpow_8 crc8_shift_def)
qed

text \<open>A word with its checksum leaves the register at zero, and nothing else does.\<close>

lemma crc8_residue: "crc8 [a, b] = c \<longleftrightarrow> crc_bits 0x31 0xFF (bytes_bits [a, b, c]) = (0 :: u8)"
proof -
  have z: "crc_bits 0x31 s (byte_bits c) = 0 \<longleftrightarrow> s = c" for s :: u8
  proof
    assume "crc_bits 0x31 s (byte_bits c) = 0"
    moreover have "crc_bits 0x31 c (byte_bits c) = (0 :: u8)"
      by (simp add: crc_bits_byte funpow_8)
    ultimately show "s = c" using crc8.bits_inj by metis
  next
    assume "s = c"
    then show "crc_bits 0x31 s (byte_bits c) = 0" by (simp add: crc_bits_byte funpow_8)
  qed
  show ?thesis by (simp add: crc8_bits z)
qed

section \<open>Reading words\<close>

text \<open>The value of a word on the bus, and whether its checksum holds.\<close>

definition be16 :: "bytes \<Rightarrow> nat \<Rightarrow> u16" where
  "be16 raw i = push_bit 8 (ucast (raw ! (i * 3))) OR ucast (raw ! (i * 3 + 1))"

definition word_good :: "bytes \<Rightarrow> nat \<Rightarrow> bool" where
  "word_good raw i \<longleftrightarrow> crc8 [raw ! (i * 3), raw ! (i * 3 + 1)] = raw ! (i * 3 + 2)"

lemma words_loop_err:
  "fst (words_loop raw i k out) = (if \<forall>j \<in> {i..<i + k}. word_good raw j then 0 else - EIO)"
proof (induction raw i k out rule: words_loop.induct)
  case (2 raw i k out)
  have "{i..<i + Suc k} = insert i {Suc i..<Suc i + k}" by auto
  then show ?case using 2 by (simp add: word_good_def)
qed simp

lemma words_loop_good:
  "word_good raw i \<Longrightarrow> words_loop raw i (Suc k) out = words_loop raw (Suc i) k (out[i := be16 raw i])"
  by (simp add: word_good_def be16_def)

lemma words_loop_out:
  "\<forall>j \<in> {i..<i + k}. word_good raw j \<Longrightarrow> length out = i + k \<Longrightarrow>
   snd (words_loop raw i k out) = take i out @ map (be16 raw) [i..<i + k]"
proof (induction k arbitrary: i out)
  case (Suc k)
  have "take (Suc i) (out[i := be16 raw i]) = take i out @ [be16 raw i]"
    using Suc.prems by (simp add: take_Suc_conv_app_nth)
  moreover have "[i..<i + Suc k] = i # [Suc i..<Suc i + k]"
    by (simp add: upt_conv_Cons [of i "Suc (i + k)"] del: upt_Suc)
  ultimately show ?case
    using Suc.prems Suc.IH [of "Suc i" "out[i := be16 raw i]"] by (simp add: words_loop_good del: upt_Suc words_loop.simps)
qed simp

lemma read_words_cases:
  assumes "read_words ops c out words b = (err, w, b')" and "length out = words"
    and "i2c_write ops b [ucast (drop_bit 8 c), ucast c] = (e1, b1)"
    and "i2c_read ops (msleep ops 20 b1) (words * 3) = (e2, raw, b2)"
  shows "err = (if e1 \<noteq> 0 then e1 else if e2 \<noteq> 0 then e2
                else if \<forall>j < words. word_good raw j then 0 else - EIO)"
    and "err = 0 \<Longrightarrow> w = map (be16 raw) [0..<words]"
    and "b' = (if e1 \<noteq> 0 then b1 else b2)"
proof -
  obtain e3 w3 where l: "words_loop raw 0 words out = (e3, w3)" by fastforce
  have e3: "e3 = (if \<forall>j < words. word_good raw j then 0 else - EIO)"
    using words_loop_err [of raw 0 words out] l by (simp add: Ball_def)
  have w3: "w3 = map (be16 raw) [0..<words]" if "e3 = 0"
    using words_loop_out [of 0 words raw out] assms(2) l e3 that by (simp add: Ball_def split: if_splits)
  show "err = (if e1 \<noteq> 0 then e1 else if e2 \<noteq> 0 then e2
                else if \<forall>j < words. word_good raw j then 0 else - EIO)"
    and "err = 0 \<Longrightarrow> w = map (be16 raw) [0..<words]"
    and "b' = (if e1 \<noteq> 0 then b1 else b2)"
    using assms(1,3,4) l e3 w3 by (auto simp: read_words_def send_cmd_def split: if_splits)
qed

text \<open>
  A read sends the two command bytes, waits 20 ms, then reads three bytes per word, and it
  succeeds exactly if both transfers do and the checksum of every word holds; then the words
  are the big-endian values. A failed transfer's error and -EIO for a bad checksum are
  reported.
\<close>

theorem read_words_correct:
  assumes "length out = words" and "i2c_write ops b [ucast (drop_bit 8 c), ucast c] = (e1, b1)"
    and "i2c_read ops (msleep ops 20 b1) (words * 3) = (e2, raw, b2)"
  shows "case read_words ops c out words b of (err, w, b') \<Rightarrow>
           err = (if e1 \<noteq> 0 then e1 else if e2 \<noteq> 0 then e2
                  else if \<forall>j < words. word_good raw j then 0 else - EIO) \<and>
           (err = 0 \<longrightarrow> w = map (be16 raw) [0..<words]) \<and> b' = (if e1 \<noteq> 0 then b1 else b2)"
  using read_words_cases [OF _ assms] by (cases "read_words ops c out words b") blast

lemma three_bits: "word_good raw i \<longleftrightarrow>
    crc_bits 0x31 0xFF (bytes_bits [raw ! (i * 3), raw ! (i * 3 + 1), raw ! (i * 3 + 2)]) = (0 :: u8)"
  unfolding word_good_def by (rule crc8_residue)

text \<open>
  C26: damage to a word on the bus is noticed: when the three bytes of a word and its checksum
  differ from what the sensor sent only within eight neighbouring bits, and do differ, the
  read returns -EIO, wherever in the transfer the word stands.
\<close>

theorem sensor_word_damage_detected:
  assumes "length out = words" and "i2c_write ops b [ucast (drop_bit 8 c), ucast c] = (0, b1)"
    and "i2c_read ops (msleep ops 20 b1) (words * 3) = (0, raw, b2)"
    and "i < words" and "word_good sent i"
    and "bytes_bits (take 3 (drop (i * 3) sent)) = pre @ e @ post"
    and "bytes_bits (take 3 (drop (i * 3) raw)) = pre @ e' @ post"
    and "length e = length e'" and "length e \<le> 8" and "e \<noteq> e'"
    and "length sent = words * 3" and "length raw = words * 3"
  shows "fst (read_words ops c out words b) = - EIO"
proof -
  have three: "take 3 (drop (i * 3) l) = [l ! (i * 3), l ! (i * 3 + 1), l ! (i * 3 + 2)]"
    if "length l = words * 3" for l :: bytes
    using assms(4) that by (simp add: take_Suc_conv_app_nth numeral_3_eq_3)
  have "crc_bits 0x31 0xFF (pre @ e @ post) = (0 :: u8)"
    using assms(5) by (simp only: three_bits assms(6) flip: three [OF assms(11)])
  then have "crc_bits 0x31 0xFF (pre @ e' @ post) \<noteq> (0 :: u8)"
    using crc8.burst_detected [of e e' "0xFF" pre post] assms(8-10) by auto
  then have "\<not> word_good raw i"
    by (simp only: three_bits assms(7) simp_thms flip: three [OF assms(12)])
  then have "\<not> (\<forall>j < words. word_good raw j)" using assms(4) by blast
  then show ?thesis
    using read_words_cases(1) [OF _ assms(1-3)] by (cases "read_words ops c out words b") auto
qed


section \<open>Windows\<close>

text \<open>
  What a window reports of its samples: the peak of the valid values of a column, or the last
  of them, and the sentinel if there is none.
\<close>

definition valid :: "u16 list \<Rightarrow> u16 list" where
  "valid vs = filter (\<lambda>v. v \<noteq> 0xFFFF) vs"

definition peak :: "u16 list \<Rightarrow> u16" where
  "peak vs = (if valid vs = [] then SEN5X_UNKNOWN_U else Max (set (valid vs)))"

definition latest :: "(u16 \<Rightarrow> i16) \<Rightarrow> u16 list \<Rightarrow> i16" where
  "latest f vs = (if valid vs = [] then SEN5X_UNKNOWN_S else f (last (valid vs)))"

definition summary :: "u16 list list \<Rightarrow> sen5x_window" where
  "summary ws =
     \<lparr>aq_pm25 = peak (map (\<lambda>w. w ! 1) ws), aq_pm10 = peak (map (\<lambda>w. w ! 3) ws),
      aq_temp = latest (\<lambda>v. of_int (cdiv (sint v) 2)) (map (\<lambda>w. w ! 5) ws),
      aq_rh = latest (\<lambda>v. v) (map (\<lambda>w. w ! 4) ws), aq_voc = latest (\<lambda>v. v) (map (\<lambda>w. w ! 6) ws),
      aq_alive = (ws \<noteq> [])\<rparr>"

lemma valid_snoc: "valid (vs @ [v]) = valid vs @ (if v = 0xFFFF then [] else [v])"
  by (simp add: valid_def)

lemma latest_snoc: "latest f (vs @ [v]) = (if v \<noteq> 0xFFFF then f v else latest f vs)"
  by (simp add: latest_def valid_snoc)

lemma peak_unknown: "peak vs = 0xFFFF \<longleftrightarrow> valid vs = []"
proof
  assume p: "peak vs = 0xFFFF"
  show "valid vs = []"
  proof (rule ccontr)
    assume "valid vs \<noteq> []"
    then have "peak vs \<in> set (valid vs)" by (simp add: peak_def)
    with p show False by (auto simp: valid_def)
  qed
qed (simp add: peak_def)

lemma peak_snoc:
  "peak (vs @ [v]) = (if v \<noteq> 0xFFFF \<and> (peak vs = 0xFFFF \<or> peak vs < v) then v else peak vs)"
proof (cases "v = 0xFFFF \<or> valid vs = []")
  case True
  then show ?thesis by (auto simp: peak_def valid_snoc)
next
  case False
  then have "peak (vs @ [v]) = max v (peak vs)" by (simp add: peak_def valid_snoc Max_insert max.commute)
  then show ?thesis using False by (auto simp: peak_unknown max_def)
qed

lemma summary_Nil [simp]: "summary [] = acc_reset"
  by (simp add: summary_def acc_reset_def peak_def latest_def valid_def)

lemma summary_alive [simp]: "aq_alive (summary ws) \<longleftrightarrow> ws \<noteq> []"
  by (simp add: summary_def)

lemma fold_sample_sel:
  "aq_pm25 (fold_sample a w) = (if w ! 1 \<noteq> 0xFFFF \<and> (aq_pm25 a = 0xFFFF \<or> aq_pm25 a < w ! 1) then w ! 1 else aq_pm25 a)"
  "aq_pm10 (fold_sample a w) = (if w ! 3 \<noteq> 0xFFFF \<and> (aq_pm10 a = 0xFFFF \<or> aq_pm10 a < w ! 3) then w ! 3 else aq_pm10 a)"
  "aq_rh (fold_sample a w) = (if w ! 4 \<noteq> 0xFFFF then w ! 4 else aq_rh a)"
  "aq_temp (fold_sample a w) = (if w ! 5 \<noteq> 0xFFFF then of_int (cdiv (sint (w ! 5)) 2) else aq_temp a)"
  "aq_voc (fold_sample a w) = (if w ! 6 \<noteq> 0xFFFF then w ! 6 else aq_voc a)"
  "aq_alive (fold_sample a w)"
  by (simp_all add: fold_sample_def Let_def)

lemma fold_summary: "fold_sample (summary ws) w = summary (ws @ [w])"
  by (rule sen5x_window.equality)
     (simp_all add: fold_sample_sel, simp_all add: summary_def peak_snoc latest_snoc)


text \<open>What a poll would read from the sensor.\<close>

definition poll_sample :: "'b i2c_ops \<Rightarrow> 'b sen5x \<Rightarrow> u16 list list" where
  "poll_sample ops s =
     (if \<not> sx_running s then []
      else let (err, w, b) = read_words ops CMD_READ_MEASURED (replicate 8 0) 8 (sx_bus s)
           in if err \<noteq> 0 then [] else [w])"

lemma poll_summary:
  "sx_acc s = summary ws \<Longrightarrow>
   sx_acc (sen5x_poll ops s) = summary (ws @ poll_sample ops s) \<and>
   sx_running (sen5x_poll ops s) = sx_running s"
  by (simp add: sen5x_poll_def poll_sample_def fold_summary Let_def split: prod.split)

text \<open>The answer to the status query: a fault is reported only by a read that succeeds.\<close>

definition fault_reported :: "'b i2c_ops \<Rightarrow> 'b \<Rightarrow> bool" where
  "fault_reported ops b =
     (let (err, st, b') = read_words ops CMD_READ_STATUS (replicate 2 0) 2 b
      in err = 0 \<and> (bit (st ! 1) 4 \<or> bit (st ! 1) 5))"

lemma status_fatal:
  fixes a b :: u16
  shows "(push_bit 16 (ucast a) OR ucast b :: u32) AND STATUS_FATAL \<noteq> 0 \<longleftrightarrow> bit b 4 \<or> bit b 5"
proof -
  define w :: u32 where "w = push_bit 16 (ucast a) OR ucast b"
  have "w AND STATUS_FATAL = (w AND push_bit 4 1) OR (w AND push_bit 5 1)"
    unfolding STATUS_FATAL_def by (rule bit.conj_disj_distrib)
  then have "w AND STATUS_FATAL \<noteq> 0 \<longleftrightarrow> bit w 4 \<or> bit w 5"
    unfolding bit_iff_and_push_bit_not_eq_0 by (simp only: or_eq_0_iff de_Morgan_conj)
  then show ?thesis by (simp add: w_def bit_simps)
qed

lemma take_window:
  assumes "sen5x_window_take ops s = (w, t)"
  shows "w = (sx_acc s)\<lparr>aq_alive := aq_alive (sx_acc s) \<and> \<not> fault_reported ops (sx_bus s)\<rparr>"
    and "sx_acc t = acc_reset" and "sx_running t = sx_running s"
proof -
  obtain err st b where r: "read_words ops CMD_READ_STATUS (replicate 2 0) 2 (sx_bus s) = (err, st, b)"
    by (metis prod_cases3)
  show "w = (sx_acc s)\<lparr>aq_alive := aq_alive (sx_acc s) \<and> \<not> fault_reported ops (sx_bus s)\<rparr>"
    using assms r by (auto simp: sen5x_window_take_def fault_reported_def status_fatal Let_def)
  show "sx_acc t = acc_reset" and "sx_running t = sx_running s"
    using assms r by (auto simp: sen5x_window_take_def Let_def split: if_splits)
qed

text \<open>The sensor keeps the interface: a window is the summary of its own samples.\<close>

interpretation air: windowed
  "\<lambda>_ :: unit. sen5x_poll ops" "\<lambda>_. poll_sample ops" "sen5x_window_take ops"
  "\<lambda>s ws. sx_acc s = summary ws"
  "\<lambda>ws w. \<exists>alive. w = (summary ws)\<lparr>aq_alive := alive\<rparr> \<and> (alive \<longrightarrow> ws \<noteq> [])"
  for ops :: "'b i2c_ops"
proof unfold_locales
  fix s :: "'b sen5x" and ws w t
  assume "sx_acc s = summary ws" and t: "sen5x_window_take ops s = (w, t)"
  then show "(\<exists>alive. w = (summary ws)\<lparr>aq_alive := alive\<rparr> \<and> (alive \<longrightarrow> ws \<noteq> [])) \<and> sx_acc t = summary []"
    using take_window [OF t] by auto
qed (simp add: poll_summary)


section \<open>A sensor on the bench\<close>

text \<open>A bus whose state is the list of answers still to come; writes always succeed.\<close>

definition bench :: "bytes list i2c_ops" where
  "bench =
     \<lparr>i2c_ready = (\<lambda>b. b \<noteq> []), i2c_write = (\<lambda>b d. (0, b)),
      i2c_read = (\<lambda>b n. case b of [] \<Rightarrow> (- EIO, [], []) | r # rs \<Rightarrow> (0, r, rs)),
      msleep = (\<lambda>n b. b)\<rparr>"

lemma bench_sel [simp]:
  "i2c_ready bench b \<longleftrightarrow> b \<noteq> []" "i2c_write bench b d = (0, b)" "msleep bench n b = b"
  "i2c_read bench b n = (case b of [] \<Rightarrow> (- EIO, [], []) | r # rs \<Rightarrow> (0, r, rs))"
  by (simp_all add: bench_def)

text \<open>One word, 0xBEEF, as it comes over the bus, and eight of them.\<close>

definition beef :: bytes where "beef = [0xBE, 0xEF, 0x92]"

definition beefs :: bytes where "beefs = concat (replicate 8 beef)"

lemma beef_good: "word_good beef 0"
  using crc8_check_vector by (simp add: word_good_def beef_def)

theorem read_words_correct_witness:
  "case read_words bench 0xD206 [0] 1 [beef] of (err, w, b') \<Rightarrow> err = 0 \<and> w = [0xBEEF] \<and> b' = []"
  using read_words_correct [of "[0]" 1 bench "[beef]" "0xD206" 0 "[beef]" 0 beef "[]"] beef_good
  by (auto simp: be16_def beef_def)

theorem sensor_word_damage_detected_witness:
  "fst (read_words bench 0xD206 [0] 1 [[0xBE, 0x6F, 0x92]]) = - EIO"
proof -
  have "byte_bits 0xEF = [True] @ drop 1 (byte_bits 0xEF)" "byte_bits 0x6F = [False] @ drop 1 (byte_bits 0xEF)"
    by (simp_all add: byte_bits_def bit_simps upt_rec [of _ 8] numeral_eq_Suc)
  then show ?thesis
    using sensor_word_damage_detected [of "[0]" 1 bench "[[0xBE, 0x6F, 0x92]]" "0xD206"
        "[[0xBE, 0x6F, 0x92]]" "[0xBE, 0x6F, 0x92]" "[]" 0 beef "byte_bits 0xBE" "[True]"
        "drop 1 (byte_bits 0xEF) @ byte_bits 0x92" "[False]"] beef_good
    by (simp add: beef_def)
qed

section \<open>What sen5x.c promises\<close>

text \<open>
  C25: over any number of windows of any length, starting after the start-up reset, each window
  handed over is the summary of the samples read in that window and no other: the highest
  valid PM2.5 and PM10, the last valid humidity, temperature and VOC index; a window is
  marked alive only if it had a good read.
\<close>

theorem sen5x_windows:
  assumes "sx_acc s = acc_reset"
  shows "list_all2 (\<lambda>ws w. \<exists>alive. w = (summary ws)\<lparr>aq_alive := alive\<rparr> \<and> (alive \<longrightarrow> ws \<noteq> []))
     (samples (\<lambda>_ :: unit. sen5x_poll ops) (\<lambda>_. poll_sample ops) (sen5x_window_take ops) polls s)
     (windows (\<lambda>_ :: unit. sen5x_poll ops) (sen5x_window_take ops) polls s)"
  using assms by (intro air.windows_meet) simp

definition bench_sensor :: "bytes list sen5x" where
  "bench_sensor = \<lparr>sx_bus = [beefs, []], sx_running = True, sx_acc = acc_reset\<rparr>"

theorem sen5x_windows_witness:
  "list_all2 (\<lambda>ws w. \<exists>alive. w = (summary ws)\<lparr>aq_alive := alive\<rparr> \<and> (alive \<longrightarrow> ws \<noteq> []))
     (samples (\<lambda>_ :: unit. sen5x_poll bench) (\<lambda>_. poll_sample bench) (sen5x_window_take bench) [[()], []] bench_sensor)
     (windows (\<lambda>_ :: unit. sen5x_poll bench) (sen5x_window_take bench) [[()], []] bench_sensor)"
  by (rule sen5x_windows) (simp add: bench_sensor_def)

text \<open>
  Handing over a window resets the accumulators and changes nothing of the measurements;
  it clears the alive mark exactly when the status query succeeds and reports a fan or laser
  fault. A status query that fails leaves the mark as it is.
\<close>

theorem sen5x_take_correct:
  "case sen5x_window_take ops s of (w, t) \<Rightarrow>
     w = (sx_acc s)\<lparr>aq_alive := aq_alive (sx_acc s) \<and> \<not> fault_reported ops (sx_bus s)\<rparr> \<and>
     sx_acc t = acc_reset \<and> sx_running t = sx_running s"
  using take_window [of ops s] by (cases "sen5x_window_take ops s") blast

lemma half_no_sentinel: "(of_int (cdiv (sint (v :: u16)) 2) :: i16) \<noteq> 0x7FFF"
proof
  assume eq: "(of_int (cdiv (sint v) 2) :: i16) = 0x7FFF"
  have b: "- 32768 \<le> sint v" "sint v < 32768"
    using sint_ge [of v] sint_lt [of v] by simp_all
  then have c: "- 16384 \<le> cdiv (sint v) 2 \<and> cdiv (sint v) 2 < 16384"
    by (auto simp: cdiv_def sgn_if)
  then have "sint (of_int (cdiv (sint v) 2) :: i16) = cdiv (sint v) 2"
    by (simp add: signed_of_int signed_take_bit_int_eq_self)
  moreover have "sint (0x7FFF :: i16) = 32767" by simp
  ultimately show False using c eq by simp
qed

lemma latest_sentinel:
  "(\<And>v. f v \<noteq> 0x7FFF) \<Longrightarrow> latest f vs = 0x7FFF \<longleftrightarrow> valid vs = []"
  by (simp add: latest_def)

lemma valid_Nil: "valid vs = [] \<longleftrightarrow> (\<forall>v \<in> set vs. v = 0xFFFF)"
  by (auto simp: valid_def filter_empty_conv)

lemma peak_bounds: "v \<in> set vs \<Longrightarrow> v \<noteq> 0xFFFF \<Longrightarrow> v \<le> peak vs"
  by (auto simp: peak_def valid_def filter_empty_conv)

text \<open>
  The sentinels mean what they say: the particulate peak is 0xFFFF exactly if no sample had a
  value and otherwise bounds every valid sample, and the halved temperature is the sentinel
  exactly if no sample had a temperature, because no halved value reaches it.
\<close>

theorem sen5x_sentinels:
  "(aq_pm25 (summary ws) = SEN5X_UNKNOWN_U \<longleftrightarrow> (\<forall>w \<in> set ws. w ! 1 = 0xFFFF)) \<and>
   (aq_temp (summary ws) = SEN5X_UNKNOWN_S \<longleftrightarrow> (\<forall>w \<in> set ws. w ! 5 = 0xFFFF)) \<and>
   (\<forall>w \<in> set ws. w ! 1 \<noteq> 0xFFFF \<longrightarrow> w ! 1 \<le> aq_pm25 (summary ws)) \<and>
   (foldl fold_sample acc_reset ws = summary ws)"
proof -
  have "foldl fold_sample (summary us) vs = summary (us @ vs)" for us vs
    by (induction vs arbitrary: us) (simp_all add: fold_summary)
  from this [of "[]"] have "foldl fold_sample acc_reset ws = summary ws" by simp
  then show ?thesis
    by (auto simp: summary_def peak_unknown latest_sentinel [OF half_no_sentinel] valid_Nil intro: peak_bounds)
qed

theorem sen5x_sentinels_witness:
  "(3 :: u16) \<le> aq_pm25 (summary [replicate 8 3]) \<and>
   aq_temp (summary [replicate 8 3]) \<noteq> SEN5X_UNKNOWN_S"
  using sen5x_sentinels [of "[replicate 8 3]"] by simp

text \<open>
  When start-up fails, the sensor stays silent: however often it is polled, it causes no
  traffic on the bus and every window is all unknown and not alive.
\<close>

theorem sen5x_start_failed:
  assumes "sen5x_start ops s = (e, s1)" and "e \<noteq> 0" and "\<not> sx_running s"
  shows "sen5x_window_take ops ((sen5x_poll ops ^^ n) s1) = (acc_reset, s1)"
proof -
  have s1: "\<not> sx_running s1 \<and> sx_acc s1 = acc_reset"
    using assms by (auto simp: sen5x_start_def Let_def split: if_splits prod.splits)
  then have "(sen5x_poll ops ^^ n) s1 = s1" by (induction n) (simp_all add: sen5x_poll_def)
  then show ?thesis using s1 by (simp add: sen5x_window_take_def acc_reset_def)
qed

theorem sen5x_start_failed_witness:
  "fst (sen5x_window_take bench ((sen5x_poll bench ^^ 30)
      \<lparr>sx_bus = [], sx_running = False, sx_acc = acc_reset\<rparr>)) = acc_reset"
  using sen5x_start_failed [of bench "\<lparr>sx_bus = [], sx_running = False, sx_acc = acc_reset\<rparr>" "- ENODEV" _ 30]
  by (simp add: sen5x_start_def)

end
