(* ===== verification/Radar.thy ===== *)
theory Radar
  imports Reasm Window
begin

text \<open>
  src/src/radar.h and the streaming half of src/src/radar.c: what the radar thread does with
  the frames the reassembler delivers (\<open>on_frame\<close>), the accumulators, the window handed to the
  main loop (\<open>radar_window_take\<close>), and the thread that configures, streams and reconfigures when
  the sensor stalls. The bring-up over the command line is in the theory Radar_Cli.
\<close>

section \<open>State\<close>

abbreviation (input) RADAR_MAX_TARGETS :: int where "RADAR_MAX_TARGETS \<equiv> 20"
abbreviation (input) RADAR_STALL_MS :: int where "RADAR_STALL_MS \<equiv> 10000"

text \<open>The accumulators; \<open>ra_since\<close> is the uptime of \<open>occ_since\<close> in milliseconds, 0 when empty.\<close>

record radar_acc =
  ra_max :: u8
  ra_frames :: u16
  ra_occ :: u16
  ra_tracker :: bool
  ra_since :: int

record radar_window =
  rw_headcount :: u8
  rw_occ_s :: u8
  rw_dwell_s :: u16
  rw_alive :: bool
  rw_tracker :: bool

text \<open>The statics of \<open>on_frame\<close>: the frames seen and the mask of the TLV types printed.\<close>

record radar =
  rs_acc :: radar_acc
  rs_seen :: u32
  rs_types :: u32

definition radar_boot :: radar where
  "radar_boot = \<lparr>rs_acc = \<lparr>ra_max = 0, ra_frames = 0, ra_occ = 0, ra_tracker = False, ra_since = 0\<rparr>,
                rs_seen = 0, rs_types = 0\<rparr>"

text \<open>
  What is printed: the TLV list of a frame with a new type, and once in four frames a status
  line (with the coordinates as they stand in the targets; turning metres into centimetres
  is formatting).
\<close>

datatype radar_print =
    Types u32 u32 u32 "(u32 \<times> u32) list"
  | Status u32 u32 bool int u32 "tlv_target list"

section \<open>Operations\<close>

definition radar_window_take :: "int \<Rightarrow> radar_acc \<Rightarrow> radar_window \<times> radar_acc" where
  "radar_window_take uptime a =
     (let alive = ra_frames a > 0;
          occ_s = (if ra_frames a \<noteq> 0
                   then ucast ((ucast (ra_occ a) * of_nat STORE_PERIOD_S :: u32) div ucast (ra_frames a))
                   else 0);
          a = (if \<not> alive then a\<lparr>ra_since := 0\<rparr> else a);
          held = (if ra_since a \<noteq> 0 then cdiv (uptime - ra_since a) 1000 else 0);
          dwell = (if held > 0xFFFF then 0xFFFF else of_int held)
      in (\<lparr>rw_headcount = ra_max a, rw_occ_s = occ_s, rw_dwell_s = dwell, rw_alive = alive,
           rw_tracker = ra_tracker a\<rparr>,
          a\<lparr>ra_max := 0, ra_frames := 0, ra_occ := 0, ra_tracker := False\<rparr>))"

fun zones_loop :: "bytes \<Rightarrow> int" where
  "zones_loop [] = 0"
| "zones_loop (z # zones) = (if z \<noteq> TLV_ZONE_NONE then 1 else zones_loop zones)"

text \<open>
  The first part of \<open>on_frame\<close>: whether the tracker reported, the count, and the targets. A
  payload pointer is the memory of the buffer from its offset on.
\<close>

definition frame_count :: "bytes \<Rightarrow> (bool \<times> int \<times> tlv_target list) option" where
  "frame_count frame =
     (case tlv_find frame TLV_TARGET_LIST of None \<Rightarrow> None
      | Some (Some p, len) \<Rightarrow>
          map_option (\<lambda>tgt. (True, int (length tgt), tgt))
            (tlv_targets (Some (drop (unat p) frame)) len RADAR_MAX_TARGETS)
      | Some (None, _) \<Rightarrow>
          (case tlv_find frame TLV_ENHANCED_PRESENCE of None \<Rightarrow> None
           | Some (Some p, len) \<Rightarrow>
               map_option (\<lambda>(nz, zones). (False, zones_loop (take (nat nz) zones), []))
                 (tlv_presence (Some (drop (unat p) frame)) len 8)
           | Some (None, _) \<Rightarrow> Some (False, 0, [])))"

text \<open>The update of the accumulators under the lock.\<close>

definition acc_frame :: "int \<Rightarrow> bool \<Rightarrow> int \<Rightarrow> radar_acc \<Rightarrow> radar_acc" where
  "acc_frame uptime tracker n a =
     (let a = a\<lparr>ra_frames := ra_frames a + 1\<rparr>;
          a = (if tracker then a\<lparr>ra_tracker := True\<rparr> else a)
      in if n > 0
         then let a = a\<lparr>ra_occ := ra_occ a + 1\<rparr>;
                  a = (if n > uint (ra_max a) then a\<lparr>ra_max := of_int n\<rparr> else a)
              in (if ra_since a = 0 then a\<lparr>ra_since := uptime\<rparr> else a)
         else a\<lparr>ra_since := 0\<rparr>)"

text \<open>
  The walk over the TLVs of the diagnostic block, with the arithmetic of \<open>uint32_t\<close>. The
  code makes it twice, for the mask and for the printout; both see the same list.
\<close>

function types_loop :: "bytes \<Rightarrow> u32 \<Rightarrow> u32 \<Rightarrow> u32 \<Rightarrow> u32 \<Rightarrow> (u32 \<times> u32) list option" where
  "types_loop frame num tot i off =
     (if i < num \<and> off + 8 \<le> tot then
        (case (rd_le32 frame (unat off), rd_le32 frame (unat off + 4)) of
           (Some t, Some l) \<Rightarrow>
             map_option ((#) (t, l)) (types_loop frame num tot (i + 1) (off + (8 + l)))
         | _ \<Rightarrow> None)
      else Some [])"
  by pat_completeness auto
termination
  by (relation "measure (\<lambda>(frame, num, tot, i, off). unat num - unat i)")
    (auto simp: unat_Suc_word word_nat)

declare types_loop.simps [simp del]

definition types_mask :: "(u32 \<times> u32) list \<Rightarrow> u32" where
  "types_mask tls = foldl (\<lambda>mask (t, l). mask OR push_bit (unat ((t - 300) AND 31)) 1) 0 tls"

text \<open>The handler; \<open>now\<close> is what \<open>store_now\<close> returns for the status line.\<close>

definition on_frame :: "int \<Rightarrow> u32 \<Rightarrow> bytes \<Rightarrow> radar \<Rightarrow> (radar \<times> radar_print list) option" where
  "on_frame uptime now frame s =
     (case frame_count frame of None \<Rightarrow> None
      | Some (tracker, n, tgt) \<Rightarrow>
          let s = s\<lparr>rs_acc := acc_frame uptime tracker n (rs_acc s)\<rparr> in
          (case tlv_header_get frame of None \<Rightarrow> None
           | Some h \<Rightarrow>
               (case types_loop frame (h_num_tlvs h) (h_total_len h) 0 (of_nat TLV_HDR_LEN) of None \<Rightarrow> None
                | Some tls \<Rightarrow>
                    let mask = types_mask tls;
                        new = (mask AND NOT (rs_types s) \<noteq> 0);
                        s = (if new then s\<lparr>rs_types := rs_types s OR mask\<rparr> else s);
                        s = s\<lparr>rs_seen := rs_seen s + 1\<rparr>
                    in Some (s,
                         (if new then [Types (h_num_tlvs h) (h_total_len h) (h_num_detected h) tls] else []) @
                         (if rs_seen s mod 4 = 0
                          then [Status now (h_frame_no h) tracker n (h_num_detected h)
                                  (if tracker then take 4 tgt else [])] else [])))))"

section \<open>The thread\<close>

text \<open>
  The thread alternates between configuring and streaming. Its inputs are what its calls
  return: the result of \<open>radar_configure\<close>, or a chunk taken from the receive ring at some
  uptime. On a chunk it pushes every byte, handles every completed frame and restarts the
  stall timer; a poll that finds the timer run out leaves for a new configuration.
\<close>

datatype thread_phase = Configuring | Streaming

record radar_thread =
  th_phase :: thread_phase
  th_re :: tlv_reasm
  th_radar :: radar
  th_last :: int

datatype thread_input = Configured int int | Chunk int u32 bytes

definition chunk_frame :: "int \<Rightarrow> u32 \<Rightarrow> tlv_reasm \<Rightarrow> radar \<times> int \<Rightarrow> (radar \<times> int) option" where
  "chunk_frame uptime now re x =
     map_option (\<lambda>(s, out). (s, uptime)) (on_frame uptime now (r_buf re) (fst x))"

fun thread_step :: "thread_input \<Rightarrow> radar_thread \<Rightarrow> radar_thread option" where
  "thread_step (Configured err uptime) th =
     (if th_phase th \<noteq> Configuring then None
      else if err \<noteq> 0 then Some th
      else Some (th\<lparr>th_phase := Streaming, th_re := tlv_reset (th_re th), th_last := uptime\<rparr>))"
| "thread_step (Chunk uptime now chunk) th =
     (if th_phase th \<noteq> Streaming then None
      else if \<not> uptime - th_last th < RADAR_STALL_MS then Some (th\<lparr>th_phase := Configuring\<rparr>)
      else map_option (\<lambda>(re, s, last). th\<lparr>th_re := re, th_radar := s, th_last := last\<rparr>)
             (drive tlv_push tlv_reset (chunk_frame uptime now) (th_re th, th_radar th, th_last th) chunk))"


section \<open>The reference count of a frame\<close>

text \<open>
  The count in terms of the TLVs of the frame: whether there is a target list, and how many
  targets it holds (at most 20); without one, whether any presence zone reports motion.
\<close>

definition target_count :: "bytes \<Rightarrow> nat" where
  "target_count p = (case target_size (length p) of None \<Rightarrow> 0 | Some sz \<Rightarrow> min 20 (length p div sz))"

definition motion :: "bytes \<Rightarrow> bool" where
  "motion p \<longleftrightarrow> 2 \<le> length p \<and> (\<exists>z < min (unat (p ! 0)) 8. zone_state p (length p) z \<noteq> 0)"

definition count_of :: "(u32 \<times> bytes) list \<Rightarrow> bool \<times> nat" where
  "count_of ts =
     (case first_tlv 308 ts of Some p \<Rightarrow> (True, target_count p)
      | None \<Rightarrow> (False, (case first_tlv 315 ts of None \<Rightarrow> 0 | Some p \<Rightarrow> of_bool (motion p))))"

lemma count_bound: "snd (count_of ts) \<le> 20"
  by (auto simp: count_of_def target_count_def split: option.split)

lemma count_floor: "\<not> fst (count_of ts) \<Longrightarrow> snd (count_of ts) \<le> 1"
  by (auto simp: count_of_def split: option.splits)

lemma zones_loop_any: "zones_loop zones = of_bool (\<exists>z \<in> set zones. z \<noteq> 0)"
  by (induction zones) auto

lemma foundD:
  assumes "found frame tot res (Some p)" and "tot \<le> length frame" and "length frame < 2 ^ 32"
  obtains off where "res = (Some off, of_nat (length p))" and "unat off + length p \<le> length frame"
    and "take (length p) (drop (unat off) frame) = p" and "unat (of_nat (length p) :: u32) = length p"
  using assms by (fastforce simp: found_def intro: unat_of_nat_small)

lemma zone_state_take:
  "take n m = p \<Longrightarrow> length p = n \<Longrightarrow> zone_state m n z = zone_state p n z"
  by (auto simp: zone_state_def)

lemma frame_count_spec:
  assumes "tot = unat (le32_at frame 12)" and "40 \<le> tot" and "tot \<le> 2048" and "tot \<le> length frame"
    and "length frame \<le> 2048"
  shows "\<exists>tgt. frame_count frame =
           Some (fst (count_of (tlvs (drop 40 (take tot frame)))),
                 int (snd (count_of (tlvs (drop 40 (take tot frame))))), tgt)"
proof -
  let ?ts = "tlvs (drop 40 (take tot frame))"
  have len: "length frame < 2 ^ 32" using assms by simp
  obtain r1 where r1: "tlv_find frame 308 = Some r1" "found frame tot r1 (first_tlv 308 ?ts)"
    using tlv_find_defined [OF assms(1-4)] by blast
  obtain r2 where r2: "tlv_find frame 315 = Some r2" "found frame tot r2 (first_tlv 315 ?ts)"
    using tlv_find_defined [OF assms(1-4)] by blast
  show ?thesis
  proof (cases "first_tlv 308 ?ts")
    case (Some p)
    with r1(2) have "found frame tot r1 (Some p)" by simp
    then obtain off where o: "r1 = (Some off, of_nat (length p))" "unat off + length p \<le> length frame"
      "unat (of_nat (length p) :: u32) = length p"
      by (rule foundD [OF _ assms(4) len]) blast
    have "tlv_targets (Some (drop (unat off) frame)) (of_nat (length p)) 20 =
        Some (case target_size (length p) of None \<Rightarrow> []
          | Some sz \<Rightarrow> map (\<lambda>i. target_at (drop (unat off) frame) sz (i * sz)) [0..<min 20 (length p div sz)])"
      using tlv_targets_spec [of "of_nat (length p)" "drop (unat off) frame" 20] o assms(5)
      by (simp split: option.split)
    then show ?thesis
      using Some r1(1) o(1)
      by (simp add: frame_count_def count_of_def target_count_def split: option.split)
  next
    case None
    then have none: "r1 = (None, 0)" using r1(2) by (simp add: found_def)
    show ?thesis
    proof (cases "first_tlv 315 ?ts")
      case N: None
      then have "r2 = (None, 0)" using r2(2) by (simp add: found_def)
      then show ?thesis using None N none r1(1) r2(1) by (simp add: frame_count_def count_of_def)
    next
      case (Some p)
      with r2(2) have "found frame tot r2 (Some p)" by simp
      then obtain off where o: "r2 = (Some off, of_nat (length p))" "unat off + length p \<le> length frame"
        "take (length p) (drop (unat off) frame) = p" "unat (of_nat (length p) :: u32) = length p"
        by (rule foundD [OF _ assms(4) len]) blast
      let ?m = "drop (unat off) frame"
      have hd: "?m ! 0 = p ! 0" if "2 \<le> length p"
        using that o(3) by (metis nth_take less_le_trans zero_less_numeral)
      have "tlv_presence (Some ?m) (of_nat (length p)) 8 =
          (if length p < 2 then Some (0, [])
           else Some (int (min (unat (?m ! 0)) 8), map (zone_state ?m (length p)) [0..<min (unat (?m ! 0)) 8]))"
        using presence_spec [of "of_nat (length p)" ?m 8] o by (simp add: Let_def)
      moreover have "zone_state ?m (length p) z = zone_state p (length p) z" for z
        using o(3) by (rule zone_state_take) simp
      ultimately show ?thesis
        using None Some none r1(1) r2(1) o(1) hd
        by (auto simp: frame_count_def count_of_def zones_loop_any motion_def)
    qed
  qed
qed


section \<open>The walk over the TLV types\<close>

lemma types_loop_built:
  assumes "drop (unat off) (take tot frame) = enc_tlvs ts" and "tot \<le> length frame" and "tot \<le> 2048"
    and "unat totw = tot" and "unat off \<le> tot" and "unat i + length ts = unat num"
  shows "types_loop frame num totw i off = Some (map (\<lambda>(t, p). (t, of_nat (length p))) ts)"
  using assms(1,5,6)
proof (induction ts arbitrary: off i)
  case Nil
  then show ?case by (subst types_loop.simps) (simp add: word_nat)
next
  case (Cons tp ts)
  obtain t p where tp: "tp = (t, p)" by fastforce
  have b: "drop (unat off) (take tot frame) = le32 t @ le32 (of_nat (length p)) @ p @ enc_tlvs ts"
    using Cons.prems(1) tp by simp
  have len: "tot - unat off = 8 + length p + length (enc_tlvs ts)"
    using arg_cong [OF b, of length] assms(2) by simp
  then have lens: "unat off + 8 + length p \<le> tot" by linarith
  have lp: "unat (of_nat (length p) :: u32) = length p"
    using lens assms(3) by (intro unat_of_nat_small) simp
  have off8: "unat (off + 8) = unat off + 8"
    using lens assms(3) by (subst unat_add_nowrap) simp_all
  have offn: "unat (off + (8 + of_nat (length p))) = unat off + 8 + length p"
    using lens assms(3) lp by (subst unat_add_nowrap) (subst unat_add_nowrap, simp_all)+
  have i: "i < num" using Cons.prems by (simp add: word_nat)
  then have i1: "unat (i + 1) = Suc (unat i)" by (rule unat_Suc_word)
  have rd: "rd_le32 frame (unat off) = Some t" "rd_le32 frame (unat off + 4) = Some (of_nat (length p))"
  proof -
    have "le32_at (drop (unat off) (take tot frame)) 0 = t"
      "le32_at (drop (unat off) (take tot frame)) 4 = of_nat (length p)"
      unfolding b by (simp_all add: le32_at_skip)
    then have "le32_at frame (unat off) = t" "le32_at frame (unat off + 4) = of_nat (length p)"
      using lens assms(2) by (simp_all add: le32_at_drop le32_at_take)
    then show "rd_le32 frame (unat off) = Some t" "rd_le32 frame (unat off + 4) = Some (of_nat (length p))"
      using lens assms(2) by (simp_all add: le32_at_def)
  qed
  have "drop (8 + length p) (drop (unat off) (take tot frame)) = enc_tlvs ts" unfolding b by simp
  then have "drop (unat (off + (8 + of_nat (length p)))) (take tot frame) = enc_tlvs ts"
    unfolding offn by (simp add: add.commute add.left_commute)
  then have "types_loop frame num totw (i + 1) (off + (8 + of_nat (length p))) =
      Some (map (\<lambda>(t, p). (t, of_nat (length p))) ts)"
    using Cons.prems i1 lens by (intro Cons.IH) (simp_all add: offn)
  moreover have "off + 8 \<le> totw" using off8 lens assms(4) by (simp add: word_nat)
  ultimately show ?case using i rd tp by (subst types_loop.simps) simp
qed

section \<open>A frame the radar built\<close>

text \<open>The state after a handled frame: the accumulators by the reference count.\<close>

lemma on_frame_built:
  assumes "length (build_frame h ts) \<le> 2048" and "take (length (build_frame h ts)) frame = build_frame h ts"
    and "length frame = 2048"
  shows "\<exists>s' out. on_frame uptime now frame s = Some (s', out) \<and>
           rs_acc s' = acc_frame uptime (fst (count_of ts)) (int (snd (count_of ts))) (rs_acc s) \<and>
           (\<forall>a b c l. Types a b c l \<in> set out \<longrightarrow> l = map (\<lambda>(t, p). (t, of_nat (length p))) ts)"
proof -
  let ?f = "build_frame h ts" and ?n = "40 + length (enc_tlvs ts)"
  have small: "?n \<le> 2048" using assms(1) by simp
  have frame: "frame = ?f @ drop (length ?f) frame" by (metis append_take_drop_id assms(2))
  have tot: "unat (of_nat ?n :: u32) = ?n" using small by (intro unat_of_nat_small) simp
  have at12: "le32_at frame 12 = of_nat ?n" by (subst frame) (rule build_frame_total)
  have body: "drop 40 (take ?n frame) = enc_tlvs ts"
    using assms(2) by (simp add: build_frame_body)
  have ts: "tlvs (enc_tlvs ts) = ts"
    using small by (intro tlvs_enc_tlvs) (force dest: length_enc_tlvs_payload)
  obtain tgt where cnt: "frame_count frame = Some (fst (count_of ts), int (snd (count_of ts)), tgt)"
    using frame_count_spec [of ?n frame] at12 tot small assms(3) by (auto simp: body ts)
  have hd: "tlv_header_get frame = Some (h\<lparr>h_total_len := of_nat ?n, h_num_tlvs := of_nat (length ts)\<rparr>)"
    by (subst frame) (rule header_built)
  have lt: "length ts \<le> length (enc_tlvs ts)" by (induction ts) auto
  have "types_loop frame (of_nat (length ts)) (of_nat ?n) 0 40 =
      Some (map (\<lambda>(t, p). (t, of_nat (length p))) ts)"
  proof (rule types_loop_built [where tot = ?n])
    have "unat (of_nat (length ts) :: u32) = length ts"
      using lt small by (intro unat_of_nat_small) simp
    then show "unat (0 :: u32) + length ts = unat (of_nat (length ts) :: u32)" by simp
  qed (use small assms(3) tot body in simp_all)
  then show ?thesis
    using cnt hd by (auto simp: on_frame_def Let_def)
qed


section \<open>Windows\<close>

text \<open>
  The accumulators as the main loop sees them: time passes, frames come (tracker reported,
  count), and the window is taken at the time reached.
\<close>

definition acc_event :: "int \<times> (bool \<times> nat) option \<Rightarrow> radar_acc \<times> int \<Rightarrow> radar_acc \<times> int" where
  "acc_event e x =
     (case snd e of None \<Rightarrow> fst x | Some (t, n) \<Rightarrow> acc_frame (fst e) t (int n) (fst x), fst e)"

definition event_frames :: "int \<times> (bool \<times> nat) option \<Rightarrow> radar_acc \<times> int \<Rightarrow> (bool \<times> nat) list" where
  "event_frames e x = (case snd e of None \<Rightarrow> [] | Some f \<Rightarrow> [f])"

definition take_now :: "radar_acc \<times> int \<Rightarrow> radar_window \<times> radar_acc \<times> int" where
  "take_now x = (let (w, a) = radar_window_take (snd x) (fst x) in (w, a, snd x))"

definition acc_rep :: "radar_acc \<times> int \<Rightarrow> (bool \<times> nat) list \<Rightarrow> bool" where
  "acc_rep x fs \<longleftrightarrow>
     ra_frames (fst x) = of_nat (length fs) \<and>
     ra_occ (fst x) = of_nat (length (filter (\<lambda>f. 0 < snd f) fs)) \<and>
     ra_tracker (fst x) = (\<exists>f \<in> set fs. fst f) \<and>
     ((\<forall>f \<in> set fs. snd f \<le> 20) \<longrightarrow> unat (ra_max (fst x)) = Max (insert 0 (snd ` set fs)))"

definition window_of :: "(bool \<times> nat) list \<Rightarrow> radar_window \<Rightarrow> bool" where
  "window_of fs w \<longleftrightarrow>
     (length fs < 65536 \<and> (\<forall>f \<in> set fs. snd f \<le> 20) \<longrightarrow>
        rw_alive w = (fs \<noteq> []) \<and> rw_tracker w = (\<exists>f \<in> set fs. fst f) \<and>
        unat (rw_headcount w) = Max (insert 0 (snd ` set fs)) \<and>
        unat (rw_occ_s w) = length (filter (\<lambda>f. 0 < snd f) fs) * 30 div length fs)"

lemma acc_frame_sel:
  "ra_frames (acc_frame u t n a) = ra_frames a + 1"
  "ra_occ (acc_frame u t n a) = (if 0 < n then ra_occ a + 1 else ra_occ a)"
  "ra_tracker (acc_frame u t n a) = (ra_tracker a \<or> t)"
  "ra_max (acc_frame u t n a) = (if 0 < n \<and> uint (ra_max a) < n then of_int n else ra_max a)"
  "ra_since (acc_frame u t n a) = (if 0 < n then (if ra_since a = 0 then u else ra_since a) else 0)"
  by (simp_all add: acc_frame_def Let_def)

lemma acc_frame_rep:
  assumes "acc_rep x fs"
  shows "acc_rep (acc_event e x) (fs @ event_frames e x)"
proof (cases "snd e")
  case None
  then show ?thesis using assms by (simp add: acc_event_def event_frames_def acc_rep_def)
next
  case (Some f)
  obtain t n where f: "f = (t, n)" by fastforce
  have mx: "unat (ra_max (acc_frame u t (int n) a)) = max (unat (ra_max a)) n" if "n \<le> 20" for u a
  proof -
    have "uint (ra_max a) < int n \<longleftrightarrow> unat (ra_max a) < n"
      by (metis of_nat_less_iff uint_nat)
    moreover have "unat (of_int (int n) :: u8) = n"
      using that unat_of_nat_small [of n, where 'a = 8] by simp
    ultimately show ?thesis by (auto simp: acc_frame_sel)
  qed
  have "Max (insert 0 (snd ` set (fs @ [f]))) = max (Max (insert 0 (snd ` set fs))) n"
  proof -
    have "insert 0 (snd ` set (fs @ [f])) = insert n (insert 0 (snd ` set fs))" using f by auto
    then have "Max (insert 0 (snd ` set (fs @ [f]))) = max n (Max (insert 0 (snd ` set fs)))"
      by (simp only: Max_insert [of "insert 0 (snd ` set fs)" n] finite_insert finite_imageI List.finite_set)
        (rule Max_insert, simp_all)
    then show ?thesis by (simp only: max.commute)
  qed
  with mx show ?thesis
    using assms Some f by (auto simp: acc_event_def event_frames_def acc_rep_def acc_frame_sel)
qed

lemma occ_seconds:
  fixes a b :: u16
  assumes "unat a \<le> unat b" and "b \<noteq> 0"
  shows "unat (ucast ((ucast a * 30 :: u32) div ucast b) :: u8) = unat a * 30 div unat b"
    and "unat a * 30 div unat b \<le> 30"
proof -
  have a: "unat a < 65536" using unsigned_less [where ?'a = nat, of a] by simp
  have "unat (ucast a * 30 :: u32) = unat a * 30"
    using a by (subst unat_word_ariths) (simp add: unat_ucast_up)
  then have q: "unat ((ucast a * 30 :: u32) div ucast b) = unat a * 30 div unat b"
    by (simp add: unat_div unat_ucast_up)
  have "0 < unat b" using assms(2) by (simp add: unat_gt_0)
  then have "unat a * 30 div unat b \<le> unat b * 30 div unat b"
    using assms(1) by (intro div_le_mono) simp
  then show le: "unat a * 30 div unat b \<le> 30" using \<open>0 < unat b\<close> by simp
  show "unat (ucast ((ucast a * 30 :: u32) div ucast b) :: u8) = unat a * 30 div unat b"
    using le by (subst unat_ucast_small) (simp_all add: q)
qed

lemma take_sel:
  "rw_headcount (fst (radar_window_take u a)) = ra_max a"
  "rw_alive (fst (radar_window_take u a)) \<longleftrightarrow> ra_frames a \<noteq> 0"
  "rw_tracker (fst (radar_window_take u a)) = ra_tracker a"
  "rw_occ_s (fst (radar_window_take u a)) =
     (if ra_frames a = 0 then 0 else ucast ((ucast (ra_occ a) * 30 :: u32) div ucast (ra_frames a)))"
  "rw_dwell_s (fst (radar_window_take u a)) =
     (if ra_frames a = 0 \<or> ra_since a = 0 then 0
      else if 0xFFFF < cdiv (u - ra_since a) 1000 then 0xFFFF else of_int (cdiv (u - ra_since a) 1000))"
  "snd (radar_window_take u a) =
     \<lparr>ra_max = 0, ra_frames = 0, ra_occ = 0, ra_tracker = False,
      ra_since = (if ra_frames a = 0 then 0 else ra_since a)\<rparr>"
  by (simp_all add: radar_window_take_def Let_def word_gt_0)

lemma take_rep:
  assumes r: "acc_rep x fs" and t: "take_now x = (w, y)"
  shows "window_of fs w \<and> acc_rep y []"
proof -
  have w: "w = fst (radar_window_take (snd x) (fst x))"
    and y: "y = (snd (radar_window_take (snd x) (fst x)), snd x)"
    using t by (auto simp: take_now_def split: prod.splits)
  have "acc_rep y []" by (simp add: acc_rep_def y take_sel)
  moreover have "window_of fs w"
    unfolding window_of_def
  proof (intro impI)
    assume h: "length fs < 65536 \<and> (\<forall>f \<in> set fs. snd f \<le> 20)"
    have f: "unat (ra_frames (fst x)) = length fs"
      using r h unat_of_nat_small [of "length fs", where 'a = 16] by (simp add: acc_rep_def)
    have le: "length (filter (\<lambda>f. 0 < snd f) fs) \<le> length fs" by simp
    then have "length (filter (\<lambda>f. 0 < snd f) fs) < 65536" using h by linarith
    then have o: "unat (ra_occ (fst x)) = length (filter (\<lambda>f. 0 < snd f) fs)"
      using r h unat_of_nat_small [of "length (filter (\<lambda>f. 0 < snd f) fs)", where 'a = 16]
      by (simp add: acc_rep_def)
    have z: "ra_frames (fst x) = 0 \<longleftrightarrow> fs = []"
      using f by (metis length_0_conv unat_eq_zero)
    have "unat (rw_occ_s w) = length (filter (\<lambda>f. 0 < snd f) fs) * 30 div length fs"
    proof (cases "fs = []")
      case True
      then show ?thesis using z by (simp add: w take_sel)
    next
      case False
      then show ?thesis
        using occ_seconds(1) [of "ra_occ (fst x)" "ra_frames (fst x)"] z le f o by (simp add: w take_sel)
    qed
    then show "rw_alive w = (fs \<noteq> []) \<and> rw_tracker w = (\<exists>f \<in> set fs. fst f) \<and>
        unat (rw_headcount w) = Max (insert 0 (snd ` set fs)) \<and>
        unat (rw_occ_s w) = length (filter (\<lambda>f. 0 < snd f) fs) * 30 div length fs"
      using r h z by (simp add: acc_rep_def w take_sel)
  qed
  ultimately show ?thesis by simp
qed

text \<open>The radar keeps the interface of a sensor.\<close>

interpretation presence: windowed acc_event event_frames take_now acc_rep window_of
  by unfold_locales (simp_all only: acc_frame_rep take_rep)


section \<open>The occupancy clock\<close>

text \<open>
  The frames of a history with their times, and when the unbroken occupancy at its end began:
  the first frame of the last run of occupied frames, 0 if the last frame was empty.
\<close>

definition timed :: "(int \<times> (bool \<times> nat) option) list \<Rightarrow> (int \<times> nat) list" where
  "timed evs = concat (map (\<lambda>(u, f). case f of None \<Rightarrow> [] | Some (t, n) \<Rightarrow> [(u, n)]) evs)"

definition occupied_since :: "(int \<times> (bool \<times> nat) option) list \<Rightarrow> int" where
  "occupied_since evs =
     (let run = takeWhile (\<lambda>(u, n). 0 < n) (rev (timed evs)) in if run = [] then 0 else fst (last run))"

lemma timed_snoc: "timed (evs @ [(u, f)]) = timed evs @ (case f of None \<Rightarrow> [] | Some (t, n) \<Rightarrow> [(u, n)])"
  by (simp add: timed_def)

lemma occupied_since_snoc:
  assumes "\<forall>e \<in> set evs. 0 < fst e"
  shows "occupied_since (evs @ [(u, f)]) =
    (case f of None \<Rightarrow> occupied_since evs
     | Some (t, n) \<Rightarrow> if n = 0 then 0 else if occupied_since evs = 0 then u else occupied_since evs)"
proof -
  let ?run = "takeWhile (\<lambda>(u, n). 0 < n) (rev (timed evs))"
  have "0 < fst e" if "e \<in> set (timed evs)" for e
    using that assms by (auto simp: timed_def split: option.splits)
  moreover have "set ?run \<subseteq> set (timed evs)" using set_takeWhileD by fastforce
  ultimately have "?run \<noteq> [] \<Longrightarrow> 0 < fst (last ?run)" by (meson last_in_set subsetD)
  then show ?thesis
    by (auto simp: occupied_since_def timed_snoc Let_def split: option.split)
qed

lemma since_events:
  assumes "ra_since (fst x) = occupied_since evs" and "\<forall>e \<in> set (evs @ es). 0 < fst e"
  shows "ra_since (fst (fold acc_event es x)) = occupied_since (evs @ es)"
  using assms
proof (induction es arbitrary: evs x)
  case (Cons e es)
  obtain u f where e: "e = (u, f)" by fastforce
  have "\<forall>e \<in> set evs. 0 < fst e" using Cons.prems(2) by simp
  then have "ra_since (fst (acc_event e x)) = occupied_since (evs @ [e])"
    using Cons.prems(1) e by (auto simp: occupied_since_snoc acc_event_def acc_frame_sel split: option.split)
  with Cons.IH [of "acc_event e x" "evs @ [e]"] Cons.prems(2) show ?case by simp
qed simp

lemma fold_time: "es \<noteq> [] \<Longrightarrow> snd (fold acc_event es x) = fst (last es)"
  by (induction es rule: rev_induct) (simp_all add: acc_event_def)

lemma seen_frames: "seen acc_event event_frames es x = concat (map (\<lambda>e. event_frames e x) es)"
  by (induction es arbitrary: x) (simp_all add: event_frames_def)

text \<open>A window with a frame in it keeps the clock and reports it.\<close>

lemma live_window:
  assumes r: "acc_rep x []" and since: "ra_since (fst x) = occupied_since evs"
    and pos: "\<forall>e \<in> set (evs @ es). 0 < fst e"
    and live: "\<exists>e \<in> set es. snd e \<noteq> None" and len: "length es < 65536"
    and t: "take_now (fold acc_event es x) = (w, y)"
  shows "ra_since (fst y) = occupied_since (evs @ es)"
    and "rw_dwell_s w =
      (if occupied_since (evs @ es) = 0 then 0
       else if 0xFFFF < cdiv (fst (last es) - occupied_since (evs @ es)) 1000 then 0xFFFF
       else of_int (cdiv (fst (last es) - occupied_since (evs @ es)) 1000))"
proof -
  let ?fs = "seen acc_event event_frames es x"
  have "acc_rep (fold acc_event es x) ?fs" using presence.fold_rep [OF r, of es] by simp
  then have f: "ra_frames (fst (fold acc_event es x)) = of_nat (length ?fs)" by (simp add: acc_rep_def)
  obtain e z where e: "e \<in> set es" "snd e = Some z" using live by auto
  then have "z \<in> set (event_frames e x)" by (simp add: event_frames_def)
  then have "z \<in> set ?fs" using e(1) by (auto simp: seen_frames)
  then have "0 < length ?fs" by (rule length_pos_if_in_set)
  moreover have "length ?fs \<le> length es"
    unfolding seen_frames by (induction es) (auto simp: event_frames_def split: option.split)
  ultimately have nz: "ra_frames (fst (fold acc_event es x)) \<noteq> 0"
    using f len unat_of_nat_small [of "length ?fs", where 'a = 16] by auto
  have y: "y = (snd (radar_window_take (snd (fold acc_event es x)) (fst (fold acc_event es x))), snd (fold acc_event es x))"
    and w: "w = fst (radar_window_take (snd (fold acc_event es x)) (fst (fold acc_event es x)))"
    using t by (auto simp: take_now_def split: prod.splits)
  have es: "es \<noteq> []" using live by auto
  note since' = since_events [OF since pos]
  show "ra_since (fst y) = occupied_since (evs @ es)" using nz since' by (simp add: y take_sel)
  show "rw_dwell_s w =
      (if occupied_since (evs @ es) = 0 then 0
       else if 0xFFFF < cdiv (fst (last es) - occupied_since (evs @ es)) 1000 then 0xFFFF
       else of_int (cdiv (fst (last es) - occupied_since (evs @ es)) 1000))"
    using nz since' fold_time [OF es, of x] by (simp add: w take_sel)
qed

lemma dwell_windows:
  assumes "acc_rep x []" and "ra_since (fst x) = occupied_since evs" and "ess \<noteq> []"
    and "\<forall>e \<in> set (evs @ concat ess). 0 < fst e"
    and "\<forall>es \<in> set ess. length es < 65536 \<and> (\<exists>e \<in> set es. snd e \<noteq> None)"
  shows "rw_dwell_s (last (windows acc_event take_now ess x)) =
     (let since = occupied_since (evs @ concat ess); held = cdiv (fst (last (last ess)) - since) 1000
      in if since = 0 then 0 else if 0xFFFF < held then 0xFFFF else of_int held)"
  using assms
proof (induction ess arbitrary: x evs)
  case (Cons es ess)
  obtain w y where t: "take_now (fold acc_event es x) = (w, y)"
    by (cases "take_now (fold acc_event es x)")
  have pos: "\<forall>e \<in> set (evs @ es). 0 < fst e" using Cons.prems(4) by auto
  note lw = live_window [OF Cons.prems(1,2) pos _ _ t]
  show ?case
  proof (cases "ess = []")
    case True
    then show ?thesis using lw(2) t Cons.prems(5) by (simp add: Let_def)
  next
    case False
    have "acc_rep y []" using presence.window_meets [OF Cons.prems(1) t] by simp
    moreover have "ra_since (fst y) = occupied_since (evs @ es)" using lw(1) Cons.prems(5) by simp
    moreover have "windows acc_event take_now ess y \<noteq> []" using False by (cases ess) (simp_all add: Let_def split: prod.split)
    ultimately show ?thesis
      using Cons.IH [of y "evs @ es"] Cons.prems(4,5) False t by simp
  qed
qed simp


section \<open>The thread on a stream\<close>

text \<open>The thread fed with chunks, each with the uptime and device time, while it streams.\<close>

fun stream_run :: "(int \<times> u32 \<times> bytes) list \<Rightarrow> radar_thread \<Rightarrow> radar_thread option" where
  "stream_run [] th = Some th"
| "stream_run ((u, now, chunk) # cs) th =
     (if th_phase th \<noteq> Streaming then Some th
      else case thread_step (Chunk u now chunk) th of None \<Rightarrow> None | Some th' \<Rightarrow> stream_run cs th')"

lemma chunk_frames:
  assumes "list_all2 (\<lambda>f (h, ts). frame_ready f \<and> frame_of f = build_frame h ts) fs fr"
    and "acc_rep (rs_acc s, t0) xs"
  shows "\<exists>s'. fold_opt (chunk_frame u now) fs (s, l) = Some (s', if fs = [] then l else u) \<and>
           acc_rep (rs_acc s', t0) (xs @ map (\<lambda>(h, ts). count_of ts) fr)"
  using assms
proof (induction fs fr arbitrary: s l xs rule: list_all2_induct)
  case (Cons f fs g fr)
  obtain h ts where g: "g = (h, ts)" by fastforce
  have fr: "frame_ready f" "frame_of f = build_frame h ts" using Cons g by auto
  then have len: "length (build_frame h ts) = r_len f"
    by (metis frame_of_def frame_ready_def length_take min.absorb2)
  have "length (build_frame h ts) \<le> 2048" "take (length (build_frame h ts)) (r_buf f) = build_frame h ts"
    "length (r_buf f) = 2048"
    using fr len by (auto simp: frame_ready_def frame_of_def)
  from on_frame_built [OF this, of u now s] obtain s1 out where
    o: "on_frame u now (r_buf f) s = Some (s1, out)"
    and a: "rs_acc s1 = acc_frame u (fst (count_of ts)) (int (snd (count_of ts))) (rs_acc s)" by blast
  have "acc_rep (rs_acc s1, t0) (xs @ [count_of ts])"
    using acc_frame_rep [OF Cons.prems, of "(u, Some (count_of ts))"] a
    by (simp add: acc_event_def event_frames_def acc_rep_def case_prod_beta)
  from Cons.IH [OF this, of u] show ?case using o g by (auto simp: chunk_frame_def)
qed simp

text \<open>One chunk of a stream of which the frames \<open>fr\<close> are still to come: those completed in it are counted.\<close>

lemma chunk_driven:
  assumes "reasm_inv (th_re th)"
    and "scan (pending (th_re th) @ b @ rest) = map (\<lambda>(h, ts). build_frame h ts) fr"
    and "acc_rep (rs_acc (th_radar th), t0) xs"
  obtains re s fs n where
    "drive tlv_push tlv_reset (chunk_frame u now) (th_re th, th_radar th, th_last th) b =
       Some (re, s, if fs = [] then th_last th else u)"
    and "reasm_inv re" and "tlv_feed (th_re th) b = Some (re, fs)" and "n \<le> length fr"
    and "map frame_of fs = map (\<lambda>(h, ts). build_frame h ts) (take n fr)"
    and "scan (pending re @ rest) = map (\<lambda>(h, ts). build_frame h ts) (drop n fr)"
    and "acc_rep (rs_acc s, t0) (xs @ map (\<lambda>(h, ts). count_of ts) (take n fr))"
proof -
  obtain re fs where f: "tlv_feed (th_re th) b = Some (re, fs)" and s: "reasm_inv re"
    and ready: "\<forall>f \<in> set fs. frame_ready f"
    using feed_defined [OF assms(1)] by blast
  have split: "map frame_of fs @ scan (pending re @ rest) = map (\<lambda>(h, ts). build_frame h ts) fr"
    using scan_split [OF assms(1) f s, of rest] assms(2) by simp
  then have n: "length fs \<le> length fr" by (metis length_append length_map le_add1)
  have fr: "map frame_of fs = map (\<lambda>(h, ts). build_frame h ts) (take (length fs) fr)"
    "scan (pending re @ rest) = map (\<lambda>(h, ts). build_frame h ts) (drop (length fs) fr)"
    using arg_cong [OF split, of "take (length fs)"] arg_cong [OF split, of "drop (length fs)"]
    using n by (simp_all add: take_map drop_map)
  have "frame_of (fs ! i) = (case take (length fs) fr ! i of (h, ts) \<Rightarrow> build_frame h ts)" if "i < length fs" for i
    using arg_cong [OF fr(1), of "\<lambda>l. l ! i"] that n by simp
  then have all: "list_all2 (\<lambda>f (h, ts). frame_ready f \<and> frame_of f = build_frame h ts) fs (take (length fs) fr)"
    using ready n by (auto simp: list_all2_conv_all_nth split: prod.split)
  obtain s' where h: "fold_opt (chunk_frame u now) fs (th_radar th, th_last th) =
      Some (s', if fs = [] then th_last th else u)"
    and rep: "acc_rep (rs_acc s', t0) (xs @ map (\<lambda>(h, ts). count_of ts) (take (length fs) fr))"
    using chunk_frames [OF all assms(3)] by blast
  have "drive tlv_push tlv_reset (chunk_frame u now) (th_re th, th_radar th, th_last th) b =
      Some (re, s', if fs = [] then th_last th else u)"
    unfolding tlv.drive_handler [OF assms(1) f [unfolded tlv_feed_def]] h by simp
  then show ?thesis using that s f n fr rep by blast
qed

lemma chunk_counted:
  assumes "reasm_inv (th_re th)" and "th_phase th = Streaming" and "u - th_last th < RADAR_STALL_MS"
    and "scan (pending (th_re th) @ b @ rest) = map (\<lambda>(h, ts). build_frame h ts) fr"
    and "acc_rep (rs_acc (th_radar th), t0) xs"
  obtains th' fr1 fr2 where "thread_step (Chunk u now b) th = Some th'" and "reasm_inv (th_re th')"
    and "th_phase th' = Streaming" and "fr = fr1 @ fr2"
    and "scan (pending (th_re th') @ rest) = map (\<lambda>(h, ts). build_frame h ts) fr2"
    and "acc_rep (rs_acc (th_radar th'), t0) (xs @ map (\<lambda>(h, ts). count_of ts) fr1)"
proof -
  obtain re s fs n where d: "drive tlv_push tlv_reset (chunk_frame u now) (th_re th, th_radar th, th_last th) b =
       Some (re, s, if fs = [] then th_last th else u)"
    "reasm_inv re" "tlv_feed (th_re th) b = Some (re, fs)" "n \<le> length fr"
    "map frame_of fs = map (\<lambda>(h, ts). build_frame h ts) (take n fr)"
    "scan (pending re @ rest) = map (\<lambda>(h, ts). build_frame h ts) (drop n fr)"
    "acc_rep (rs_acc s, t0) (xs @ map (\<lambda>(h, ts). count_of ts) (take n fr))"
    by (rule chunk_driven [OF assms(1,4,5), where u = u and now = now])
  then show ?thesis
    using assms(2,3)
    by (intro that [of "th\<lparr>th_re := re, th_radar := s, th_last := if fs = [] then th_last th else u\<rparr>" "take n fr" "drop n fr"])
      simp_all
qed

lemma stream_counted:
  assumes "reasm_inv (th_re th)" and "th_phase th = Streaming"
    and "scan (pending (th_re th) @ concat (map (\<lambda>(u, now, c). c) cs)) = map (\<lambda>(h, ts). build_frame h ts) fr"
    and "acc_rep (rs_acc (th_radar th), t0) xs"
  shows "\<exists>th'. stream_run cs th = Some th' \<and>
    (th_phase th' = Streaming \<longrightarrow>
       acc_rep (rs_acc (th_radar th'), t0) (xs @ map (\<lambda>(h, ts). count_of ts) fr))"
  using assms
proof (induction cs arbitrary: th xs fr)
  case Nil
  then have "fr = []" using scan_pending by simp
  then show ?case using Nil by simp
next
  case (Cons c cs)
  obtain u now b where c: "c = (u, now, b)" by (cases c)
  show ?case
  proof (cases "u - th_last th < RADAR_STALL_MS")
    case False
    then have "stream_run (c # cs) th = stream_run cs (th\<lparr>th_phase := Configuring\<rparr>)"
      using Cons.prems(2) c by simp
    also have "\<dots> = Some (th\<lparr>th_phase := Configuring\<rparr>)" by (cases cs) auto
    finally show ?thesis by simp
  next
    case True
    have sc: "scan (pending (th_re th) @ b @ concat (map (\<lambda>(u, now, c). c) cs)) = map (\<lambda>(h, ts). build_frame h ts) fr"
      using Cons.prems(3) c by simp
    obtain th1 fr1 fr2 where t: "thread_step (Chunk u now b) th = Some th1" "reasm_inv (th_re th1)"
      "th_phase th1 = Streaming" "fr = fr1 @ fr2"
      "scan (pending (th_re th1) @ concat (map (\<lambda>(u, now, c). c) cs)) = map (\<lambda>(h, ts). build_frame h ts) fr2"
      "acc_rep (rs_acc (th_radar th1), t0) (xs @ map (\<lambda>(h, ts). count_of ts) fr1)"
      by (rule chunk_counted [OF Cons.prems(1,2) True sc Cons.prems(4)])
    have "stream_run (c # cs) th = stream_run cs th1" using t(1) c Cons.prems(2) by (simp del: thread_step.simps)
    then show ?thesis using Cons.IH [OF t(2,3,5,6)] t(4) by simp
  qed
qed

section \<open>What radar.c promises\<close>

text \<open>
  End to end over the serial line: for any stream of frames the radar builds, with noise
  between them, cut into any chunks arriving at any times, the streaming thread never touches
  memory outside its buffer, and unless it found the stream stalled, the accumulators hold
  exactly the counts of those frames: their number, how many were occupied, the highest
  count, and whether the tracker reported.
\<close>

theorem radar_stream_counted:
  assumes "\<forall>g \<in> set segs. segment_ok g" and "concat (map (\<lambda>(u, now, c). c) chunks) = concat (map segment_bytes segs)"
    and "th_phase th = Streaming" and "th_re th = tlv_reset re" and "length (r_buf re) = 2048"
    and "acc_rep (rs_acc (th_radar th), t0) fs"
  shows "\<exists>th'. stream_run chunks th = Some th' \<and>
    (th_phase th' = Streaming \<longrightarrow>
       acc_rep (rs_acc (th_radar th'), t0) (fs @ map (\<lambda>(noise, h, ts). count_of ts) segs))"
proof -
  note sc = scan_segments [OF assms(1)]
  have m: "map (\<lambda>(noise, h, ts). build_frame h ts) segs = map (\<lambda>(h, ts). build_frame h ts) (map snd segs)"
    and n: "map (\<lambda>(noise, h, ts). count_of ts) segs = map (\<lambda>(h, ts). count_of ts) (map snd segs)"
    by (simp_all add: case_prod_beta)
  have "reasm_inv (th_re th)" using assms(4,5) inv_reset by simp
  from stream_counted [OF this assms(3) _ assms(6), of chunks "map snd segs"] show ?thesis
    using sc assms(2,4) unfolding m n by simp
qed

definition streaming :: radar_thread where
  "streaming = \<lparr>th_phase = Streaming, th_re = tlv_reset reasm0, th_radar = radar_boot, th_last = 0\<rparr>"

lemma acc_rep_boot: "acc_rep (rs_acc radar_boot, t0) []"
  by (simp add: acc_rep_def radar_boot_def)

theorem radar_stream_counted_witness:
  "\<exists>th'. stream_run [(100, 0, take 30 sample_frame), (105, 0, drop 30 sample_frame)] streaming = Some th' \<and>
     (th_phase th' \<noteq> Streaming \<or>
      acc_rep (rs_acc (th_radar th'), 0) [count_of [(306, replicate 24 0), (315, [4, 0x21])]])"
proof -
  let ?ts = "[(306, replicate 24 0), (315, [4, 0x21])] :: (u32 \<times> bytes) list"
  have "\<not> sublist tlv_magic []" by (simp add: tlv_magic_def)
  moreover have "length (build_frame sample_header ?ts) \<le> 2048" by simp
  ultimately have "segment_ok ([], sample_header, ?ts)" by (simp add: segment_ok_def)
  moreover have "segment_bytes ([], sample_header, ?ts) = sample_frame"
    by (simp add: segment_bytes_def sample_frame_def)
  ultimately show ?thesis
    using radar_stream_counted [of "[([], sample_header, ?ts)]"
        "[(100, 0, take 30 sample_frame), (105, 0, drop 30 sample_frame)]" streaming reasm0 0 "[]"]
      acc_rep_boot [of 0]
    by (auto simp: streaming_def reasm0_def)
qed

text \<open>
  The count of any completed frame is between 0 and 20 people, and a floor of 0 or 1 when
  the frame has no target list; it is the reference count of the frame's own TLVs.
\<close>

theorem frame_count_bounded:
  assumes "frame_ready r"
  shows "\<exists>tracker n tgt. frame_count (r_buf r) = Some (tracker, n, tgt) \<and>
           (tracker, n) = map_prod id int (count_of (tlvs (drop 40 (frame_of r)))) \<and>
           0 \<le> n \<and> n \<le> 20 \<and> (tracker \<or> n \<le> 1)"
proof -
  let ?c = "count_of (tlvs (drop 40 (frame_of r)))"
  have "\<exists>tgt. frame_count (r_buf r) = Some (fst ?c, int (snd ?c), tgt)"
    unfolding frame_of_def by (rule frame_count_spec) (use assms in \<open>simp_all add: frame_ready_def\<close>)
  then obtain tgt where "frame_count (r_buf r) = Some (fst ?c, int (snd ?c), tgt)" by blast
  moreover have "snd ?c \<le> 20" by (rule count_bound)
  moreover have "fst ?c \<or> snd ?c \<le> 1" using count_floor by blast
  moreover have "(fst ?c, int (snd ?c)) = map_prod id int ?c" by (simp add: prod_eq_iff)
  ultimately show ?thesis by (intro exI conjI) auto
qed

theorem frame_count_bounded_witness:
  "\<exists>tracker n tgt. frame_count (sample_frame @ replicate 1966 0xFF) = Some (tracker, n, tgt) \<and>
     0 \<le> n \<and> n \<le> 20 \<and> (tracker \<or> n \<le> 1)"
proof -
  let ?r = "\<lparr>r_buf = sample_frame @ replicate 1966 0xFF, r_len = 82, r_want = 0, r_match = 0\<rparr>"
  have "take 8 sample_frame = tlv_magic" by (simp add: sample_frame_def take8_build_frame)
  then have "frame_ready ?r" by (simp add: frame_ready_def sample_frame_facts le32_at_append)
  from frame_count_bounded [OF this] show ?thesis by auto
qed

text \<open>
  C19: over any number of windows, each window handed over describes the frames that came in it
  and no others: alive if there were any, headcount the highest count, the tracker flag set if
  any had a target list, and the occupied seconds the occupied fraction of the frames scaled
  to the 30 s of the period (hence at most 30), as long as a window has fewer than 65536 frames.
\<close>

theorem radar_windows:
  assumes "acc_rep x []"
  shows "list_all2 (\<lambda>fs w. window_of fs w \<and> (length fs < 65536 \<and> (\<forall>f \<in> set fs. snd f \<le> 20) \<longrightarrow> unat (rw_occ_s w) \<le> 30))
           (samples acc_event event_frames take_now evs x) (windows acc_event take_now evs x)"
proof -
  have occ: "window_of fs w \<Longrightarrow> length fs < 65536 \<and> (\<forall>f \<in> set fs. snd f \<le> 20) \<Longrightarrow> unat (rw_occ_s w) \<le> 30"
    for fs w
  proof -
    assume "window_of fs w" "length fs < 65536 \<and> (\<forall>f \<in> set fs. snd f \<le> 20)"
    then have "unat (rw_occ_s w) = length (filter (\<lambda>f. 0 < snd f) fs) * 30 div length fs"
      by (simp add: window_of_def)
    also have "\<dots> \<le> length fs * 30 div length fs" by (intro div_le_mono) simp
    also have "\<dots> \<le> 30" by (cases "fs = []") simp_all
    finally show ?thesis .
  qed
  show ?thesis
    using presence.windows_meet [OF assms, of evs] by (rule list_all2_mono) (blast intro: occ)
qed

theorem radar_windows_witness:
  "list_all2 window_of
     (samples acc_event event_frames take_now [[(250, Some (True, 2))], []] (rs_acc radar_boot, 0))
     (windows acc_event take_now [[(250, Some (True, 2))], []] (rs_acc radar_boot, 0))"
  by (rule list_all2_mono [OF radar_windows [OF acc_rep_boot]]) blast

text \<open>
  C22: dwell is the age of the current unbroken occupancy: across any number of windows that each
  had a frame, the dwell of the last is the whole seconds from the first frame of the last
  run of occupied frames, in whatever window it lies, to the moment of the take, capped at
  65535, and 0 if the last frame was empty.
\<close>

theorem dwell_correct:
  assumes "acc_rep x []" and "ra_since (fst x) = 0" and "ess \<noteq> []"
    and "\<forall>es \<in> set ess. length es < 65536 \<and> (\<exists>e \<in> set es. snd e \<noteq> None)"
    and "\<forall>e \<in> set (concat ess). 0 < fst e"
  shows "rw_dwell_s (last (windows acc_event take_now ess x)) =
     (let since = occupied_since (concat ess); held = cdiv (fst (last (last ess)) - since) 1000
      in if since = 0 then 0 else if 0xFFFF < held then 0xFFFF else of_int held)"
proof -
  have "ra_since (fst x) = occupied_since []" using assms(2) by (simp add: occupied_since_def timed_def)
  from dwell_windows [OF assms(1) this assms(3) _ assms(4)] assms(5) show ?thesis by simp
qed

theorem dwell_correct_witness:
  "rw_dwell_s (last (windows acc_event take_now
     [[(250, Some (True, 0)), (500, Some (True, 1)), (30000, None)], [(30250, Some (True, 3)), (60000, None)]]
     (rs_acc radar_boot, 0))) = 59"
proof -
  let ?ess = "[[(250, Some (True, 0)), (500, Some (True, 1)), (30000, None)], [(30250, Some (True, 3)), (60000, None)]]
    :: (int \<times> (bool \<times> nat) option) list list"
  have "rw_dwell_s (last (windows acc_event take_now ?ess (rs_acc radar_boot, 0))) =
     (let since = occupied_since (concat ?ess); held = cdiv (fst (last (last ?ess)) - since) 1000
      in if since = 0 then 0 else if 0xFFFF < held then 0xFFFF else of_int held)"
    using acc_rep_boot [of 0] by (intro dwell_correct) (auto simp: radar_boot_def)
  also have "\<dots> = 59" by (simp add: occupied_since_def timed_def cdiv_def)
  finally show ?thesis .
qed

text \<open>
  A window in which no frame came is reported dead: not alive, headcount, occupied seconds and
  dwell all 0, and the occupancy clock is stopped, however long it had been running.
\<close>

theorem dead_window:
  assumes "acc_rep x []" and "\<forall>e \<in> set es. snd e = None"
  shows "case take_now (fold acc_event es x) of (w, y) \<Rightarrow>
           w = \<lparr>rw_headcount = 0, rw_occ_s = 0, rw_dwell_s = 0, rw_alive = False, rw_tracker = False\<rparr> \<and>
           ra_since (fst y) = 0"
proof -
  have "fst (fold acc_event es x) = fst x"
    using assms(2) by (induction es arbitrary: x) (auto simp: acc_event_def)
  moreover have "ra_frames (fst x) = 0" "ra_max (fst x) = 0" "\<not> ra_tracker (fst x)"
    using assms(1) by (simp_all add: acc_rep_def unat_eq_zero)
  ultimately show ?thesis
    by (simp add: take_now_def take_sel case_prod_beta radar_window.equality)
qed

theorem dead_window_witness:
  "rw_dwell_s (fst (take_now (fold acc_event [(90000, None)]
     (\<lparr>ra_max = 0, ra_frames = 0, ra_occ = 0, ra_tracker = False, ra_since = 500\<rparr>, 60000)))) = 0"
  using dead_window [of "(\<lparr>ra_max = 0, ra_frames = 0, ra_occ = 0, ra_tracker = False, ra_since = 500\<rparr>, 60000)"
      "[(90000, None)]"]
  by (auto simp: acc_rep_def split: prod.splits)


text \<open>
  A frame of 48 bytes with a correct total length that announces two TLVs, of which the first
  claims a length that brings the 32-bit offset just below \<open>2^32\<close>.
\<close>

definition lying_frame :: bytes where
  "lying_frame = tlv_magic @ le32 0x05050300 @ le32 48 @ le32 0 @ le32 1 @ le32 0 @ le32 0 @ le32 2 @ le32 0 @
                 le32 301 @ le32 0xFFFFFFC8"

lemma lying_frame_facts:
  "length lying_frame = 48" "take 8 lying_frame = tlv_magic" "le32_at lying_frame 12 = 48"
  "le32_at lying_frame 32 = 2" "le32_at lying_frame 40 = 301" "le32_at lying_frame 44 = 0xFFFFFFC8"
  by (simp_all add: lying_frame_def le32_at_skip) (simp add: le32_at_def le32_def of_le32_def)

lemma lying_scan: "scan lying_frame = [lying_frame]"
  using scan_frame [of lying_frame "[]"] lying_frame_facts
  by (simp add: scan.simps [of "[]"])

text \<open>Once the offset is just below \<open>2^32\<close> the check passes, and the read is outside.\<close>

lemma walk_out: "length m = 2048 \<Longrightarrow> i < num \<Longrightarrow> types_loop m num tot i 0xFFFFFFF8 = None"
proof -
  have u: "unat (0xFFFFFFF8 :: u32) = 0xFFFFFFF8" by simp
  assume "length m = 2048" "i < num"
  moreover have "rd_le32 m (unat (0xFFFFFFF8 :: u32)) = None"
    unfolding u using \<open>length m = 2048\<close> by (intro rd_le32_out) simp
  moreover have "(0xFFFFFFF8 :: u32) + 8 = 0" by simp
  then have "(0xFFFFFFF8 :: u32) + 8 \<le> tot" by (simp only: word_zero_le)
  ultimately show ?thesis by (subst types_loop.simps) (simp add: u)
qed

lemma rd_le32_at: "i + 4 \<le> length m \<Longrightarrow> rd_le32 m i = Some (le32_at m i)"
  using rd_u32_in [of i m] by (simp add: rd_u32_le32)

text \<open>A completed frame on which the walk leaves the buffer is the end of \<open>on_frame\<close>, its count aside.\<close>

lemma on_frame_out:
  assumes ready: "frame_ready f" and fr: "frame_of f = p"
    and "\<And>m. length m = 2048 \<Longrightarrow> take (length p) m = p \<Longrightarrow>
           types_loop m (le32_at p 32) (le32_at p 12) 0 40 = None"
  shows "frame_count (r_buf f) \<noteq> None" and "on_frame uptime now (r_buf f) s = None"
proof -
  have len: "length p = r_len f" "40 \<le> r_len f" "r_len f \<le> 2048" "length (r_buf f) = 2048"
    using ready fr by (auto simp: frame_ready_def frame_of_def)
  have m: "take (length p) (r_buf f) = p" using fr len by (simp add: frame_of_def)
  have at: "le32_at (r_buf f) i = le32_at p i" if "i + 4 \<le> length p" for i
    using le32_at_take [OF that, of "r_buf f"] m by simp
  show fc: "frame_count (r_buf f) \<noteq> None"
    using frame_count_spec [of "r_len f" "r_buf f"] ready by (auto simp: frame_ready_def)
  have "types_loop (r_buf f) (le32_at (r_buf f) 32) (le32_at (r_buf f) 12) 0 40 = None"
    using assms(3) [OF len(4) m] at [of 12] at [of 32] len by simp
  then show "on_frame uptime now (r_buf f) s = None"
    using fc len by (auto simp: on_frame_def header_get_in Let_def split: option.split)
qed

lemma lying_walk:
  assumes "length m = 2048" and "take 48 m = lying_frame"
  shows "types_loop m 2 48 0 40 = None"
proof -
  have "rd_le32 m i = Some (le32_at lying_frame i)" if "i + 4 \<le> 48" for i
    using le32_at_take [OF that, of m] rd_le32_at [of i m] assms that by simp
  from this [of 40] this [of 44] have "rd_le32 m 40 = Some 301" "rd_le32 m 44 = Some 0xFFFFFFC8"
    by (simp_all only: lying_frame_facts)
  then show ?thesis using walk_out [OF assms(1), of 1 2 48] by (subst types_loop.simps) simp
qed

text \<open>
  The diagnostic walk over the TLV types has no check of the lengths it adds up: there is a
  frame of 48 bytes that the reassembler delivers, that the parsing part of \<open>on_frame\<close> handles
  without touching memory outside the buffer, and on which the diagnostic block then reads
  outside it, whatever the state and the time.
\<close>

theorem diagnostic_walk_out_of_bounds:
  "\<exists>re f. tlv_feed reasm0 lying_frame = Some (re, [f]) \<and> frame_ready f \<and>
     frame_count (r_buf f) \<noteq> None \<and> on_frame uptime now (r_buf f) s = None"
proof -
  have "tlv_reset reasm0 = reasm0" by (simp add: tlv_reset_def reasm0_def)
  then obtain re fs where fd: "tlv_feed reasm0 lying_frame = Some (re, fs)"
    and sc: "map frame_of fs = [lying_frame]" and ready: "\<forall>f \<in> set fs. frame_ready f"
    using reassembler_scan [of reasm0 lying_frame] by (auto simp: lying_scan reasm0_def)
  then obtain f where f: "fs = [f]" "frame_of f = lying_frame" "frame_ready f" by auto
  have "types_loop m (le32_at lying_frame 32) (le32_at lying_frame 12) 0 40 = None"
    if "length m = 2048" "take (length lying_frame) m = lying_frame" for m
    using lying_walk that lying_frame_facts by simp
  from on_frame_out [OF f(3,2) this] fd f show ?thesis by blast
qed

text \<open>
  Stall detection: a streaming thread leaves for a new configuration exactly at the first
  poll 10 s or more after the last completed frame (or the start of streaming). A successful
  configuration starts streaming with a fresh reassembler and a fresh timer, a failed one
  keeps configuring.
\<close>

theorem stall_detected:
  assumes "th_phase th = Streaming" and "thread_step (Chunk uptime now chunk) th = Some th'"
  shows "(th_phase th' = Configuring \<longleftrightarrow> RADAR_STALL_MS \<le> uptime - th_last th) \<and>
         (th_phase th' = Configuring \<longrightarrow>
            thread_step (Configured err u2) th' =
              Some (if err \<noteq> 0 then th'
                    else th'\<lparr>th_phase := Streaming, th_re := tlv_reset (th_re th), th_last := u2\<rparr>) \<and>
            th_radar th' = th_radar th)"
  using assms by (auto split: if_splits)

theorem stall_detected_witness:
  "\<exists>th'. thread_step (Chunk 10000 0 []) streaming = Some th' \<and> th_phase th' = Configuring"
proof -
  have st: "thread_step (Chunk 10000 0 []) streaming = Some (streaming\<lparr>th_phase := Configuring\<rparr>)"
    by (simp add: streaming_def)
  from stall_detected [OF _ st, of 0 0] st show ?thesis by (auto simp: streaming_def)
qed

end
