(* ===== verification/Radar_Cli.thy ===== *)
theory Radar_Cli
  imports Prelude
begin

text \<open>
  The bring-up half of src/src/radar.c: the radar's command line over the serial port, read from
  the receive ring with a 96-byte window that slides (\<open>cli_wait\<close>), the reset sequence and the
  configuration script. The board (uart, receive ring, pins, clock) is a parameter. Proved
  here: the window never overflows, and on replies without NUL bytes the sliding search finds
  the tokens exactly when a search of the whole reply would; the wait returns; a
  configuration succeeds exactly if the wait after the last command does, which it does only
  if Done was among the bytes received in it, whatever bytes they were.
\<close>

section \<open>The board\<close>

record 'e radar_io =
  io_uptime :: "'e \<Rightarrow> int"
  io_ring_get :: "'e \<Rightarrow> u8 option \<times> 'e"
  io_pin :: "'e \<Rightarrow> bool"
  io_poll_out :: "u8 \<Rightarrow> 'e \<Rightarrow> 'e"
  io_msleep :: "nat \<Rightarrow> 'e \<Rightarrow> 'e"
  io_nrst :: "bool \<Rightarrow> 'e \<Rightarrow> 'e"

section \<open>Texts\<close>

definition text_bytes :: "string \<Rightarrow> bytes" where
  "text_bytes s = map of_char s"

definition RADAR_PROMPT :: bytes where
  "RADAR_PROMPT = text_bytes ''mmwDemo:/>''"

definition DONE :: bytes where
  "DONE = text_bytes ''Done''"

definition cfg_lines :: "string list" where
  "cfg_lines =
    [''sensorStop 0'',
     ''channelCfg 7 3 0'',
     ''chirpComnCfg 8 0 0 256 4 23 2'',
     ''chirpTimingCfg 6 24 0 75 60.5'',
     ''frameCfg 2 4 600 4 250 0'',
     ''guiMonitor 2 0 0 0 0 1 1 0 1 0 0 0'',
     ''sigProcChainCfg 64 4 3 2 4 4 0 0.5'',
     ''cfarCfg 2 8 4 3 0 15 0 0.5 0 1 1 1'',
     ''aoaFovCfg -70 70 -60 60'',
     ''rangeSelCfg 0.25 7.5'',
     ''clutterRemoval 1'',
     ''compRangeBiasAndRxChanPhase 0.0 1.00000 0.00000 -1.00000 0.00000 1.00000 0.00000 -1.00000 0.00000 1.00000 0.00000 -1.00000 0.00000'',
     ''adcDataSource 0 adc_data_0001_CtestAdc6Ant.bin'',
     ''adcLogging 0'',
     ''lowPowerCfg 0'',
     ''factoryCalibCfg 1 0 36 3 0x1ff000'',
     ''sensorPosition 0 0 1.5 0 0'',
     ''mpdBoundaryBox 1 -3.5 3.5 0 7 0 3'',
     ''minorStateCfg 4 3 12 8 5 20 4 20'',
     ''clusterCfg 1 1 2'',
     ''trackingCfg 1 2 100 3 61.4 191.8 250'',
     ''sensorStart 0 0 0 0'']"

section \<open>Waiting for the prompt\<close>

text \<open>
  The locals \<open>buf\<close>, \<open>fill\<close>, \<open>done\<close> and the diagnostic statics \<open>cli_rx_n\<close>, \<open>cli_rx_head\<close>,
  \<open>cli_rx_lvl\<close>. Buffers keep their size; an access outside one is \<open>None\<close>.
\<close>

record cli =
  cl_buf :: bytes
  cl_fill :: nat
  cl_done :: int
  cl_rx_n :: u32
  cl_rx_head :: bytes
  cl_rx_lvl :: u8

text \<open>The C string at the start of a buffer: undefined without a terminator in it.\<close>

definition cstr :: "bytes \<Rightarrow> bytes option" where
  "cstr m = (if 0 \<in> set m then Some (takeWhile (\<lambda>c. c \<noteq> 0) m) else None)"

definition cli_head_put :: "u8 \<Rightarrow> cli \<Rightarrow> cli option" where
  "cli_head_put b c =
     (if unat (cl_rx_n c) < 128
      then map_option (\<lambda>h. c\<lparr>cl_rx_head := h\<rparr>)
             (poke (cl_rx_head c) (unat (cl_rx_n c)) [if 0x20 \<le> b \<and> b < 0x7F then b else 0x2E, 0])
      else Some c)"

text \<open>The body of the loop for one byte; \<open>Some r\<close> is the return inside the loop.\<close>

definition cli_byte :: "u8 \<Rightarrow> cli \<Rightarrow> (int option \<times> cli) option" where
  "cli_byte b c =
     (case cli_head_put b c of None \<Rightarrow> None
      | Some c \<Rightarrow>
          let c = c\<lparr>cl_rx_n := cl_rx_n c + 1\<rparr> in
          (case poke (cl_buf c) (cl_fill c) [b] of None \<Rightarrow> None
           | Some m \<Rightarrow>
               let fill = cl_fill c + 1 in
               (case poke m fill [0] of None \<Rightarrow> None
                | Some m \<Rightarrow>
                    (case cstr m of None \<Rightarrow> None
                     | Some str \<Rightarrow>
                         let done = (if cl_done c = 0 \<and> sublist DONE str then 1 else cl_done c);
                             c = c\<lparr>cl_buf := m, cl_fill := fill, cl_done := done\<rparr> in
                         if sublist RADAR_PROMPT str then Some (Some done, c)
                         else if fill \<ge> 95
                         then (case poke m 0 (take 16 (drop (fill - 16) m)) of None \<Rightarrow> None
                               | Some m \<Rightarrow>
                                   map_option (\<lambda>m. (None, c\<lparr>cl_buf := m, cl_fill := 16\<rparr>)) (poke m 16 [0]))
                         else Some (None, c)))))"

definition cli_wait_init :: "cli \<Rightarrow> cli option" where
  "cli_wait_init c =
     (case (poke (cl_buf c) 0 [0], poke (cl_rx_head c) 0 [0]) of
        (Some m, Some h) \<Rightarrow>
          Some (c\<lparr>cl_buf := m, cl_fill := 0, cl_done := 0, cl_rx_n := 0, cl_rx_head := h, cl_rx_lvl := 0\<rparr>)
      | _ \<Rightarrow> None)"

partial_function (option) cli_wait_loop ::
  "'e radar_io \<Rightarrow> int \<Rightarrow> cli \<Rightarrow> 'e \<Rightarrow> (int \<times> cli \<times> 'e) option" where
  "cli_wait_loop io deadline c e =
     (if \<not> io_uptime io e < deadline then Some (cl_done c, c, e)
      else case io_ring_get io e of
             (None, e) \<Rightarrow>
               cli_wait_loop io deadline
                 (c\<lparr>cl_rx_lvl := cl_rx_lvl c OR (if io_pin io e then 2 else 1)\<rparr>) (io_msleep io 2 e)
           | (Some b, e) \<Rightarrow>
               (case cli_byte b c of None \<Rightarrow> None
                | Some (Some r, c) \<Rightarrow> Some (r, c, e)
                | Some (None, c) \<Rightarrow> cli_wait_loop io deadline c e))"

definition cli_wait :: "'e radar_io \<Rightarrow> int \<Rightarrow> cli \<Rightarrow> 'e \<Rightarrow> (int \<times> cli \<times> 'e) option" where
  "cli_wait io timeout c e =
     (case cli_wait_init c of None \<Rightarrow> None
      | Some c \<Rightarrow> cli_wait_loop io (io_uptime io e + timeout) c e)"

section \<open>Commands\<close>

partial_function (option) cli_drain :: "'e radar_io \<Rightarrow> 'e \<Rightarrow> 'e option" where
  "cli_drain io e =
     (case io_ring_get io e of (None, e) \<Rightarrow> Some e | (Some b, e) \<Rightarrow> cli_drain io e)"

fun cli_write :: "'e radar_io \<Rightarrow> bytes \<Rightarrow> 'e \<Rightarrow> 'e" where
  "cli_write io [] e = e"
| "cli_write io (ch # s) e = cli_write io s (io_msleep io 1 (io_poll_out io ch e))"

definition cli_line :: "'e radar_io \<Rightarrow> string \<Rightarrow> int \<Rightarrow> cli \<Rightarrow> 'e \<Rightarrow> (int \<times> cli \<times> 'e) option" where
  "cli_line io line timeout c e =
     (case cli_drain io e of None \<Rightarrow> None
      | Some e \<Rightarrow> cli_wait io timeout c (cli_write io (text_bytes ''\<newline>'') (cli_write io (text_bytes line) e)))"

definition radar_reset :: "'e radar_io \<Rightarrow> cli \<Rightarrow> 'e \<Rightarrow> (cli \<times> 'e) option" where
  "radar_reset io c e =
     (case cli_line io ''sensorStop 0'' 2000 c e of None \<Rightarrow> None | Some (_, c, e) \<Rightarrow>
      (case cli_line io ''sensorWarmRst 0'' 2000 c e of None \<Rightarrow> None | Some (_, c, e) \<Rightarrow>
       (let e = io_nrst io True e; e = io_msleep io 20 e; e = io_nrst io False e; e = io_msleep io 2000 e
        in case cli_drain io e of None \<Rightarrow> None | Some e \<Rightarrow>
           (case cli_line io '''' 500 c e of None \<Rightarrow> None | Some (_, c, e) \<Rightarrow> Some (c, e)))))"

fun configure_lines :: "'e radar_io \<Rightarrow> string list \<Rightarrow> cli \<Rightarrow> 'e \<Rightarrow> (int \<times> cli \<times> 'e) option" where
  "configure_lines io [] c e = Some (0, c, e)"
| "configure_lines io (ln # lns) c e =
     (let is_start = (take 11 ln = ''sensorStart'') in
      case cli_line io ln (if is_start then 15000 else 3000) c e of None \<Rightarrow> None
      | Some (ok, c, e) \<Rightarrow>
          if ok \<noteq> 0 then configure_lines io lns c e
          else if is_start then Some (- EIO, c, e)
          else configure_lines io lns c e)"

definition radar_configure :: "'e radar_io \<Rightarrow> cli \<Rightarrow> 'e \<Rightarrow> (int \<times> cli \<times> 'e) option" where
  "radar_configure io c e =
     (case radar_reset io c e of None \<Rightarrow> None | Some (c, e) \<Rightarrow> configure_lines io cfg_lines c e)"

section \<open>The receive interrupt\<close>

text \<open>
  The receive ring and the two counters. \<open>uart_fifo_read\<close> returns a count and the bytes (at most
  64, what fits \<open>b\<close>); the list holds what it returns while \<open>uart_irq_rx_ready\<close> holds.
  \<open>ring_buf_put\<close> stores what fits and returns how much that was.
\<close>

abbreviation (input) RX_RING_SIZE :: nat where "RX_RING_SIZE \<equiv> 4096"

record rx =
  rx_rb :: bytes
  rx_dropped :: u32
  rx_total :: u32

definition ring_buf_put :: "bytes \<Rightarrow> bytes \<Rightarrow> nat \<times> bytes" where
  "ring_buf_put rb data =
     (let n = min (length data) (RX_RING_SIZE - length rb) in (n, rb @ take n data))"

fun uart_isr :: "bool \<Rightarrow> (int \<times> bytes) list \<Rightarrow> rx \<Rightarrow> rx" where
  "uart_isr update [] s = s"
| "uart_isr update ((n, b) # reads) s =
     (if \<not> update then s
      else if n \<le> 0 then s
      else let s = s\<lparr>rx_total := rx_total s + of_int n\<rparr>;
               (put, rb) = ring_buf_put (rx_rb s) (take (nat n) b);
               s = s\<lparr>rx_rb := rb\<rparr>;
               s = (if put < nat n then s\<lparr>rx_dropped := rx_dropped s + 1\<rparr> else s)
           in uart_isr update reads s)"

section \<open>The sliding window\<close>

lemma DONE_eq: "DONE = [0x44, 0x6F, 0x6E, 0x65]"
  by (simp add: DONE_def text_bytes_def of_char_def)

lemma RADAR_PROMPT_eq: "RADAR_PROMPT = [0x6D, 0x6D, 0x77, 0x44, 0x65, 0x6D, 0x6F, 0x3A, 0x2F, 0x3E]"
  by (simp add: RADAR_PROMPT_def text_bytes_def of_char_def)

lemma newline_eq: "text_bytes ''\<newline>'' = [0x0A]"
  by (simp add: text_bytes_def of_char_def)


text \<open>
  The state after the bytes \<open>bs\<close> without the prompt among them: the window holds the end of the
  stream, all of it or at least sixteen bytes.
\<close>

definition window_inv :: "cli \<Rightarrow> bytes \<Rightarrow> bool" where
  "window_inv c bs \<longleftrightarrow>
     length (cl_buf c) = 96 \<and> length (cl_rx_head c) = 129 \<and> cl_fill c \<le> 94 \<and> cl_fill c \<le> length bs \<and>
     (cl_fill c = length bs \<or> 16 \<le> cl_fill c) \<and>
     take (cl_fill c) (cl_buf c) = drop (length bs - cl_fill c) bs \<and>
     cl_done c = of_bool (sublist DONE bs) \<and> \<not> sublist RADAR_PROMPT bs \<and> 0 \<notin> set bs"

lemma new_token:
  assumes "\<not> sublist tok bs" and "k \<le> length bs" and "k = 0 \<or> length tok \<le> length bs - k + 1"
  shows "sublist tok (drop k bs @ [b]) \<longleftrightarrow> sublist tok (bs @ [b])"
proof -
  have "\<not> sublist tok (drop k bs)"
  proof
    assume "sublist tok (drop k bs)"
    then obtain ps ss where "drop k bs = ps @ tok @ ss" by (auto simp: sublist_def)
    then have "bs = (take k bs @ ps) @ tok @ ss" by (metis append_assoc append_take_drop_id)
    then have "sublist tok bs" by (metis sublist_appendI)
    with assms(1) show False ..
  qed
  then have l: "sublist tok (drop k bs @ [b]) \<longleftrightarrow> suffix tok (drop k bs @ [b])"
    by (simp add: sublist_snoc)
  have r: "sublist tok (bs @ [b]) \<longleftrightarrow> suffix tok (bs @ [b])"
    using assms(1) by (simp add: sublist_snoc)
  have s: "suffix (drop k bs @ [b]) (bs @ [b])" by (simp add: suffix_drop)
  show ?thesis
  proof (cases "k = 0")
    case False
    then have "length tok \<le> length (drop k bs @ [b])" using assms(2,3) by simp
    then show ?thesis
      unfolding l r using s suffix_length_suffix suffix_order.trans by blast
  qed simp
qed

lemma head_put_ok:
  assumes "length (cl_rx_head c) = 129"
  shows "\<exists>h. cli_head_put b c = Some (c\<lparr>cl_rx_head := h\<rparr>) \<and> length h = 129"
proof (cases "unat (cl_rx_n c) < 128")
  case True
  define x :: u8 where "x = (if 0x20 \<le> b \<and> b < 0x7F then b else 0x2E)"
  let ?h = "take (unat (cl_rx_n c)) (cl_rx_head c) @ [x, 0] @ drop (unat (cl_rx_n c) + 2) (cl_rx_head c)"
  have "poke (cl_rx_head c) (unat (cl_rx_n c)) [x, 0] = Some ?h" using True assms by (simp add: poke_eq)
  then have "cli_head_put b c = Some (c\<lparr>cl_rx_head := ?h\<rparr>)"
    using True by (simp only: cli_head_put_def x_def [symmetric]) simp
  moreover have "length ?h = 129" using True assms by simp
  ultimately show ?thesis by blast
next
  case False
  then have "cli_head_put b c = Some (c\<lparr>cl_rx_head := cl_rx_head c\<rparr>)" by (simp add: cli_head_put_def)
  then show ?thesis using assms by blast
qed

lemma cstr_append: "0 \<notin> set xs \<Longrightarrow> cstr (xs @ 0 # ys) = Some xs"
proof -
  assume "0 \<notin> set xs"
  then have "takeWhile (\<lambda>c. c \<noteq> 0) (xs @ 0 # ys) = xs" by (induction xs) auto
  then show ?thesis by (simp add: cstr_def)
qed

text \<open>What the body does to the buffer when it is no overflow: write, search, maybe slide.\<close>

lemma cli_byte_buffer:
  assumes "length (cl_buf c) = 96" and "length (cl_rx_head c) = 129" and "cl_fill c \<le> 94"
    and "0 \<notin> set (take (cl_fill c) (cl_buf c) @ [b])" and str_def: "str = take (cl_fill c) (cl_buf c) @ [b]"
    and dn_def: "dn = (if cl_done c = 0 \<and> sublist DONE str then 1 else cl_done c)"
  obtains c' where
    "cli_byte b c = Some (if sublist RADAR_PROMPT str then Some dn else None, c')"
    and "length (cl_buf c') = 96" and "length (cl_rx_head c') = 129" and "cl_done c' = dn"
    and "\<not> sublist RADAR_PROMPT str \<Longrightarrow> cl_fill c' = (if cl_fill c = 94 then 16 else cl_fill c + 1)"
    and "\<not> sublist RADAR_PROMPT str \<Longrightarrow>
         take (cl_fill c') (cl_buf c') = (if cl_fill c = 94 then drop 79 str else str)"
proof -
  let ?f = "cl_fill c" and ?t = "take (cl_fill c) (cl_buf c)"
  obtain h where h: "cli_head_put b c = Some (c\<lparr>cl_rx_head := h\<rparr>)" and lh: "length h = 129"
    using head_put_ok [OF assms(2)] by blast
  let ?m1 = "?t @ [b] @ drop (?f + 1) (cl_buf c)" and ?m = "str @ 0 # drop (?f + 2) (cl_buf c)"
  have m1: "poke (cl_buf c) ?f [b] = Some ?m1" using assms(1,3) by (simp add: poke_eq)
  have "?f + 1 + length [0 :: u8] \<le> length ?m1" using assms(1,3) by simp
  then have m: "poke ?m1 (Suc ?f) [0] = Some ?m"
    using assms(1,3) by (simp add: poke_eq str_def)
  have cs: "cstr ?m = Some str" by (rule cstr_append) (use assms(4) in \<open>simp add: str_def\<close>)
  have ls: "length str = ?f + 1" using assms(1,3) by (simp add: str_def)
  let ?s = "take 16 (drop 79 ?m)"
  have sl: "?s = drop 79 str" if "?f = 94" using that ls by simp
  have p1: "poke ?m 0 ?s = Some (?s @ drop 16 ?m)" if "?f = 94"
    using that ls assms(1) by (simp add: poke_eq)
  have p2: "poke (?s @ drop 16 ?m) 16 [0] = Some (drop 79 str @ 0 # drop 17 ?m)" if "?f = 94"
    using that ls assms(1) by (simp add: poke_eq drop_Suc)
  define c1 where "c1 = c\<lparr>cl_rx_head := h, cl_rx_n := cl_rx_n c + 1, cl_buf := ?m, cl_fill := ?f + 1, cl_done := dn\<rparr>"
  define c2 where "c2 = (if \<not> sublist RADAR_PROMPT str \<and> ?f = 94
      then c1\<lparr>cl_buf := drop 79 str @ 0 # drop 17 ?m, cl_fill := 16\<rparr> else c1)"
  have "cli_byte b c = Some (if sublist RADAR_PROMPT str then Some dn else None, c2)"
    using h m1 m cs assms(3) sl p1 p2
    by (simp add: cli_byte_def Let_def c1_def c2_def dn_def)
  then show ?thesis
    using ls assms(1-3) lh by (intro that [of c2]) (auto simp: c2_def c1_def)
qed

lemma byte_step:
  assumes inv: "window_inv c bs" and b: "b \<noteq> 0"
  shows "\<exists>c'. cli_byte b c =
      Some (if sublist RADAR_PROMPT (bs @ [b]) then Some (of_bool (sublist DONE (bs @ [b]))) else None, c') \<and>
      (sublist RADAR_PROMPT (bs @ [b]) \<or> window_inv c' (bs @ [b])) \<and>
      length (cl_buf c') = 96 \<and> length (cl_rx_head c') = 129"
proof -
  let ?f = "cl_fill c"
  have i: "length (cl_buf c) = 96" "length (cl_rx_head c) = 129" "?f \<le> 94" "?f \<le> length bs"
    "?f = length bs \<or> 16 \<le> ?f" "take ?f (cl_buf c) = drop (length bs - ?f) bs"
    "cl_done c = of_bool (sublist DONE bs)" "\<not> sublist RADAR_PROMPT bs" "0 \<notin> set bs"
    using inv by (auto simp: window_inv_def)
  have nz: "0 \<notin> set (take ?f (cl_buf c) @ [b])"
    unfolding i(6) using i(9) b by (auto dest: in_set_dropD)
  let ?str = "take ?f (cl_buf c) @ [b]"
  have str: "?str = drop (length bs - ?f) bs @ [b]" unfolding i(6) ..
  have k: "length bs - ?f = 0 \<or> 16 < length bs - (length bs - ?f) + 1" using i(4,5) by auto
  have prompt: "sublist RADAR_PROMPT ?str \<longleftrightarrow> sublist RADAR_PROMPT (bs @ [b])"
    unfolding str using k i(8) by (intro new_token) (auto simp: RADAR_PROMPT_eq)
  have dn: "(if cl_done c = 0 \<and> sublist DONE ?str then 1 else cl_done c) = of_bool (sublist DONE (bs @ [b]))"
  proof (cases "sublist DONE bs")
    case True
    then show ?thesis using i(7) by (simp add: sublist_snoc)
  next
    case False
    then have "sublist DONE ?str \<longleftrightarrow> sublist DONE (bs @ [b])"
      unfolding str using k by (intro new_token) (auto simp: DONE_eq)
    then show ?thesis using i(7) False by simp
  qed
  obtain c' where c': "cli_byte b c = Some (if sublist RADAR_PROMPT ?str
        then Some (if cl_done c = 0 \<and> sublist DONE ?str then 1 else cl_done c) else None, c')"
    "length (cl_buf c') = 96" "length (cl_rx_head c') = 129"
    "cl_done c' = (if cl_done c = 0 \<and> sublist DONE ?str then 1 else cl_done c)"
    "\<not> sublist RADAR_PROMPT ?str \<Longrightarrow> cl_fill c' = (if ?f = 94 then 16 else ?f + 1)"
    "\<not> sublist RADAR_PROMPT ?str \<Longrightarrow>
         take (cl_fill c') (cl_buf c') = (if ?f = 94 then drop 79 ?str else ?str)"
    using cli_byte_buffer [OF i(1-3) nz refl refl] by blast
  have "window_inv c' (bs @ [b])" if np: "\<not> sublist RADAR_PROMPT (bs @ [b])"
  proof -
    have np': "\<not> sublist RADAR_PROMPT ?str" using np prompt by simp
    have "drop 79 ?str = drop (length (bs @ [b]) - 16) (bs @ [b])" if "?f = 94"
      unfolding str using that i(4) by simp
    moreover have "?str = drop (length (bs @ [b]) - (?f + 1)) (bs @ [b])"
      unfolding str using i(4) by simp
    ultimately show ?thesis
      using c'(2-4) c'(5,6) [OF np'] dn np i(3,4,5,9) b
      by (auto simp: window_inv_def split: if_splits)
  qed
  then show ?thesis using c'(1-3) prompt dn by auto
qed


section \<open>The wait\<close>

text \<open>What the board lets a wait hear before the deadline: bytes, with idle sleeps in between.\<close>

inductive hears :: "'e radar_io \<Rightarrow> int \<Rightarrow> 'e \<Rightarrow> bytes \<Rightarrow> 'e \<Rightarrow> bool"
  for io :: "'e radar_io" and deadline :: int where
  hears_end: "hears io deadline e [] e"
| hears_idle: "io_uptime io e < deadline \<Longrightarrow> io_ring_get io e = (None, e1) \<Longrightarrow>
     hears io deadline (io_msleep io 2 e1) bs e' \<Longrightarrow> hears io deadline e bs e'"
| hears_byte: "io_uptime io e < deadline \<Longrightarrow> io_ring_get io e = (Some b, e1) \<Longrightarrow>
     hears io deadline e1 bs e' \<Longrightarrow> hears io deadline e (b # bs) e'"

text \<open>Without the prompt the wait goes on, with the window at the end of what was heard.\<close>

lemma wait_hears:
  "hears io deadline e bs e' \<Longrightarrow> window_inv c past \<Longrightarrow> 0 \<notin> set bs \<Longrightarrow> \<not> sublist RADAR_PROMPT (past @ bs) \<Longrightarrow>
   \<exists>c'. cli_wait_loop io deadline c e = cli_wait_loop io deadline c' e' \<and> window_inv c' (past @ bs)"
proof (induction arbitrary: c past rule: hears.induct)
  case (hears_end e)
  then show ?case by auto
next
  case (hears_idle e e1 bs e')
  let ?c = "c\<lparr>cl_rx_lvl := cl_rx_lvl c OR (if io_pin io e1 then 2 else 1)\<rparr>"
  have "window_inv ?c past" using hears_idle.prems(1) by (simp add: window_inv_def)
  moreover have "cli_wait_loop io deadline c e = cli_wait_loop io deadline ?c (io_msleep io 2 e1)"
    using hears_idle.hyps by (subst cli_wait_loop.simps) simp
  ultimately show ?case using hears_idle.IH hears_idle.prems by metis
next
  case (hears_byte e b e1 bs e')
  have np: "\<not> sublist RADAR_PROMPT (past @ [b])"
    using hears_byte.prems(3) sublist_appendI [of "past @ [b]" "[]" bs]
    by (metis append.assoc append_Cons append_Nil sublist_order.order_trans)
  obtain c1 where c1: "cli_byte b c = Some (None, c1)" "window_inv c1 (past @ [b])"
    using byte_step [OF hears_byte.prems(1), of b] hears_byte.prems(2) np by auto
  have "cli_wait_loop io deadline c e = cli_wait_loop io deadline c1 e1"
    using hears_byte.hyps c1(1) by (subst cli_wait_loop.simps) simp
  then show ?case using hears_byte.IH [OF c1(2)] hears_byte.prems by simp
qed

lemma init_window:
  assumes "length (cl_buf c) = 96" and "length (cl_rx_head c) = 129"
  obtains c' where "cli_wait_init c = Some c'" and "window_inv c' []"
proof -
  have "\<not> sublist DONE []" "\<not> sublist RADAR_PROMPT []" by (simp_all add: DONE_eq RADAR_PROMPT_eq)
  then show ?thesis
    using assms by (intro that) (auto simp: cli_wait_init_def poke_eq window_inv_def)
qed

lemma wait_heard:
  assumes "length (cl_buf c) = 96" and "length (cl_rx_head c) = 129"
    and "hears io (io_uptime io e + timeout) e bs e'" and "0 \<notin> set bs" and "\<not> sublist RADAR_PROMPT bs"
  obtains c' where "cli_wait io timeout c e = cli_wait_loop io (io_uptime io e + timeout) c' e'" and "window_inv c' bs"
proof -
  obtain c0 where c0: "cli_wait_init c = Some c0" "window_inv c0 []"
    using init_window [OF assms(1,2)] by blast
  show ?thesis
    using wait_hears [OF assms(3) c0(2) assms(4)] assms(5) c0 that by (auto simp: cli_wait_def)
qed

text \<open>The two ends of a wait.\<close>

lemma wait_prompt:
  assumes "length (cl_buf c) = 96" and "length (cl_rx_head c) = 129"
    and "hears io (io_uptime io e + timeout) e bs e'" and "0 \<notin> set bs" and "\<not> sublist RADAR_PROMPT bs"
    and "io_uptime io e' < io_uptime io e + timeout" and "io_ring_get io e' = (Some b, e'')" and "b \<noteq> 0"
    and "sublist RADAR_PROMPT (bs @ [b])"
  shows "\<exists>c'. cli_wait io timeout c e = Some (of_bool (sublist DONE (bs @ [b])), c', e'') \<and>
           length (cl_buf c') = 96 \<and> length (cl_rx_head c') = 129"
proof -
  obtain c1 where w: "cli_wait io timeout c e = cli_wait_loop io (io_uptime io e + timeout) c1 e'" and "window_inv c1 bs"
    by (rule wait_heard [OF assms(1-5)])
  from byte_step [OF this(2) assms(8)] show ?thesis
    using assms(6,7,9) unfolding w by (subst cli_wait_loop.simps) auto
qed

lemma wait_deadline:
  assumes "length (cl_buf c) = 96" and "length (cl_rx_head c) = 129"
    and "hears io (io_uptime io e + timeout) e bs e'" and "0 \<notin> set bs" and "\<not> sublist RADAR_PROMPT bs"
    and "io_uptime io e + timeout \<le> io_uptime io e'"
  shows "\<exists>c'. cli_wait io timeout c e = Some (of_bool (sublist DONE bs), c', e') \<and>
           length (cl_buf c') = 96 \<and> length (cl_rx_head c') = 129"
proof -
  obtain c1 where w: "cli_wait io timeout c e = cli_wait_loop io (io_uptime io e + timeout) c1 e'" and "window_inv c1 bs"
    by (rule wait_heard [OF assms(1-5)])
  then show ?thesis
    using assms(6) unfolding w by (subst cli_wait_loop.simps) (simp add: window_inv_def)
qed

text \<open>
  C27: the sliding 96-byte search is a search of the whole reply: on a reply without NUL bytes of any
  length, heard before the deadline in any pace, the wait returns right at the first prompt, 1
  if Done occurs anywhere before it and 0 otherwise; and when the deadline comes first, it
  returns 1 if Done has occurred so far.
\<close>

theorem cli_wait_search:
  assumes "length (cl_buf c) = 96" and "length (cl_rx_head c) = 129"
    and "hears io (io_uptime io e + timeout) e bs e'" and "0 \<notin> set bs" and "\<not> sublist RADAR_PROMPT bs"
  shows "(\<forall>b e''. io_uptime io e' < io_uptime io e + timeout \<and> io_ring_get io e' = (Some b, e'') \<and> b \<noteq> 0 \<and>
            sublist RADAR_PROMPT (bs @ [b]) \<longrightarrow>
            (\<exists>c'. cli_wait io timeout c e = Some (of_bool (sublist DONE (bs @ [b])), c', e''))) \<and>
         (io_uptime io e + timeout \<le> io_uptime io e' \<longrightarrow>
            (\<exists>c'. cli_wait io timeout c e = Some (of_bool (sublist DONE bs), c', e')))"
  using wait_prompt [OF assms] wait_deadline [OF assms] by blast


section \<open>A board for the bench\<close>

text \<open>The clock stands still but for sleeping, and the bytes to come are a list.\<close>

definition scripted :: "(int \<times> bytes) radar_io" where
  "scripted =
     \<lparr>io_uptime = fst,
      io_ring_get = (\<lambda>(t, bs). case bs of [] \<Rightarrow> (None, (t, [])) | b # bs \<Rightarrow> (Some b, (t, bs))),
      io_pin = (\<lambda>e. True), io_poll_out = (\<lambda>b e. e), io_msleep = (\<lambda>n (t, bs). (t + int n, bs)),
      io_nrst = (\<lambda>v e. e)\<rparr>"

lemma scripted_sel [simp]:
  "io_uptime scripted e = fst e" "io_pin scripted e" "io_poll_out scripted b e = e" "io_nrst scripted v e = e"
  "io_ring_get scripted (t, []) = (None, (t, []))" "io_ring_get scripted (t, b # bs) = (Some b, (t, bs))"
  "io_msleep scripted n (t, bs) = (t + int n, bs)"
  by (simp_all add: scripted_def)

definition cli0 :: cli where
  "cli0 = \<lparr>cl_buf = replicate 96 0, cl_fill = 0, cl_done = 0, cl_rx_n = 0,
           cl_rx_head = replicate 129 0, cl_rx_lvl = 0\<rparr>"

lemma hears_script: "t < dl \<Longrightarrow> hears scripted dl (t, bs @ rest) bs (t, rest)"
proof (induction bs)
  case (Cons b bs)
  then show ?case by (intro hears_byte [of scripted "(t, (b # bs) @ rest)" dl b "(t, bs @ rest)"]) simp_all
qed (simp add: hears_end)

lemma no_prompt: "0x3E \<notin> set bs \<Longrightarrow> \<not> sublist RADAR_PROMPT bs"
  using set_mono_sublist [of RADAR_PROMPT bs] by (auto simp: RADAR_PROMPT_eq)

text \<open>A reply of more than 96 bytes, with Done at its start.\<close>

definition long_reply :: bytes where
  "long_reply = DONE @ replicate 100 0x2E @ butlast RADAR_PROMPT"

lemma long_reply_tokens:
  "0 \<notin> set long_reply" "\<not> sublist RADAR_PROMPT long_reply"
  "sublist RADAR_PROMPT (long_reply @ [0x3E])" "sublist DONE (long_reply @ [0x3E])"
proof -
  show "0 \<notin> set long_reply" by (simp add: long_reply_def DONE_eq RADAR_PROMPT_eq)
  show "\<not> sublist RADAR_PROMPT long_reply"
    by (rule no_prompt) (simp add: long_reply_def DONE_eq RADAR_PROMPT_eq)
  have "long_reply @ [0x3E] = (DONE @ replicate 100 0x2E) @ RADAR_PROMPT @ []"
    by (simp add: long_reply_def RADAR_PROMPT_eq)
  then show "sublist RADAR_PROMPT (long_reply @ [0x3E])" by (metis sublist_appendI)
  have "long_reply @ [0x3E] = [] @ DONE @ (replicate 100 0x2E @ RADAR_PROMPT)"
    by (simp add: long_reply_def RADAR_PROMPT_eq)
  then show "sublist DONE (long_reply @ [0x3E])" by (metis sublist_appendI)
qed

theorem cli_wait_search_witness:
  "\<exists>c'. cli_wait scripted 500 cli0 (0, long_reply @ [0x3E]) = Some (1, c', (0, []))"
proof -
  have "hears scripted (0 + 500) (0, long_reply @ [0x3E]) long_reply (0, [0x3E])"
    by (rule hears_script) simp
  from cli_wait_search [of cli0 scripted "(0, long_reply @ [0x3E])" 500 long_reply "(0, [0x3E])"] this
  show ?thesis using long_reply_tokens by (simp add: cli0_def)
qed

section \<open>Safety and return of the wait\<close>

text \<open>
  What bounds a wait: sleeping takes its time, the clock does not go back, and before any time
  only so many bytes can come (the line has a baud rate). \<open>left e T\<close> is a bound on the bytes
  the ring can yield before \<open>T\<close>.
\<close>

definition io_paced :: "'e radar_io \<Rightarrow> ('e \<Rightarrow> int \<Rightarrow> nat) \<Rightarrow> bool" where
  "io_paced io left \<longleftrightarrow>
     (\<forall>e e' b T. io_ring_get io e = (Some b, e') \<longrightarrow>
        io_uptime io e \<le> io_uptime io e' \<and> (io_uptime io e < T \<longrightarrow> left e' T < left e T)) \<and>
     (\<forall>e e' T. io_ring_get io e = (None, e') \<longrightarrow> io_uptime io e \<le> io_uptime io e' \<and> left e' T \<le> left e T) \<and>
     (\<forall>e n T. io_uptime io e + int n \<le> io_uptime io (io_msleep io n e) \<and> left (io_msleep io n e) T \<le> left e T)"

definition cli_ok :: "cli \<Rightarrow> bool" where
  "cli_ok c \<longleftrightarrow> length (cl_buf c) = 96 \<and> length (cl_rx_head c) = 129 \<and> cl_fill c \<le> 94 \<and> cl_done c \<in> {0, 1}"

lemma slide:
  assumes "length m = 96"
  shows "poke m 0 (take 16 (drop 79 m)) = Some (take 16 (drop 79 m) @ drop 16 m)"
    and "poke (take 16 (drop 79 m) @ drop 16 m) 16 [0] = Some (take 16 (drop 79 m) @ 0 # drop 17 m)"
  using assms by (simp_all add: poke_eq drop_Suc)

lemma byte_safe:
  assumes "cli_ok c"
  shows "\<exists>r c'. cli_byte b c = Some (r, c') \<and> r \<in> {None, Some 0, Some 1} \<and>
           length (cl_buf c') = 96 \<and> length (cl_rx_head c') = 129 \<and> (r = None \<longrightarrow> cli_ok c')"
proof -
  let ?f = "cl_fill c"
  have i: "length (cl_buf c) = 96" "length (cl_rx_head c) = 129" "?f \<le> 94" "cl_done c \<in> {0, 1}"
    using assms by (auto simp: cli_ok_def)
  obtain h where h: "cli_head_put b c = Some (c\<lparr>cl_rx_head := h\<rparr>)" and lh: "length h = 129"
    using head_put_ok [OF i(2)] by blast
  obtain m1 where m1: "poke (cl_buf c) ?f [b] = Some m1" and l1: "length m1 = 96"
    using i by (simp add: poke_eq)
  obtain m where m: "poke m1 (Suc ?f) [0] = Some m" and lm: "length m = 96" and z: "0 \<in> set m"
    using i l1 by (simp add: poke_eq)
  obtain str where cs: "cstr m = Some str" using z by (auto simp: cstr_def)
  note p = slide [OF lm]
  define dn :: int where "dn = (if cl_done c = 0 \<and> sublist DONE str then 1 else cl_done c)"
  have dn: "dn = 0 \<or> dn = 1" using i by (auto simp: dn_def)
  define c1 where "c1 = c\<lparr>cl_rx_head := h, cl_rx_n := cl_rx_n c + 1, cl_buf := m, cl_fill := ?f + 1, cl_done := dn\<rparr>"
  define c2 where "c2 = (if \<not> sublist RADAR_PROMPT str \<and> ?f = 94
      then c1\<lparr>cl_buf := take 16 (drop 79 m) @ 0 # drop 17 m, cl_fill := 16\<rparr> else c1)"
  have "cli_byte b c = Some (if sublist RADAR_PROMPT str then Some dn else None, c2)"
    using h m1 m cs i(3) p
    by (simp add: cli_byte_def Let_def c1_def c2_def dn_def)
  moreover have "length (cl_buf c2) = 96" "length (cl_rx_head c2) = 129"
    using lm lh by (simp_all add: c2_def c1_def)
  moreover have "cli_ok c2" if "\<not> sublist RADAR_PROMPT str"
    using that i lm lh dn by (auto simp: cli_ok_def c2_def c1_def)
  ultimately show ?thesis using dn by auto
qed

lemma wait_loop_returns:
  assumes "io_paced io left" and "cli_ok c"
  shows "\<exists>r c' e'. cli_wait_loop io dl c e = Some (r, c', e') \<and> r \<in> {0, 1} \<and>
           length (cl_buf c') = 96 \<and> length (cl_rx_head c') = 129"
  using assms(2)
proof (induction "(nat (dl - io_uptime io e), left e dl)" arbitrary: c e
    rule: wf_induct_rule [OF wf_lex_prod [OF wf_less wf_less]])
  case (1 e c)
  show ?case
  proof (cases "io_uptime io e < dl")
    case False
    then have "cli_wait_loop io dl c e = Some (cl_done c, c, e)" by (subst cli_wait_loop.simps) simp
    then show ?thesis using "1.prems" by (auto simp: cli_ok_def)
  next
    case True
    obtain x e1 where x: "io_ring_get io e = (x, e1)" by fastforce
    show ?thesis
    proof (cases x)
      case None
      let ?c = "c\<lparr>cl_rx_lvl := cl_rx_lvl c OR (if io_pin io e1 then 2 else 1)\<rparr>"
      have "io_uptime io e \<le> io_uptime io e1" "io_uptime io e1 + 2 \<le> io_uptime io (io_msleep io 2 e1)"
        using assms(1) x None unfolding io_paced_def by (blast, metis of_nat_numeral)
      then have "nat (dl - io_uptime io (io_msleep io 2 e1)) < nat (dl - io_uptime io e)"
        using True by linarith
      moreover have "cli_ok ?c" using "1.prems" by (simp add: cli_ok_def)
      moreover have "cli_wait_loop io dl c e = cli_wait_loop io dl ?c (io_msleep io 2 e1)"
        using True x None by (subst cli_wait_loop.simps) simp
      ultimately show ?thesis using "1.hyps" [of "io_msleep io 2 e1" ?c] by simp
    next
      case (Some b)
      have dec: "io_uptime io e \<le> io_uptime io e1" "left e1 dl < left e dl"
        using assms(1) x Some True unfolding io_paced_def by blast+
      obtain r c1 where b: "cli_byte b c = Some (r, c1)" "r \<in> {None, Some 0, Some 1}"
        "length (cl_buf c1) = 96" "length (cl_rx_head c1) = 129" "r = None \<longrightarrow> cli_ok c1"
        using byte_safe [OF "1.prems", of b] by blast
      show ?thesis
      proof (cases r)
        case None
        have "cli_wait_loop io dl c e = cli_wait_loop io dl c1 e1"
          using True x Some b(1) None by (subst cli_wait_loop.simps) simp
        moreover have "nat (dl - io_uptime io e1) < nat (dl - io_uptime io e) \<or>
            nat (dl - io_uptime io e1) = nat (dl - io_uptime io e)" using dec(1) True by linarith
        ultimately show ?thesis using "1.hyps" [of e1 c1] dec(2) b(5) None by auto
      next
        case (Some v)
        have "cli_wait_loop io dl c e = Some (v, c1, e1)"
          using True x \<open>x = Some b\<close> b(1) Some by (subst cli_wait_loop.simps) simp
        then show ?thesis using b Some by auto
      qed
    qed
  qed
qed


text \<open>
  The wait is safe and returns: on a board whose line has a bounded byte rate, from any state of
  its buffers and for any bytes, NUL included, \<open>cli_wait\<close> makes no access outside \<open>buf\<close> and
  \<open>cli_rx_head\<close>, and returns 0 or 1.
\<close>

theorem cli_wait_returns:
  assumes "io_paced io left" and "length (cl_buf c) = 96" and "length (cl_rx_head c) = 129"
  shows "\<exists>r c' e'. cli_wait io timeout c e = Some (r, c', e') \<and> r \<in> {0, 1} \<and>
           length (cl_buf c') = 96 \<and> length (cl_rx_head c') = 129"
proof -
  obtain c0 where c0: "cli_wait_init c = Some c0" "window_inv c0 []"
    using init_window [OF assms(2,3)] by blast
  then have "cli_ok c0" by (auto simp: window_inv_def cli_ok_def)
  from wait_loop_returns [OF assms(1) this] show ?thesis using c0(1) by (simp add: cli_wait_def)
qed

lemma scripted_paced: "io_paced scripted (\<lambda>(t, bs) T. length bs)"
  by (auto simp: io_paced_def scripted_def split: list.splits)

theorem cli_wait_returns_witness:
  "\<exists>r c' e'. cli_wait scripted 500 cli0 (0, replicate 200 0x41) = Some (r, c', e') \<and> r \<in> {0, 1}"
  using cli_wait_returns [OF scripted_paced, of cli0 500 "(0, replicate 200 0x41)"] by (auto simp: cli0_def)

text \<open>A NUL at the start of the window: every search sees the empty string.\<close>

definition blinded :: "cli \<Rightarrow> nat \<Rightarrow> bool" where
  "blinded c k \<longleftrightarrow> length (cl_buf c) = 96 \<and> length (cl_rx_head c) = 129 \<and> cl_fill c = k \<and>
     cl_buf c ! 0 = 0 \<and> cl_done c = 0"

lemma blinded_byte:
  assumes "blinded c k" and "k < 94" and "k = 0 \<longrightarrow> b = 0"
  shows "\<exists>c'. cli_byte b c = Some (None, c') \<and> blinded c' (k + 1)"
proof -
  have i: "length (cl_buf c) = 96" "length (cl_rx_head c) = 129" "cl_fill c = k" "cl_buf c ! 0 = 0"
    "cl_done c = 0" using assms(1) by (auto simp: blinded_def)
  obtain h where h: "cli_head_put b c = Some (c\<lparr>cl_rx_head := h\<rparr>)" and lh: "length h = 129"
    using head_put_ok [OF i(2)] by blast
  obtain m1 where m1: "poke (cl_buf c) k [b] = Some m1" and l1: "length m1 = 96" and z1: "m1 ! 0 = 0"
    using i assms(2,3) by (cases "k = 0") (auto simp: poke_eq nth_append)
  obtain m where m: "poke m1 (Suc k) [0] = Some m" and lm: "length m = 96" and z: "m ! 0 = 0"
    using l1 z1 assms(2) by (simp add: poke_eq nth_append)
  have "takeWhile (\<lambda>c. c \<noteq> 0) m = []" using z lm by (cases m) auto
  moreover have "0 \<in> set m" using z lm by (metis nth_mem zero_less_numeral)
  ultimately have cs: "cstr m = Some []" by (simp add: cstr_def)
  have "\<not> sublist DONE []" "\<not> sublist RADAR_PROMPT []" by (simp_all add: DONE_eq RADAR_PROMPT_eq)
  then show ?thesis
    using h m1 m cs i assms(2) lm lh z by (simp add: cli_byte_def Let_def blinded_def)
qed

lemma blinded_hears:
  "hears io dl e bs e' \<Longrightarrow> blinded c k \<Longrightarrow> k + length bs \<le> 94 \<Longrightarrow> k = 0 \<longrightarrow> bs = [] \<or> hd bs = 0 \<Longrightarrow>
   \<exists>c'. cli_wait_loop io dl c e = cli_wait_loop io dl c' e' \<and> blinded c' (k + length bs)"
proof (induction arbitrary: c k rule: hears.induct)
  case (hears_end e)
  then show ?case by auto
next
  case (hears_idle e e1 bs e')
  let ?c = "c\<lparr>cl_rx_lvl := cl_rx_lvl c OR (if io_pin io e1 then 2 else 1)\<rparr>"
  have "blinded ?c k" using hears_idle.prems(1) by (simp add: blinded_def)
  moreover have "cli_wait_loop io dl c e = cli_wait_loop io dl ?c (io_msleep io 2 e1)"
    using hears_idle.hyps by (subst cli_wait_loop.simps) simp
  ultimately show ?case using hears_idle.IH hears_idle.prems by metis
next
  case (hears_byte e b e1 bs e')
  obtain c1 where c1: "cli_byte b c = Some (None, c1)" "blinded c1 (k + 1)"
    using blinded_byte [OF hears_byte.prems(1), of b] hears_byte.prems(2,3) by auto
  have "cli_wait_loop io dl c e = cli_wait_loop io dl c1 e1"
    using hears_byte.hyps c1(1) by (subst cli_wait_loop.simps) simp
  then show ?case using hears_byte.IH [OF c1(2)] hears_byte.prems by simp
qed

text \<open>
  A NUL byte blinds the wait: when the first byte of a reply of at most 94 bytes is 0 (a glitch
  on the line while the radar reboots), whatever follows it, Done and the prompt included, is
  not seen, and the wait runs into its deadline and returns 0.
\<close>

theorem nul_hides_reply:
  assumes "length (cl_buf c) = 96" and "length (cl_rx_head c) = 129"
    and "hears io (io_uptime io e + timeout) e (0 # bs) e'" and "length bs < 94"
    and "io_uptime io e + timeout \<le> io_uptime io e'"
  shows "\<exists>c'. cli_wait io timeout c e = Some (0, c', e')"
proof -
  obtain m h where "poke (cl_buf c) 0 [0] = Some m" "length m = 96" "m ! 0 = 0"
    "poke (cl_rx_head c) 0 [0] = Some h" "length h = 129"
    using assms(1,2) by (simp add: poke_eq)
  then obtain c0 where c0: "cli_wait_init c = Some c0" "blinded c0 0"
    by (auto simp: cli_wait_init_def blinded_def)
  obtain c1 where "cli_wait_loop io (io_uptime io e + timeout) c0 e = cli_wait_loop io (io_uptime io e + timeout) c1 e'"
    "blinded c1 (0 + length (0 # bs))"
    using blinded_hears [OF assms(3) c0(2)] assms(4) by auto
  then have "cli_wait io timeout c e = Some (cl_done c1, c1, e')" "cl_done c1 = 0"
    using c0(1) assms(5) by (simp_all add: cli_wait_def blinded_def) (subst cli_wait_loop.simps, simp)
  then show ?thesis by simp
qed

theorem nul_hides_reply_witness:
  "\<exists>c'. cli_wait scripted 2 cli0 (0, 0 # DONE @ RADAR_PROMPT) = Some (0, c', (2, []))"
proof -
  have "hears scripted 2 (0, []) [] (2, [])"
    using hears_idle [of scripted "(0, [])" 2 "(0, [])" "[]" "(2, [])"] hears_end [of scripted 2 "(2, [])"] by simp
  moreover have "hears scripted 2 (0, xs) ys e \<Longrightarrow> hears scripted 2 (0, b # xs) (b # ys) e" for b xs ys e
    by (rule hears_byte) simp_all
  ultimately have "hears scripted 2 (0, 0 # DONE @ RADAR_PROMPT) (0 # DONE @ RADAR_PROMPT) (2, [])"
    by (simp add: DONE_eq RADAR_PROMPT_eq)
  from nul_hides_reply [of cli0 scripted "(0, 0 # DONE @ RADAR_PROMPT)" 2, simplified, OF _ _ this]
  show ?thesis by (simp add: cli0_def DONE_eq RADAR_PROMPT_eq)
qed

section \<open>The configuration\<close>

text \<open>Sending lines whatever they are answered.\<close>

fun send_lines :: "'e radar_io \<Rightarrow> string list \<Rightarrow> cli \<Rightarrow> 'e \<Rightarrow> (cli \<times> 'e) option" where
  "send_lines io [] c e = Some (c, e)"
| "send_lines io (ln # lns) c e =
     (case cli_line io ln 3000 c e of None \<Rightarrow> None | Some (_, c, e) \<Rightarrow> send_lines io lns c e)"

lemma configure_start:
  "\<forall>ln \<in> set lns. take 11 ln \<noteq> ''sensorStart'' \<Longrightarrow> take 11 st = ''sensorStart'' \<Longrightarrow>
   configure_lines io (lns @ [st]) c e =
     (case send_lines io lns c e of None \<Rightarrow> None
      | Some (c, e) \<Rightarrow> map_option (\<lambda>(ok, c, e). (if ok \<noteq> 0 then 0 else - EIO, c, e)) (cli_line io st 15000 c e))"
  by (induction lns arbitrary: c e) (auto simp: Let_def split: option.split prod.split)

text \<open>
  A configuration resets the radar, sends the twenty-one settings whatever their answers are, and
  then succeeds exactly if the wait of 15 s after sensorStart does; otherwise it returns -EIO.
  In particular a refused trackingCfg is not fatal.
\<close>

theorem configure_commits_on_start:
  "radar_configure io c e =
     (case radar_reset io c e of None \<Rightarrow> None
      | Some (c, e) \<Rightarrow>
          (case send_lines io (butlast cfg_lines) c e of None \<Rightarrow> None
           | Some (c, e) \<Rightarrow>
               map_option (\<lambda>(ok, c, e). (if ok \<noteq> 0 then 0 else - EIO, c, e))
                 (cli_line io ''sensorStart 0 0 0 0'' 15000 c e)))"
proof -
  have "cfg_lines = butlast cfg_lines @ [''sensorStart 0 0 0 0'']" by (simp add: cfg_lines_def)
  moreover have "\<forall>ln \<in> set (butlast cfg_lines). take 11 ln \<noteq> ''sensorStart''"
    by (simp add: cfg_lines_def)
  moreover have "take 11 ''sensorStart 0 0 0 0'' = ''sensorStart''" by simp
  ultimately have "configure_lines io cfg_lines = (\<lambda>c e.
     case send_lines io (butlast cfg_lines) c e of None \<Rightarrow> None
     | Some (c, e) \<Rightarrow> map_option (\<lambda>(ok, c, e). (if ok \<noteq> 0 then 0 else - EIO, c, e))
         (cli_line io ''sensorStart 0 0 0 0'' 15000 c e))"
    using configure_start [of "butlast cfg_lines" "''sensorStart 0 0 0 0''" io] by (intro ext) metis
  then show ?thesis by (simp only: radar_configure_def)
qed

section \<open>What a success has heard\<close>

text \<open>The buffers of the command line have their sizes.\<close>

definition cli_sized :: "cli \<Rightarrow> bool" where
  "cli_sized c \<longleftrightarrow> length (cl_buf c) = 96 \<and> length (cl_rx_head c) = 129"

definition start_cmd :: string where
  "start_cmd = ''sensorStart 0 0 0 0''"

text \<open>
  The window after the bytes \<open>past\<close>, whatever they were: it holds the last of them, and \<open>done\<close> is
  set only if Done was among them.
\<close>

definition window_tail :: "cli \<Rightarrow> bytes \<Rightarrow> bool" where
  "window_tail c past \<longleftrightarrow> cli_ok c \<and> suffix (take (cl_fill c) (cl_buf c)) past \<and>
     (cl_done c \<noteq> 0 \<longrightarrow> sublist DONE past)"

text \<open>The search sees a part of what was received, up to a NUL.\<close>

lemma cstr_part: "cstr (xs @ 0 # ys) = Some str \<Longrightarrow> prefix str xs"
proof -
  have "takeWhile (\<lambda>c. c \<noteq> 0) (xs @ 0 # ys) = takeWhile (\<lambda>c. c \<noteq> 0) xs" by (induction xs) auto
  then show "cstr (xs @ 0 # ys) = Some str \<Longrightarrow> prefix str xs"
    by (auto simp: cstr_def takeWhile_is_prefix)
qed

lemma tail_byte:
  assumes "window_tail c past" and "cli_byte b c = Some (r, c')"
  shows "length (cl_buf c') = 96 \<and> length (cl_rx_head c') = 129 \<and>
    (case r of None \<Rightarrow> window_tail c' (past @ [b]) | Some v \<Rightarrow> v \<noteq> 0 \<longrightarrow> sublist DONE (past @ [b]))"
proof -
  let ?f = "cl_fill c" and ?t = "take (cl_fill c) (cl_buf c) @ [b]"
  have i: "length (cl_buf c) = 96" "length (cl_rx_head c) = 129" "?f \<le> 94"
    using assms(1) by (auto simp: window_tail_def cli_ok_def)
  have safe: "r \<in> {None, Some 0, Some 1}" "length (cl_buf c') = 96" "length (cl_rx_head c') = 129" "r = None \<longrightarrow> cli_ok c'"
    using byte_safe [of c b] assms by (auto simp: window_tail_def)
  obtain h where h: "cli_head_put b c = Some (c\<lparr>cl_rx_head := h\<rparr>)" using head_put_ok [OF i(2)] by blast
  have m1: "poke (cl_buf c) ?f [b] = Some (?t @ drop (?f + 1) (cl_buf c))" using i by (simp add: poke_eq)
  define m where "m = ?t @ 0 # drop (?f + 2) (cl_buf c)"
  have "length (?t @ drop (?f + 1) (cl_buf c)) = 96" using i by simp
  then have m: "poke (?t @ drop (?f + 1) (cl_buf c)) (Suc ?f) [0] = Some m"
    using i by (simp add: poke_eq m_def)
  have lm: "length m = 96" and lt: "take (?f + 1) m = ?t" and full: "?f = 94 \<Longrightarrow> take 16 (drop 79 m) = drop 79 ?t"
    using i by (simp_all add: m_def)
  obtain str where str: "cstr m = Some str" by (auto simp: cstr_def m_def)
  have t: "suffix ?t (past @ [b])" using assms(1) by (simp add: window_tail_def)
  have part: "sublist str (past @ [b])"
    using cstr_part [OF str [unfolded m_def]] t by (meson prefix_imp_sublist sublist_order.order_trans suffix_imp_sublist)
  define dn :: int where "dn = (if cl_done c = 0 \<and> sublist DONE str then 1 else cl_done c)"
  have dn: "dn \<noteq> 0 \<longrightarrow> sublist DONE (past @ [b])"
    using assms(1) part unfolding dn_def window_tail_def
    by (metis sublist_appendI append_Nil sublist_order.order_trans)
  define c1 where "c1 = c\<lparr>cl_rx_head := h, cl_rx_n := cl_rx_n c + 1, cl_buf := m, cl_fill := ?f + 1, cl_done := dn\<rparr>"
  define c2 where "c2 = (if \<not> sublist RADAR_PROMPT str \<and> ?f = 94
      then c1\<lparr>cl_buf := take 16 (drop 79 m) @ 0 # drop 17 m, cl_fill := 16\<rparr> else c1)"
  have "cli_byte b c = Some (if sublist RADAR_PROMPT str then Some dn else None, c2)"
    using h m1 m str i(3) slide [OF lm]
    by (simp add: cli_byte_def Let_def c1_def c2_def dn_def del: take_append append_assoc)
  then have rc: "r = (if sublist RADAR_PROMPT str then Some dn else None)" "c' = c2" using assms(2) by simp_all
  have "suffix (take (cl_fill c2) (cl_buf c2)) (past @ [b])" if "r = None"
  proof (cases "?f = 94")
    case True
    have "\<not> sublist RADAR_PROMPT str" using that rc(1) by (simp split: if_splits)
    then have "take (cl_fill c2) (cl_buf c2) = take 16 (drop 79 m)" using True lm by (simp add: c2_def)
    then have "take (cl_fill c2) (cl_buf c2) = drop 79 ?t" using full [OF True] by simp
    then show ?thesis using t by (metis suffix_drop suffix_order.trans)
  next
    case False
    then have "take (cl_fill c2) (cl_buf c2) = ?t" using lt by (simp add: c2_def c1_def)
    then show ?thesis using t by simp
  qed
  then show ?thesis
    using safe rc dn by (auto simp: window_tail_def c2_def c1_def split: option.split)
qed

lemma wait_loop_heard:
  assumes "cli_wait_loop io dl c e = Some (r, c', e')" and "window_tail c past"
  shows "cli_sized c' \<and> (\<exists>bs. hears io dl e bs e' \<and> (r \<noteq> 0 \<longrightarrow> sublist DONE (past @ bs)))"
proof -
  let ?Q = "\<lambda>io dl e past x. cli_sized (fst (snd x)) \<and>
    (\<exists>bs. hears io dl e bs (snd (snd x)) \<and> (fst x \<noteq> 0 \<longrightarrow> sublist DONE (past @ bs)))"
  have "\<forall>past. window_tail c past \<longrightarrow> ?Q io dl e past (r, c', e')"
  proof (rule cli_wait_loop.raw_induct [OF _ assms(1), where P = "\<lambda>io dl c e x. \<forall>past. window_tail c past \<longrightarrow> ?Q io dl e past x"])
    fix rec and io :: "'a radar_io" and dl c e x
    assume IH: "\<And>io dl c e y. rec io dl c e = Some y \<Longrightarrow> \<forall>past. window_tail c past \<longrightarrow> ?Q io dl e past y"
      and body: "(if \<not> io_uptime io e < dl then Some (cl_done c, c, e)
        else case io_ring_get io e of
               (None, e) \<Rightarrow> rec io dl (c\<lparr>cl_rx_lvl := cl_rx_lvl c OR (if io_pin io e then 2 else 1)\<rparr>) (io_msleep io 2 e)
             | (Some b, e) \<Rightarrow> (case cli_byte b c of None \<Rightarrow> None
                | Some (Some r, c) \<Rightarrow> Some (r, c, e) | Some (None, c) \<Rightarrow> rec io dl c e)) = Some x"
    show "\<forall>past. window_tail c past \<longrightarrow> ?Q io dl e past x"
    proof (intro allI impI)
      fix past assume w: "window_tail c past"
      obtain g e1 where g: "io_ring_get io e = (g, e1)" by fastforce
      consider (late) "\<not> io_uptime io e < dl" | (idle) "io_uptime io e < dl" "g = None"
        | (byte) b where "io_uptime io e < dl" "g = Some b" by (cases g) auto
      then show "?Q io dl e past x"
      proof cases
        case late
        then have "x = (cl_done c, c, e)" using body by simp
        then show ?thesis using w by (auto simp: window_tail_def cli_ok_def cli_sized_def intro: hears_end)
      next
        case idle
        let ?c = "c\<lparr>cl_rx_lvl := cl_rx_lvl c OR (if io_pin io e1 then 2 else 1)\<rparr>"
        have "window_tail ?c past" using w by (simp add: window_tail_def cli_ok_def)
        then have "?Q io dl (io_msleep io 2 e1) past x" using body idle g IH by simp
        then show ?thesis using idle g by (auto intro: hears_idle)
      next
        case byte
        obtain v c1 where v: "cli_byte b c = Some (v, c1)" using body byte g by (auto split: option.splits)
        note t = tail_byte [OF w v]
        show ?thesis
        proof (cases v)
          case None
          then have "rec io dl c1 e1 = Some x" "window_tail c1 (past @ [b])" using body byte g v t by simp_all
          then have "?Q io dl e1 (past @ [b]) x" using IH by blast
          then show ?thesis using byte g by (auto intro: hears_byte)
        next
          case (Some y)
          then have "x = (y, c1, e1)" using body byte g v by simp
          then show ?thesis using t Some byte g
            by (auto simp: cli_sized_def intro!: exI [of _ "[b]"] intro: hears_byte hears_end)
        qed
      qed
    qed
  qed
  then show ?thesis using assms(2) by simp
qed

lemma line_heard:
  assumes "cli_line io ln timeout c e = Some (r, c', e')" and "cli_sized c"
  shows "cli_sized c' \<and> (\<exists>e0 bs. cli_drain io e = Some e0 \<and>
    (let e1 = cli_write io (text_bytes ''\<newline>'') (cli_write io (text_bytes ln) e0) in
     hears io (io_uptime io e1 + timeout) e1 bs e' \<and> (r \<noteq> 0 \<longrightarrow> sublist DONE bs)))"
proof -
  obtain e0 where d: "cli_drain io e = Some e0" using assms(1) by (auto simp: cli_line_def split: option.splits)
  let ?e1 = "cli_write io (text_bytes ''\<newline>'') (cli_write io (text_bytes ln) e0)"
  obtain c1 where c: "cli_wait_init c = Some c1" "cli_wait_loop io (io_uptime io ?e1 + timeout) c1 ?e1 = Some (r, c', e')"
    using assms(1) d by (auto simp: cli_line_def cli_wait_def split: option.splits)
  have "window_tail c1 []" using c(1) assms(2)
    by (auto simp: cli_wait_init_def window_tail_def cli_ok_def cli_sized_def poke_eq split: option.splits)
  from wait_loop_heard [OF c(2) this] d show ?thesis by (auto simp: Let_def)
qed

lemma send_sized: "send_lines io lns c e = Some (c', e') \<Longrightarrow> cli_sized c \<Longrightarrow> cli_sized c'"
  by (induction lns arbitrary: c e) (auto split: option.splits dest: line_heard)

lemma reset_sized: "radar_reset io c e = Some (c', e') \<Longrightarrow> cli_sized c \<Longrightarrow> cli_sized c'"
  by (auto simp: radar_reset_def Let_def split: option.splits dest!: line_heard)

text \<open>The state in which the wait for the answer to a line begins.\<close>

definition line_sent :: "'e radar_io \<Rightarrow> string \<Rightarrow> 'e \<Rightarrow> 'e" where
  "line_sent io ln e = cli_write io (text_bytes ''\<newline>'') (cli_write io (text_bytes ln) e)"

text \<open>
  \<open>e'\<close> ends a wait of at most 15 s, which began when sensorStart had been sent after the ring was
  emptied, and the bytes received in it hold Done.
\<close>

definition done_heard :: "'e radar_io \<Rightarrow> 'e \<Rightarrow> bool" where
  "done_heard io e' \<longleftrightarrow>
     (\<exists>e e0 bs. cli_drain io e = Some e0 \<and>
        hears io (io_uptime io (line_sent io start_cmd e0) + 15000) (line_sent io start_cmd e0) bs e' \<and> sublist DONE bs)"

lemma configure_heard:
  assumes "radar_configure io c e = Some (err, c', e')" and "cli_sized c"
  shows "cli_sized c' \<and> (err = 0 \<longrightarrow> done_heard io e')"
proof -
  obtain c1 e1 c2 e2 ok where 1: "radar_reset io c e = Some (c1, e1)"
    "send_lines io (butlast cfg_lines) c1 e1 = Some (c2, e2)"
    "cli_line io start_cmd 15000 c2 e2 = Some (ok, c', e')" "err = (if ok \<noteq> 0 then 0 else - EIO)"
    using assms(1) unfolding configure_commits_on_start start_cmd_def by (auto split: option.splits)
  have "cli_sized c2" using send_sized [OF 1(2) reset_sized [OF 1(1) assms(2)]] .
  from line_heard [OF 1(3) this] 1(4) show ?thesis
    unfolding done_heard_def line_sent_def Let_def by (cases "ok = 0") auto
qed


lemma isr_spec:
  assumes "\<forall>(n, b) \<in> set reads. 0 < n \<and> nat n = length b" and "length (rx_rb s) \<le> 4096"
  shows "length (rx_rb (uart_isr True reads s)) \<le> 4096 \<and>
    rx_total (uart_isr True reads s) = rx_total s + of_nat (length (concat (map snd reads))) \<and>
    (\<exists>d. rx_dropped (uart_isr True reads s) = rx_dropped s + of_nat d \<and> d \<le> length reads \<and>
         (d = 0 \<longrightarrow> rx_rb (uart_isr True reads s) = rx_rb s @ concat (map snd reads)))"
  using assms
proof (induction reads arbitrary: s)
  case Nil
  then show ?case by (auto intro: exI [of _ 0])
next
  case (Cons x reads)
  obtain n b where x: "x = (n, b)" by fastforce
  then have n: "0 < n" "n = int (length b)" using Cons.prems by auto
  let ?p = "min (length b) (4096 - length (rx_rb s))"
  define s1 where "s1 = s\<lparr>rx_total := rx_total s + of_nat (length b), rx_rb := rx_rb s @ take ?p b,
      rx_dropped := rx_dropped s + (if ?p < length b then 1 else 0)\<rparr>"
  have step: "uart_isr True (x # reads) s = uart_isr True reads s1"
    using n x by (simp add: ring_buf_put_def Let_def s1_def)
  have "length (rx_rb s1) \<le> 4096" using Cons.prems(2) by (simp add: s1_def)
  then obtain d where ih: "length (rx_rb (uart_isr True reads s1)) \<le> 4096"
    "rx_total (uart_isr True reads s1) = rx_total s1 + of_nat (length (concat (map snd reads)))"
    "rx_dropped (uart_isr True reads s1) = rx_dropped s1 + of_nat d" "d \<le> length reads"
    "d = 0 \<longrightarrow> rx_rb (uart_isr True reads s1) = rx_rb s1 @ concat (map snd reads)"
    using Cons.IH [of s1] Cons.prems(1) by auto
  show ?case
    unfolding step using ih x
    by (intro conjI exI [of _ "d + (if ?p < length b then 1 else 0)"]) (auto simp: s1_def)
qed

lemma isr_keeps:
  assumes "\<forall>(n, b) \<in> set reads. 0 < n \<and> nat n = length b" and "length (rx_rb s) \<le> 4096"
    and "length reads < 2 ^ 32"
  shows "length (rx_rb (uart_isr True reads s)) \<le> 4096 \<and>
    rx_total (uart_isr True reads s) = rx_total s + of_nat (length (concat (map snd reads))) \<and>
    (rx_dropped (uart_isr True reads s) = rx_dropped s \<longrightarrow>
       rx_rb (uart_isr True reads s) = rx_rb s @ concat (map snd reads))"
proof -
  obtain d where d: "rx_dropped (uart_isr True reads s) = rx_dropped s + of_nat d" "d \<le> length reads"
    "d = 0 \<longrightarrow> rx_rb (uart_isr True reads s) = rx_rb s @ concat (map snd reads)"
    using isr_spec [OF assms(1,2)] by blast
  have "d = 0" if "rx_dropped (uart_isr True reads s) = rx_dropped s"
  proof -
    have "(of_nat d :: u32) = 0" using d(1) that by simp
    moreover have "unat (of_nat d :: u32) = d" using d(2) assms(3) by (intro unat_of_nat_small) simp
    ultimately show ?thesis by simp
  qed
  then show ?thesis using d(3) isr_spec [OF assms(1,2)] by blast
qed

text \<open>
  The receive interrupt keeps the bytes in order and counts what it cannot keep: the ring never
  grows past its 4096 bytes, the total counts every byte, and as long as fewer than \<open>2^32\<close> reads
  overflow, the drop counter stands still only if all bytes went into the ring, in order.
\<close>

theorem isr_keeps_order:
  assumes "\<forall>(n, b) \<in> set reads. 0 < n \<and> nat n = length b" and "length (rx_rb s) \<le> RX_RING_SIZE"
    and "length reads < 2 ^ 32"
  shows "length (rx_rb (uart_isr True reads s)) \<le> RX_RING_SIZE \<and>
    rx_total (uart_isr True reads s) = rx_total s + of_nat (length (concat (map snd reads))) \<and>
    (rx_dropped (uart_isr True reads s) = rx_dropped s \<longrightarrow>
       rx_rb (uart_isr True reads s) = rx_rb s @ concat (map snd reads))"
  using isr_keeps [OF assms] .

theorem isr_keeps_order_witness:
  "rx_rb (uart_isr True [(2, [1, 2]), (1, [3])] \<lparr>rx_rb = [0], rx_dropped = 0, rx_total = 0\<rparr>) = [0, 1, 2, 3]"
  using isr_keeps_order [of "[(2, [1, 2]), (1, [3])]" "\<lparr>rx_rb = [0], rx_dropped = 0, rx_total = 0\<rparr>"]
  by (simp add: ring_buf_put_def)

end
