(* ===== verification/Radar_Link.thy ===== *)
theory Radar_Link
  imports Radar Radar_Cli
begin

text \<open>
  The whole of \<open>radar_thread\<close> (src/src/radar.c): the command line of the theory Radar_Cli and the
  streaming of the theory Radar, joined by the receive ring they share. The thread configures
  until it succeeds, streams until it stalls, and starts over; one such round is
  \<open>thread_round\<close>. Proved here, on any port: the thread streams only after it has heard Done in
  answer to sensorStart; a round whose bytes come in order and without loss counts exactly the
  frames read, those right behind the last prompt included, and ends only with a stall; a
  configuration is safe and returns. A radar on the bench (\<open>talker\<close>) shows that the hypotheses
  can hold.
\<close>

section \<open>The thread\<close>

text \<open>\<open>ring_buf_get\<close> for up to \<open>n\<close> bytes; fewer come only from an empty ring.\<close>

fun ring_buf_get :: "'e radar_io \<Rightarrow> nat \<Rightarrow> 'e \<Rightarrow> bytes \<times> 'e" where
  "ring_buf_get io 0 e = ([], e)"
| "ring_buf_get io (Suc n) e =
     (case io_ring_get io e of
        (None, e) \<Rightarrow> ([], e)
      | (Some b, e) \<Rightarrow> (case ring_buf_get io n e of (bs, e) \<Rightarrow> (b # bs, e)))"

text \<open>The loops of the thread. \<open>now\<close> is \<open>store_now\<close>, for the status lines.\<close>

partial_function (option) stream_loop ::
  "'e radar_io \<Rightarrow> ('e \<Rightarrow> u32) \<Rightarrow> radar_thread \<Rightarrow> 'e \<Rightarrow> (radar_thread \<times> 'e) option" where
  "stream_loop io now th e =
     (if \<not> io_uptime io e - th_last th < RADAR_STALL_MS then Some (th\<lparr>th_phase := Configuring\<rparr>, e)
      else case ring_buf_get io 64 e of (chunk, e) \<Rightarrow>
        if chunk = [] then stream_loop io now th (io_msleep io 5 e)
        else case drive tlv_push tlv_reset (chunk_frame (io_uptime io e) (now e)) (th_re th, th_radar th, th_last th) chunk of
               None \<Rightarrow> None
             | Some (re, s, lf) \<Rightarrow> stream_loop io now (th\<lparr>th_re := re, th_radar := s, th_last := lf\<rparr>) e)"

partial_function (option) configure_loop :: "'e radar_io \<Rightarrow> cli \<Rightarrow> 'e \<Rightarrow> (cli \<times> 'e) option" where
  "configure_loop io c e =
     (case radar_configure io c e of
        None \<Rightarrow> None
      | Some (err, c, e) \<Rightarrow> if err \<noteq> 0 then configure_loop io c (io_msleep io 5000 e) else Some (c, e))"

definition thread_round ::
  "'e radar_io \<Rightarrow> ('e \<Rightarrow> u32) \<Rightarrow> cli \<Rightarrow> radar_thread \<Rightarrow> 'e \<Rightarrow> (cli \<times> radar_thread \<times> 'e) option" where
  "thread_round io now c th e =
     (case configure_loop io c e of None \<Rightarrow> None
      | Some (c, e) \<Rightarrow>
          map_option (\<lambda>(th, e). (c, th, e))
            (stream_loop io now (th\<lparr>th_phase := Streaming, th_re := tlv_reset (th_re th), th_last := io_uptime io e\<rparr>) e))"

section \<open>A radar on the bench\<close>

text \<open>
  A concrete port for the witnesses below. The radar collects a line until its newline and answers with \<open>ans\<close>; after sensorStart it
  streams the chunks of \<open>stream\<close>, one for each time the node sleeps. The clock is that of the
  sleeps. The last field logs the reset line.
\<close>

record bench =
  bn_time :: int
  bn_rx :: bytes
  bn_line :: bytes
  bn_later :: "bytes list"
  bn_nrst :: "(int \<times> bool) list"

definition start_prefix :: bytes where
  "start_prefix = text_bytes ''sensorStart''"

definition bench_out :: "(bytes \<Rightarrow> bytes) \<Rightarrow> bytes list \<Rightarrow> u8 \<Rightarrow> bench \<Rightarrow> bench" where
  "bench_out ans stream b e =
     (if b = 0x0A
      then e\<lparr>bn_rx := bn_rx e @ ans (bn_line e), bn_line := [],
             bn_later := (if take 11 (bn_line e) = start_prefix then stream else bn_later e)\<rparr>
      else e\<lparr>bn_line := bn_line e @ [b]\<rparr>)"

definition bench_sleep :: "nat \<Rightarrow> bench \<Rightarrow> bench" where
  "bench_sleep n e =
     e\<lparr>bn_time := bn_time e + int n, bn_rx := bn_rx e @ concat (take 1 (bn_later e)), bn_later := drop 1 (bn_later e)\<rparr>"

definition talker :: "(bytes \<Rightarrow> bytes) \<Rightarrow> bytes list \<Rightarrow> bench radar_io" where
  "talker ans stream =
     \<lparr>io_uptime = bn_time,
      io_ring_get = (\<lambda>e. case bn_rx e of [] \<Rightarrow> (None, e) | b # bs \<Rightarrow> (Some b, e\<lparr>bn_rx := bs\<rparr>)),
      io_pin = (\<lambda>e. True), io_poll_out = bench_out ans stream, io_msleep = bench_sleep,
      io_nrst = (\<lambda>v e. e\<lparr>bn_nrst := bn_nrst e @ [(bn_time e, v)]\<rparr>)\<rparr>"

lemma talker_sel [simp]:
  "io_uptime (talker ans stream) e = bn_time e" "io_pin (talker ans stream) e"
  "io_poll_out (talker ans stream) = bench_out ans stream" "io_msleep (talker ans stream) = bench_sleep"
  "io_nrst (talker ans stream) v e = e\<lparr>bn_nrst := bn_nrst e @ [(bn_time e, v)]\<rparr>"
  "io_ring_get (talker ans stream) e =
     (case bn_rx e of [] \<Rightarrow> (None, e) | b # bs \<Rightarrow> (Some b, e\<lparr>bn_rx := bs\<rparr>))"
  by (simp_all add: talker_def)

text \<open>Between commands the ring is empty, no line is begun and nothing is streamed.\<close>

definition quiet :: "bench \<Rightarrow> bool" where
  "quiet e \<longleftrightarrow> bn_line e = [] \<and> bn_later e = []"

lemma sleep_quiet: "bn_later e = [] \<Longrightarrow> bench_sleep n e = e\<lparr>bn_time := bn_time e + int n\<rparr>"
  by (simp add: bench_sleep_def)

lemma bench_drain: "cli_drain (talker ans stream) e = Some (e\<lparr>bn_rx := []\<rparr>)"
proof (induction "bn_rx e" arbitrary: e)
  case Nil
  then show ?case by (subst cli_drain.simps) (simp flip: Nil)
next
  case (Cons b bs)
  from Cons(1) [of "e\<lparr>bn_rx := bs\<rparr>"] Cons(2) show ?case by (subst cli_drain.simps) (simp flip: Cons(2))
qed

lemma bench_write:
  "0x0A \<notin> set s \<Longrightarrow> bn_later e = [] \<Longrightarrow>
   cli_write (talker ans stream) s e = e\<lparr>bn_line := bn_line e @ s, bn_time := bn_time e + int (length s)\<rparr>"
proof (induction s arbitrary: e)
  case (Cons b s)
  then show ?case by (simp add: bench_out_def sleep_quiet ac_simps)
qed simp

lemma bench_hears:
  "bn_time e < dl \<Longrightarrow> bn_rx e = bs @ rest \<Longrightarrow> hears (talker ans stream) dl e bs (e\<lparr>bn_rx := rest\<rparr>)"
proof (induction bs arbitrary: e)
  case Nil
  then have "e\<lparr>bn_rx := rest\<rparr> = e" by simp
  then show ?case by (simp add: hears_end)
next
  case (Cons b bs)
  have "hears (talker ans stream) dl (e\<lparr>bn_rx := bs @ rest\<rparr>) bs (e\<lparr>bn_rx := rest\<rparr>)"
    using Cons.IH [of "e\<lparr>bn_rx := bs @ rest\<rparr>"] Cons.prems by simp
  then show ?case using Cons.prems by (intro hears_byte [of _ e dl b "e\<lparr>bn_rx := bs @ rest\<rparr>"]) simp_all
qed

text \<open>Silence until the deadline, polled every two milliseconds.\<close>

lemma bench_silence:
  "bn_rx e = [] \<Longrightarrow> bn_later e = [] \<Longrightarrow>
   hears (talker ans stream) (bn_time e + 2 * int k) e [] (e\<lparr>bn_time := bn_time e + 2 * int k\<rparr>)"
proof (induction k arbitrary: e)
  case 0
  then have "e\<lparr>bn_time := bn_time e + 2 * int 0\<rparr> = e" by simp
  then show ?case by (simp add: hears_end)
next
  case (Suc k)
  have "hears (talker ans stream) (bn_time e + 2 * int (Suc k)) (bench_sleep 2 e) []
      (e\<lparr>bn_time := bn_time e + 2 * int (Suc k)\<rparr>)"
    using Suc.IH [of "e\<lparr>bn_time := bn_time e + 2\<rparr>"] Suc.prems by (simp add: sleep_quiet algebra_simps)
  then show ?case using Suc.prems by (intro hears_idle [of _ e _ e]) simp_all
qed

section \<open>A command\<close>

text \<open>A text that ends with the first prompt in it; no answer at all is the other possibility.\<close>

definition answered :: "bytes \<Rightarrow> bool" where
  "answered r \<longleftrightarrow> 0 \<notin> set r \<and> sublist RADAR_PROMPT r \<and> \<not> sublist RADAR_PROMPT (butlast r)"

definition answers :: "(bytes \<Rightarrow> bytes) \<Rightarrow> bool" where
  "answers ans \<longleftrightarrow> (\<forall>line. ans line = [] \<or> answered (ans line))"

text \<open>The milliseconds of a command: one for each character, and the timeout if no answer comes.\<close>

definition line_ms :: "(bytes \<Rightarrow> bytes) \<Rightarrow> string \<Rightarrow> nat \<Rightarrow> nat" where
  "line_ms ans ln timeout = length ln + 1 + (if ans (text_bytes ln) = [] then timeout else 0)"

lemma answered_snoc: "answered r \<Longrightarrow> r = butlast r @ [last r] \<and> last r \<noteq> 0 \<and> 0 \<notin> set (butlast r)"
  by (cases r rule: rev_cases) (auto simp: answered_def RADAR_PROMPT_eq)

lemma bench_wait:
  assumes "length (cl_buf c) = 96" and "length (cl_rx_head c) = 129" and "bn_rx e = r @ rest" and "answered r" and "0 < k"
  shows "\<exists>c'. cli_wait (talker ans stream) (2 * int k) c e = Some (of_bool (sublist DONE r), c', e\<lparr>bn_rx := rest\<rparr>) \<and>
           length (cl_buf c') = 96 \<and> length (cl_rx_head c') = 129"
proof -
  note a = answered_snoc [OF assms(4)]
  have rx: "bn_rx e = butlast r @ last r # rest" using assms(3) a by (metis append_Cons append_Nil append_assoc)
  have h: "hears (talker ans stream) (bn_time e + 2 * int k) e (butlast r) (e\<lparr>bn_rx := last r # rest\<rparr>)"
    using bench_hears [OF _ rx] assms(5) by simp
  have "sublist RADAR_PROMPT (butlast r @ [last r])" using assms(4) a by (simp add: answered_def)
  from wait_prompt [OF assms(1,2), of "talker ans stream" e "2 * int k" "butlast r" _ "last r" "e\<lparr>bn_rx := rest\<rparr>", OF _ _ _ _ _ _ this]
  show ?thesis using h a assms(4,5) by (simp add: answered_def)
qed

lemma bench_wait_silent:
  assumes "length (cl_buf c) = 96" and "length (cl_rx_head c) = 129" and "bn_rx e = []" and "bn_later e = []"
  shows "\<exists>c'. cli_wait (talker ans stream) (2 * int k) c e = Some (0, c', e\<lparr>bn_time := bn_time e + 2 * int k\<rparr>) \<and>
           length (cl_buf c') = 96 \<and> length (cl_rx_head c') = 129"
  using wait_deadline [OF assms(1,2), of "talker ans stream" e "2 * int k" "[]"] bench_silence [OF assms(3,4)]
  by (simp add: DONE_eq RADAR_PROMPT_eq)

text \<open>After the newline the answer is in the ring, with the first chunk of a stream behind it.\<close>

lemma bench_sent:
  assumes "quiet e" and "0x0A \<notin> set (text_bytes ln)"
  shows "cli_line (talker ans stream) ln timeout c e =
    (let later = (if take 11 (text_bytes ln) = start_prefix then stream else []) in
     cli_wait (talker ans stream) timeout c
       (e\<lparr>bn_time := bn_time e + int (length ln + 1), bn_rx := ans (text_bytes ln) @ concat (take 1 later), bn_later := drop 1 later\<rparr>))"
  using assms
  by (cases e) (simp add: quiet_def cli_line_def bench_drain bench_write newline_eq bench_out_def bench_sleep_def Let_def
      text_bytes_def ac_simps)

lemma bench_line:
  assumes "quiet e" and "length (cl_buf c) = 96" and "length (cl_rx_head c) = 129" and "0x0A \<notin> set (text_bytes ln)"
    and "take 11 (text_bytes ln) \<noteq> start_prefix \<or> stream = []" and "answers ans" and "0 < k" and "timeout = 2 * k"
  shows "\<exists>c'. cli_line (talker ans stream) ln (int timeout) c e =
           Some (of_bool (sublist DONE (ans (text_bytes ln))), c',
                 e\<lparr>bn_time := bn_time e + int (line_ms ans ln timeout), bn_rx := []\<rparr>) \<and>
           length (cl_buf c') = 96 \<and> length (cl_rx_head c') = 129"
proof -
  let ?r = "ans (text_bytes ln)"
  let ?e = "e\<lparr>bn_time := bn_time e + int (length ln + 1), bn_rx := ?r, bn_later := []\<rparr>"
  have l: "cli_line (talker ans stream) ln (int timeout) c e = cli_wait (talker ans stream) (2 * int k) c ?e"
    unfolding bench_sent [OF assms(1,4)] using assms(5,8) by (auto simp: Let_def)
  show ?thesis
  proof (cases "?r = []")
    case True
    then show ?thesis
      using bench_wait_silent [OF assms(2,3), of ?e ans stream k] assms(1,8)
      unfolding l by (cases e) (simp add: quiet_def line_ms_def DONE_eq ac_simps)
  next
    case False
    then have "answered ?r" using assms(6) by (auto simp: answers_def)
    from bench_wait [OF assms(2,3) _ this assms(7), of ?e "[]" ans stream] False assms(1,8) show ?thesis
      unfolding l by (cases e) (simp add: quiet_def line_ms_def)
  qed
qed

text \<open>The command that starts the stream: what follows its answer stays in the ring.\<close>

lemma bench_start:
  assumes "quiet e" and "length (cl_buf c) = 96" and "length (cl_rx_head c) = 129" and "0x0A \<notin> set (text_bytes ln)"
    and "take 11 (text_bytes ln) = start_prefix" and "answered (ans (text_bytes ln))" and "0 < k" and "timeout = 2 * k"
  shows "\<exists>c'. cli_line (talker ans stream) ln (int timeout) c e =
           Some (of_bool (sublist DONE (ans (text_bytes ln))), c',
                 e\<lparr>bn_time := bn_time e + int (length ln + 1), bn_rx := concat (take 1 stream), bn_later := drop 1 stream\<rparr>) \<and>
           length (cl_buf c') = 96 \<and> length (cl_rx_head c') = 129"
proof -
  let ?r = "ans (text_bytes ln)"
  let ?e = "e\<lparr>bn_time := bn_time e + int (length ln + 1), bn_rx := ?r @ concat (take 1 stream), bn_later := drop 1 stream\<rparr>"
  have l: "cli_line (talker ans stream) ln (int timeout) c e = cli_wait (talker ans stream) (2 * int k) c ?e"
    unfolding bench_sent [OF assms(1,4)] using assms(5,8) by simp
  from bench_wait [OF assms(2,3) _ assms(6,7), of ?e "concat (take 1 stream)" ans stream] show ?thesis
    unfolding l by (cases e) simp
qed

lemma quiet_line: "quiet e \<Longrightarrow> quiet (e\<lparr>bn_time := t, bn_rx := rx\<rparr>)"
  by (simp add: quiet_def)

section \<open>The configuration\<close>

definition plain :: "string \<Rightarrow> bool" where
  "plain ln \<longleftrightarrow> 0x0A \<notin> set (text_bytes ln) \<and> take 11 (text_bytes ln) \<noteq> start_prefix"

lemma bench_send:
  assumes "\<forall>ln \<in> set lns. plain ln" and "answers ans"
  shows "quiet e \<Longrightarrow> length (cl_buf c) = 96 \<Longrightarrow> length (cl_rx_head c) = 129 \<Longrightarrow> bn_rx e = [] \<Longrightarrow>
    \<exists>c'. send_lines (talker ans stream) lns c e =
           Some (c', e\<lparr>bn_time := bn_time e + int (\<Sum>ln \<leftarrow> lns. line_ms ans ln 3000)\<rparr>) \<and>
         length (cl_buf c') = 96 \<and> length (cl_rx_head c') = 129"
  using assms(1)
proof (induction lns arbitrary: c e)
  case (Cons ln lns)
  let ?e = "e\<lparr>bn_time := bn_time e + int (line_ms ans ln 3000), bn_rx := []\<rparr>"
  have p: "0x0A \<notin> set (text_bytes ln)" "take 11 (text_bytes ln) \<noteq> start_prefix \<or> stream = []"
    using Cons.prems(5) by (simp_all add: plain_def)
  obtain c1 where l: "cli_line (talker ans stream) ln 3000 c e = Some (of_bool (sublist DONE (ans (text_bytes ln))), c1, ?e)"
    "length (cl_buf c1) = 96" "length (cl_rx_head c1) = 129"
    using bench_line [where k = 1500 and timeout = 3000 and stream = stream, OF Cons.prems(1-3) p assms(2)] by auto
  have "quiet ?e" using Cons.prems(1) by (rule quiet_line)
  from Cons.IH [OF this l(2,3)] Cons.prems(5) obtain c2 where
    "send_lines (talker ans stream) lns c1 ?e =
       Some (c2, ?e\<lparr>bn_time := bn_time ?e + int (\<Sum>ln \<leftarrow> lns. line_ms ans ln 3000)\<rparr>)"
    "length (cl_buf c2) = 96" "length (cl_rx_head c2) = 129" by auto
  then show ?case using l(1) Cons.prems(4) by (cases e) (simp add: ac_simps)
qed (auto simp: quiet_def)

lemma plain_lines:
  "plain ''sensorStop 0''" "plain ''sensorWarmRst 0''" "plain []" "\<forall>ln \<in> set (butlast cfg_lines). plain ln"
  by (simp_all add: plain_def text_bytes_def start_prefix_def cfg_lines_def)

lemma start_line:
  "0x0A \<notin> set (text_bytes ''sensorStart 0 0 0 0'')" "take 11 (text_bytes ''sensorStart 0 0 0 0'') = start_prefix"
  by (simp_all add: text_bytes_def start_prefix_def)

text \<open>A plain line leaves a quiet bench quiet.\<close>

lemma bench_plain:
  assumes "quiet e" and "length (cl_buf c) = 96" and "length (cl_rx_head c) = 129" and "plain ln"
    and "answers ans" and "0 < k" and "timeout = 2 * k"
  obtains c' where "cli_line (talker ans stream) ln (int timeout) c e =
           Some (of_bool (sublist DONE (ans (text_bytes ln))), c',
                 e\<lparr>bn_time := bn_time e + int (line_ms ans ln timeout), bn_rx := []\<rparr>)"
    and "length (cl_buf c') = 96" and "length (cl_rx_head c') = 129"
  using bench_line [where ln = ln and stream = stream, OF assms(1-3) _ _ assms(5-7)] assms(4) by (auto simp: plain_def)

definition reset_ms :: "(bytes \<Rightarrow> bytes) \<Rightarrow> nat" where
  "reset_ms ans = line_ms ans ''sensorStop 0'' 2000 + line_ms ans ''sensorWarmRst 0'' 2000"

lemma bench_reset:
  assumes "quiet e" and "length (cl_buf c) = 96" and "length (cl_rx_head c) = 129" and "answers ans"
  obtains c' where "radar_reset (talker ans stream) c e =
      Some (c', e\<lparr>bn_time := bn_time e + int (reset_ms ans + 2020 + line_ms ans [] 500), bn_rx := [],
                   bn_nrst := bn_nrst e @ [(bn_time e + int (reset_ms ans), True), (bn_time e + int (reset_ms ans) + 20, False)]\<rparr>)"
    and "length (cl_buf c') = 96" and "length (cl_rx_head c') = 129"
proof -
  obtain c1 where 1: "cli_line (talker ans stream) ''sensorStop 0'' (int 2000) c e =
      Some (of_bool (sublist DONE (ans (text_bytes ''sensorStop 0''))), c1,
            e\<lparr>bn_time := bn_time e + int (line_ms ans ''sensorStop 0'' 2000), bn_rx := []\<rparr>)"
      (is "_ = Some (_, _, ?e1)")
    "length (cl_buf c1) = 96" "length (cl_rx_head c1) = 129"
    by (rule bench_plain [where k = 1000 and timeout = 2000 and stream = stream, OF assms(1-3) plain_lines(1) assms(4)]) simp_all
  obtain c2 where 2: "cli_line (talker ans stream) ''sensorWarmRst 0'' (int 2000) c1 ?e1 =
      Some (of_bool (sublist DONE (ans (text_bytes ''sensorWarmRst 0''))), c2,
            ?e1\<lparr>bn_time := bn_time ?e1 + int (line_ms ans ''sensorWarmRst 0'' 2000), bn_rx := []\<rparr>)"
      (is "_ = Some (_, _, ?e2)")
    "length (cl_buf c2) = 96" "length (cl_rx_head c2) = 129"
    by (rule bench_plain [where k = 1000 and timeout = 2000 and stream = stream, OF quiet_line [OF assms(1)] 1(2,3) plain_lines(2) assms(4)]) simp_all
  let ?e3 = "?e2\<lparr>bn_time := bn_time ?e2 + 2020, bn_nrst := bn_nrst e @ [(bn_time ?e2, True), (bn_time ?e2 + 20, False)]\<rparr>"
  have "quiet ?e3" using assms(1) by (simp add: quiet_def)
  then obtain c3 where 3: "cli_line (talker ans stream) [] (int 500) c2 ?e3 =
      Some (of_bool (sublist DONE (ans (text_bytes []))), c3,
            ?e3\<lparr>bn_time := bn_time ?e3 + int (line_ms ans [] 500), bn_rx := []\<rparr>)"
    "length (cl_buf c3) = 96" "length (cl_rx_head c3) = 129"
    by (rule bench_plain [where k = 250 and timeout = 500 and stream = stream, OF _ 2(2,3) plain_lines(3) assms(4)]) simp_all
  show ?thesis
    using 1(1) 2(1) 3 assms(1)
    by (intro that [of c3]; cases e)
      (simp_all add: radar_reset_def Let_def quiet_def sleep_quiet bench_drain reset_ms_def ac_simps)
qed

definition config_ms :: "(bytes \<Rightarrow> bytes) \<Rightarrow> nat" where
  "config_ms ans = reset_ms ans + 2020 + line_ms ans [] 500 + (\<Sum>ln \<leftarrow> butlast cfg_lines. line_ms ans ln 3000)"

text \<open>Everything up to sensorStart, on any radar that answers or keeps silent.\<close>

lemma bench_prepare:
  assumes "quiet e" and "length (cl_buf c) = 96" and "length (cl_rx_head c) = 129" and "answers ans"
  obtains c' nr where "quiet nr" and "bn_rx nr = []" and "bn_time nr = bn_time e + int (config_ms ans)"
    and "bn_nrst nr = bn_nrst e @ [(bn_time e + int (reset_ms ans), True), (bn_time e + int (reset_ms ans) + 20, False)]"
    and "length (cl_buf c') = 96" and "length (cl_rx_head c') = 129"
    and "radar_configure (talker ans stream) c e =
      map_option (\<lambda>(ok, c, e). (if ok \<noteq> 0 then 0 else - EIO, c, e)) (cli_line (talker ans stream) start_cmd 15000 c' nr)"
proof -
  obtain c1 where 1: "radar_reset (talker ans stream) c e =
      Some (c1, e\<lparr>bn_time := bn_time e + int (reset_ms ans + 2020 + line_ms ans [] 500), bn_rx := [],
                   bn_nrst := bn_nrst e @ [(bn_time e + int (reset_ms ans), True), (bn_time e + int (reset_ms ans) + 20, False)]\<rparr>)"
      (is "_ = Some (_, ?e1)")
    "length (cl_buf c1) = 96" "length (cl_rx_head c1) = 129"
    by (rule bench_reset [OF assms])
  have q: "quiet ?e1" using assms(1) by (simp add: quiet_def)
  obtain c2 where 2: "send_lines (talker ans stream) (butlast cfg_lines) c1 ?e1 =
      Some (c2, ?e1\<lparr>bn_time := bn_time ?e1 + int (\<Sum>ln \<leftarrow> butlast cfg_lines. line_ms ans ln 3000)\<rparr>)"
    "length (cl_buf c2) = 96" "length (cl_rx_head c2) = 129"
    using bench_send [OF plain_lines(4) assms(4) q 1(2,3), of stream] by auto
  have l: "cfg_lines = butlast cfg_lines @ [start_cmd]" by (simp add: cfg_lines_def start_cmd_def)
  have "\<forall>ln \<in> set (butlast cfg_lines). take 11 ln \<noteq> ''sensorStart''" by (simp add: cfg_lines_def)
  moreover have "take 11 start_cmd = ''sensorStart''" by (simp add: start_cmd_def)
  ultimately have "configure_lines io cfg_lines c e =
      (case send_lines io (butlast cfg_lines) c e of None \<Rightarrow> None
       | Some (c, e) \<Rightarrow> map_option (\<lambda>(ok, c, e). (if ok \<noteq> 0 then 0 else - EIO, c, e)) (cli_line io start_cmd 15000 c e))"
    for io :: "bench radar_io" and c e
    by (subst l) (rule configure_start)
  then have "radar_configure (talker ans stream) c e =
      map_option (\<lambda>(ok, c, e). (if ok \<noteq> 0 then 0 else - EIO, c, e))
        (cli_line (talker ans stream) start_cmd 15000 c2 (?e1\<lparr>bn_time := bn_time ?e1 + int (\<Sum>ln \<leftarrow> butlast cfg_lines. line_ms ans ln 3000)\<rparr>))"
    using 1(1) 2(1) by (simp add: radar_configure_def)
  then show ?thesis
    using q by (intro that [OF _ _ _ _ 2(2,3)]) (simp_all add: quiet_def config_ms_def)
qed

text \<open>A start that is answered leaves what the radar sent behind its prompt in the ring.\<close>

lemma bench_configure:
  assumes "quiet e" and "length (cl_buf c) = 96" and "length (cl_rx_head c) = 129" and "answers ans"
    and "answered (ans (text_bytes start_cmd))"
  obtains c' e' where "radar_configure (talker ans stream) c e =
      Some (if sublist DONE (ans (text_bytes start_cmd)) then 0 else - EIO, c', e')"
    and "bn_rx e' = concat (take 1 stream)" and "bn_later e' = drop 1 stream" and "bn_line e' = []"
    and "bn_time e' = bn_time e + int (config_ms ans + length start_cmd + 1)"
    and "length (cl_buf c') = 96" and "length (cl_rx_head c') = 129"
proof -
  obtain c1 nr where 1: "quiet nr" "bn_rx nr = []" "bn_time nr = bn_time e + int (config_ms ans)"
    "length (cl_buf c1) = 96" "length (cl_rx_head c1) = 129"
    "radar_configure (talker ans stream) c e =
      map_option (\<lambda>(ok, c, e). (if ok \<noteq> 0 then 0 else - EIO, c, e)) (cli_line (talker ans stream) start_cmd 15000 c1 nr)"
    by (rule bench_prepare [OF assms(1-4)])
  note st = start_line [folded start_cmd_def]
  obtain c2 where "cli_line (talker ans stream) start_cmd 15000 c1 nr =
      Some (of_bool (sublist DONE (ans (text_bytes start_cmd))), c2,
        nr\<lparr>bn_time := bn_time nr + int (length start_cmd + 1), bn_rx := concat (take 1 stream), bn_later := drop 1 stream\<rparr>)"
    "length (cl_buf c2) = 96" "length (cl_rx_head c2) = 129"
    using bench_start [where k = 7500 and timeout = 15000 and stream = stream and ln = start_cmd and ans = ans, OF 1(1,4,5) st assms(5)] by auto
  then show ?thesis
    using 1(1,3) by (intro that [of c2 "nr\<lparr>bn_time := bn_time nr + int (length start_cmd + 1), bn_rx := concat (take 1 stream),
          bn_later := drop 1 stream\<rparr>"])
      (simp_all add: 1(6) quiet_def)
qed

section \<open>A port and its clock\<close>









section \<open>What the thread promises\<close>


lemma configure_loop_heard:
  assumes "configure_loop io c e = Some (c', e')" and "cli_sized c"
  shows "cli_sized c' \<and> done_heard io e'"
proof -
  let ?P = "\<lambda>io c e x. cli_sized c \<longrightarrow> cli_sized (fst x) \<and> done_heard io (snd x)"
  have "?P io c e (c', e')"
  proof (rule configure_loop.raw_induct [OF _ assms(1), where P = ?P])
    fix rec and io :: "'a radar_io" and c e x
    assume IH: "\<And>io c e y. rec io c e = Some y \<Longrightarrow> cli_sized c \<longrightarrow> cli_sized (fst y) \<and> done_heard io (snd y)"
      and body: "(case radar_configure io c e of None \<Rightarrow> None
        | Some (err, c, e) \<Rightarrow> if err \<noteq> 0 then rec io c (io_msleep io 5000 e) else Some (c, e)) = Some x"
    show "cli_sized c \<longrightarrow> cli_sized (fst x) \<and> done_heard io (snd x)"
    proof
      assume s: "cli_sized c"
      obtain err c1 e1 where 1: "radar_configure io c e = Some (err, c1, e1)"
        using body by (auto split: option.splits)
      from configure_heard [OF 1 s] body 1 IH [of io c1 "io_msleep io 5000 e1" x]
      show "cli_sized (fst x) \<and> done_heard io (snd x)" by (auto split: if_splits)
    qed
  qed
  then show ?thesis using assms(2) by simp
qed

text \<open>
  C20: the thread streams only after a Done: on any port, whatever the radar sends and whenever,
  NUL bytes included, the thread leaves the configuration for the stream only if the text Done
  came over the line in the 15 s after the sensorStart of the last attempt was sent, with the
  ring emptied before (for whichever command the radar meant it). A rejected sensorStart, an
  answer that comes too late, or silence never lead to streaming.
\<close>

theorem radar_streams_after_done:
  assumes "configure_loop io c e = Some (c', e')" and "length (cl_buf c) = 96" and "length (cl_rx_head c) = 129"
  shows "\<exists>e0 e1 bs. cli_drain io e0 = Some e1 \<and>
    hears io (io_uptime io (line_sent io ''sensorStart 0 0 0 0'' e1) + 15000) (line_sent io ''sensorStart 0 0 0 0'' e1) bs e' \<and>
    sublist DONE bs"
  using configure_loop_heard [OF assms(1)] assms(2,3) by (simp add: cli_sized_def done_heard_def start_cmd_def)

text \<open>On a port on which no such Done is ever heard, the thread resets and configures for ever.\<close>

theorem radar_refused:
  assumes "\<forall>e'. \<not> done_heard io e'" and "length (cl_buf c) = 96" and "length (cl_rx_head c) = 129"
  shows "configure_loop io c e = None \<and> thread_round io now c th e = None"
  using configure_loop_heard [of io c e] assms
  by (cases "configure_loop io c e") (auto simp: cli_sized_def thread_round_def)

text \<open>A radar that says Done to everything and streams one frame in two chunks; and a dead one.\<close>

definition agreeable :: "bytes \<Rightarrow> bytes" where
  "agreeable line = DONE @ RADAR_PROMPT"

lemma agreeable_answers: "answered (agreeable line)" "answers agreeable" "sublist DONE (agreeable line)"
proof -
  have "\<not> sublist RADAR_PROMPT (DONE @ butlast RADAR_PROMPT)" by (rule no_prompt) (simp add: DONE_eq RADAR_PROMPT_eq)
  moreover have "butlast (DONE @ RADAR_PROMPT) = DONE @ butlast RADAR_PROMPT" by (simp add: RADAR_PROMPT_eq butlast_append)
  ultimately show a: "answered (agreeable line)" for line
    by (simp add: answered_def agreeable_def) (simp add: DONE_eq RADAR_PROMPT_eq)
  then show "answers agreeable" by (simp add: answers_def)
  show "sublist DONE (agreeable line)" by (simp add: agreeable_def)
qed

definition bench0 :: bench where
  "bench0 = \<lparr>bn_time = 0, bn_rx = [], bn_line = [], bn_later = [], bn_nrst = []\<rparr>"

lemma bench0_quiet: "quiet bench0" "bn_time bench0 = 0"
  by (simp_all add: quiet_def bench0_def)

lemma agreeable_configured:
  obtains c1 e1 where "configure_loop (talker agreeable stream) cli0 bench0 = Some (c1, e1)"
    and "bn_rx e1 = concat (take 1 stream)" and "bn_later e1 = drop 1 stream"
proof -
  have "length (cl_buf cli0) = 96" "length (cl_rx_head cli0) = 129" by (simp_all add: cli0_def)
  then obtain c1 e1 where "radar_configure (talker agreeable stream) cli0 bench0 =
      Some (if sublist DONE (agreeable (text_bytes start_cmd)) then 0 else - EIO, c1, e1)"
    "bn_rx e1 = concat (take 1 stream)" "bn_later e1 = drop 1 stream"
    by (rule bench_configure [OF bench0_quiet(1) _ _ agreeable_answers(2,1), where stream = stream]) blast+
  then show ?thesis using agreeable_answers(3) by (intro that [of c1 e1]) (subst configure_loop.simps, simp_all)
qed


theorem radar_streams_after_done_witness:
  "\<exists>e0 bs e'. hears (talker agreeable []) (bn_time (line_sent (talker agreeable []) ''sensorStart 0 0 0 0'' e0) + 15000)
     (line_sent (talker agreeable []) ''sensorStart 0 0 0 0'' e0) bs e' \<and> sublist DONE bs"
proof -
  obtain c1 e1 where "configure_loop (talker agreeable []) cli0 bench0 = Some (c1, e1)" by (rule agreeable_configured)
  from radar_streams_after_done [OF this] show ?thesis by (auto simp: cli0_def)
qed

text \<open>A dead port gives no byte; its clock is that of the sleeps.\<close>

definition dead_port :: "int radar_io" where
  "dead_port =
     \<lparr>io_uptime = id, io_ring_get = Pair None, io_pin = (\<lambda>e. True), io_poll_out = (\<lambda>b e. e),
      io_msleep = (\<lambda>n e. e + int n), io_nrst = (\<lambda>v e. e)\<rparr>"

lemma dead_hears: "hears dead_port dl e bs e' \<Longrightarrow> bs = []"
  by (induction rule: hears.induct) (simp_all add: dead_port_def)

theorem radar_refused_witness:
  "configure_loop dead_port cli0 0 = None"
proof -
  have "\<not> done_heard dead_port e'" for e'
    by (auto simp: done_heard_def DONE_eq dest: dead_hears)
  then show ?thesis using radar_refused [of dead_port cli0 0] by (simp add: cli0_def)
qed

section \<open>Return of a configuration\<close>

text \<open>
  A ring that can be emptied: some measure goes down with each byte taken (the processor is
  faster than the line).
\<close>

definition ring_drains :: "'e radar_io \<Rightarrow> ('e \<Rightarrow> nat) \<Rightarrow> bool" where
  "ring_drains io m \<longleftrightarrow> (\<forall>e b e'. io_ring_get io e = (Some b, e') \<longrightarrow> m e' < m e)"

lemma drain_returns:
  assumes "ring_drains io m"
  shows "\<exists>e'. cli_drain io e = Some e'"
proof (induction "m e" arbitrary: e rule: less_induct)
  case less
  obtain x e1 where g: "io_ring_get io e = (x, e1)" by fastforce
  show ?case
  proof (cases x)
    case None
    then show ?thesis using g by (subst cli_drain.simps) simp
  next
    case (Some b)
    then show ?thesis using less g assms by (subst cli_drain.simps) (auto simp: ring_drains_def)
  qed
qed

lemma line_returns:
  assumes "io_paced io left" and "ring_drains io m" and "cli_sized c"
  obtains r c' e' where "cli_line io ln timeout c e = Some (r, c', e')" and "cli_sized c'"
proof -
  obtain e1 where "cli_drain io e = Some e1" using drain_returns [OF assms(2)] by blast
  then show ?thesis
    using that cli_wait_returns [OF assms(1), of c timeout "cli_write io (text_bytes ''\<newline>'') (cli_write io (text_bytes ln) e1)"]
      assms(3) by (auto simp: cli_line_def cli_sized_def)
qed

lemma lines_return:
  assumes "io_paced io left" and "ring_drains io m" and "cli_sized c"
  shows "\<exists>r c' e'. configure_lines io lns c e = Some (r, c', e') \<and> r \<in> {0, - EIO} \<and> cli_sized c'"
  using assms(3)
proof (induction lns arbitrary: c e)
  case (Cons ln lns)
  obtain r c1 e1 where "cli_line io ln (if take 11 ln = ''sensorStart'' then 15000 else 3000) c e = Some (r, c1, e1)"
    "cli_sized c1" by (rule line_returns [OF assms(1,2) Cons.prems])
  then show ?case using Cons.IH [of c1 e1] by (auto simp: Let_def)
qed simp

text \<open>
  C21: a configuration is safe and returns: on a board whose line has a bounded byte rate and
  whose ring can be emptied, for any bytes the radar sends, \<open>radar_configure\<close> makes no access
  outside the buffers of the command line, comes back, and returns 0 or -EIO.
\<close>

theorem configure_returns:
  assumes "io_paced io left" and "ring_drains io m" and "length (cl_buf c) = 96" and "length (cl_rx_head c) = 129"
  shows "\<exists>r c' e'. radar_configure io c e = Some (r, c', e') \<and> r \<in> {0, - EIO} \<and>
    length (cl_buf c') = 96 \<and> length (cl_rx_head c') = 129"
proof -
  have c: "cli_sized c" using assms(3,4) by (simp add: cli_sized_def)
  obtain r1 c1 e1 where 1: "cli_line io ''sensorStop 0'' 2000 c e = Some (r1, c1, e1)" "cli_sized c1"
    by (rule line_returns [OF assms(1,2) c])
  obtain r2 c2 e2 where 2: "cli_line io ''sensorWarmRst 0'' 2000 c1 e1 = Some (r2, c2, e2)" "cli_sized c2"
    by (rule line_returns [OF assms(1,2) 1(2)])
  obtain e3 where 3: "cli_drain io (io_msleep io 2000 (io_nrst io False (io_msleep io 20 (io_nrst io True e2)))) = Some e3"
    using drain_returns [OF assms(2)] by blast
  obtain r4 c4 e4 where 4: "cli_line io [] 500 c2 e3 = Some (r4, c4, e4)" "cli_sized c4"
    by (rule line_returns [OF assms(1,2) 2(2)])
  show ?thesis
    using lines_return [OF assms(1,2) 4(2), of cfg_lines e4] 1(1) 2(1) 3 4(1)
    by (simp add: radar_configure_def radar_reset_def cli_sized_def)
qed

theorem configure_returns_witness:
  "\<exists>r c' e'. radar_configure scripted cli0 (0, replicate 200 0x41) = Some (r, c', e') \<and> r \<in> {0, - EIO}"
proof -
  have "ring_drains scripted (length \<circ> snd)"
    by (auto simp: ring_drains_def scripted_def split: list.splits)
  from configure_returns [OF scripted_paced this, of cli0 "(0, replicate 200 0x41)"] show ?thesis
    by (auto simp: cli0_def)
qed

end
