(* ===== verification/Radar_Rx.thy ===== *)
theory Radar_Rx
  imports Resync Radar Radar_Cli
begin

text \<open>
  The receive path of src/src/radar.c as a whole: the uart interrupt that fills the ring, the radar
  thread that takes chunks of 64 bytes from it, the reassembler and \<open>on_frame\<close>, in any
  interleaving of interrupts and polls. While the drop counter stands still every frame is
  counted once; what a single lost read can do is shown too.
\<close>

section \<open>Interrupts and polls\<close>

text \<open>
  The ring and the thread. An interrupt brings the reads \<open>uart_isr\<close> makes; a poll is one turn of
  the streaming loop, at an uptime: the stall test, then \<open>ring_buf_get\<close> of up to 64 bytes and
  the pushes. A thread that has left the loop no longer polls.
\<close>

record serial =
  sr_rx :: rx
  sr_th :: radar_thread

datatype rx_event = Isr bool "(int \<times> bytes) list" | Poll int u32

definition poll :: "int \<Rightarrow> u32 \<Rightarrow> serial \<Rightarrow> serial option" where
  "poll uptime now s =
     (if \<not> uptime - th_last (sr_th s) < RADAR_STALL_MS then Some (s\<lparr>sr_th := (sr_th s)\<lparr>th_phase := Configuring\<rparr>\<rparr>)
      else map_option (\<lambda>th. s\<lparr>sr_th := th, sr_rx := (sr_rx s)\<lparr>rx_rb := drop 64 (rx_rb (sr_rx s))\<rparr>\<rparr>)
             (thread_step (Chunk uptime now (take 64 (rx_rb (sr_rx s)))) (sr_th s)))"

fun serial_step :: "rx_event \<Rightarrow> serial \<Rightarrow> serial option" where
  "serial_step (Isr update reads) s = Some (s\<lparr>sr_rx := uart_isr update reads (sr_rx s)\<rparr>)"
| "serial_step (Poll uptime now) s = (if th_phase (sr_th s) \<noteq> Streaming then Some s else poll uptime now s)"

fun serial_run :: "rx_event list \<Rightarrow> serial \<Rightarrow> serial option" where
  "serial_run [] s = Some s"
| "serial_run (e # es) s = (case serial_step e s of None \<Rightarrow> None | Some s' \<Rightarrow> serial_run es s')"

text \<open>
  What \<open>uart_fifo_read\<close> gives: a positive count with as many bytes, at most 64, or no bytes. The
  bytes an interrupt brings are those of the reads up to the first without any.
\<close>

fun arrived :: "rx_event \<Rightarrow> bytes" where
  "arrived (Isr update reads) = (if update then concat (map snd (takeWhile (\<lambda>(n, b). 0 < n) reads)) else [])"
| "arrived (Poll uptime now) = []"

fun fifo_ok :: "rx_event \<Rightarrow> bool" where
  "fifo_ok (Isr update reads) \<longleftrightarrow>
     length reads < 2 ^ 32 \<and> (\<forall>(n, b) \<in> set reads. 0 < n \<longrightarrow> nat n = length b \<and> n \<le> 64)"
| "fifo_ok (Poll uptime now) \<longleftrightarrow> True"

text \<open>The drop counter stands still.\<close>

fun lossless :: "rx_event list \<Rightarrow> serial \<Rightarrow> bool" where
  "lossless [] s \<longleftrightarrow> True"
| "lossless (e # es) s \<longleftrightarrow>
     (case serial_step e s of None \<Rightarrow> True
      | Some s' \<Rightarrow> rx_dropped (sr_rx s') = rx_dropped (sr_rx s) \<and> lossless es s')"

lemma isr_reads:
  "uart_isr update reads s = (if update then uart_isr True (takeWhile (\<lambda>(n, b). 0 < n) reads) s else s)"
  by (induction reads arbitrary: s) (auto simp: Let_def split: prod.splits)

lemma isr_lossless:
  assumes "fifo_ok (Isr update reads)" and "length (rx_rb s) \<le> 4096"
  shows "length (rx_rb (uart_isr update reads s)) \<le> 4096"
    and "rx_dropped (uart_isr update reads s) = rx_dropped s \<Longrightarrow>
      rx_rb (uart_isr update reads s) = rx_rb s @ arrived (Isr update reads)"
proof -
  let ?r = "takeWhile (\<lambda>(n, b). 0 < n) reads"
  have r: "\<forall>(n, b) \<in> set ?r. 0 < n \<and> nat n = length b"
    using assms(1) by (auto dest: set_takeWhileD)
  have "length ?r < 2 ^ 32" using assms(1) length_takeWhile_le [of "\<lambda>(n, b). 0 < n" reads] by simp
  note kept = isr_keeps [OF r assms(2) this]
  show "length (rx_rb (uart_isr update reads s)) \<le> 4096"
    using kept assms(2) by (subst isr_reads) simp
  show "rx_dropped (uart_isr update reads s) = rx_dropped s \<Longrightarrow>
      rx_rb (uart_isr update reads s) = rx_rb s @ arrived (Isr update reads)"
    using kept by (subst (asm) isr_reads, subst isr_reads) (auto split: if_splits)
qed

text \<open>A backlog that fits the ring is not lost.\<close>

lemma isr_fits:
  "\<forall>(n, b) \<in> set reads. 0 < n \<longrightarrow> nat n = length b \<Longrightarrow> length (rx_rb s) + length (arrived (Isr update reads)) \<le> 4096 \<Longrightarrow>
   rx_dropped (uart_isr update reads s) = rx_dropped s \<and>
   length (rx_rb (uart_isr update reads s)) = length (rx_rb s) + length (arrived (Isr update reads))"
proof (induction reads arbitrary: s)
  case (Cons x reads)
  obtain n b where x: "x = (n, b)" by fastforce
  show ?case
  proof (cases "update \<and> 0 < n")
    case True
    then have "nat n = length b" "length (rx_rb s) + length b \<le> 4096" using Cons.prems x by auto
    then show ?thesis
      using True x Cons.prems Cons.IH [of "s\<lparr>rx_total := rx_total s + of_int n, rx_rb := rx_rb s @ b\<rparr>"]
      by (simp add: ring_buf_put_def Let_def)
  qed (use x in auto)
qed simp

lemma lossless_fits:
  "\<forall>e \<in> set es. fifo_ok e \<Longrightarrow> length (rx_rb (sr_rx s)) + length (concat (map arrived es)) \<le> 4096 \<Longrightarrow> lossless es s"
proof (induction es arbitrary: s)
  case (Cons e es)
  show ?case
  proof (cases "serial_step e s")
    case (Some s')
    have "rx_dropped (sr_rx s') = rx_dropped (sr_rx s) \<and> length (rx_rb (sr_rx s')) \<le> length (rx_rb (sr_rx s)) + length (arrived e)"
    proof (cases e)
      case (Isr update reads)
      have "\<forall>(n, b) \<in> set reads. 0 < n \<longrightarrow> nat n = length b" using Cons.prems(1) Isr by auto
      moreover have "length (rx_rb (sr_rx s)) + length (arrived (Isr update reads)) \<le> 4096"
        using Cons.prems(2) Isr by simp
      ultimately show ?thesis using Some Isr isr_fits [of reads "sr_rx s" update] by (auto simp del: arrived.simps)
    next
      case (Poll u now)
      then show ?thesis using Some by (auto simp: poll_def simp del: thread_step.simps split: if_splits)
    qed
    then show ?thesis using Some Cons by simp
  qed simp
qed simp

section \<open>Every frame counted once\<close>

lemma not_streaming: "th_phase (sr_th s) \<noteq> Streaming \<Longrightarrow> \<exists>s'. serial_run es s = Some s' \<and> sr_th s' = sr_th s"
proof (induction es arbitrary: s)
  case (Cons e es)
  then obtain s1 where "serial_step e s = Some s1" "sr_th s1 = sr_th s" by (cases e) auto
  with Cons.IH [of s1] Cons.prems show ?case by simp
qed simp

definition counts :: "(tlv_header \<times> (u32 \<times> bytes) list) list \<Rightarrow> (bool \<times> nat) list" where
  "counts fr = map (\<lambda>(h, ts). count_of ts) fr"

lemma serial_counted:
  assumes "reasm_inv (th_re (sr_th s))" and "th_phase (sr_th s) = Streaming" and "length (rx_rb (sr_rx s)) \<le> 4096"
    and "\<forall>e \<in> set es. fifo_ok e" and "lossless es s"
    and "scan (pending (th_re (sr_th s)) @ rx_rb (sr_rx s) @ concat (map arrived es)) = map (\<lambda>(h, ts). build_frame h ts) fr"
    and "acc_rep (rs_acc (th_radar (sr_th s)), t0) xs"
  shows "\<exists>s' n. serial_run es s = Some s' \<and> acc_rep (rs_acc (th_radar (sr_th s')), t0) (xs @ counts (take n fr)) \<and>
    (th_phase (sr_th s') = Streaming \<and> rx_rb (sr_rx s') = [] \<longrightarrow> length fr \<le> n)"
  using assms
proof (induction es arbitrary: s fr xs)
  case Nil
  have "rx_rb (sr_rx s) = [] \<Longrightarrow> fr = []" using Nil.prems(6) scan_pending [OF Nil.prems(1)] by simp
  then show ?case using Nil.prems(7) by (intro exI [of _ s] exI [of _ 0]) (auto simp: counts_def)
next
  case (Cons e es)
  show ?case
  proof (cases e)
    case (Isr update reads)
    let ?s = "s\<lparr>sr_rx := uart_isr update reads (sr_rx s)\<rparr>"
    have "fifo_ok (Isr update reads)" using Cons.prems(4) Isr by simp
    note kept = isr_lossless [OF this Cons.prems(3)]
    have "rx_dropped (sr_rx ?s) = rx_dropped (sr_rx s)" "lossless es ?s" using Cons.prems(5) Isr by simp_all
    then show ?thesis
      using Cons.IH [of ?s fr xs] Cons.prems kept Isr by (simp del: arrived.simps)
  next
    case (Poll u now)
    show ?thesis
    proof (cases "u - th_last (sr_th s) < RADAR_STALL_MS")
      case False
      let ?s = "s\<lparr>sr_th := (sr_th s)\<lparr>th_phase := Configuring\<rparr>\<rparr>"
      have st: "serial_step e s = Some ?s" using False Poll Cons.prems(2) by (simp add: poll_def)
      obtain s' where "serial_run es ?s = Some s'" "sr_th s' = sr_th ?s" using not_streaming [of ?s es] by auto
      then show ?thesis
        using Cons.prems(7) by (intro exI [of _ s'] exI [of _ 0]) (simp add: st counts_def)
    next
      case True
      let ?b = "take 64 (rx_rb (sr_rx s))" and ?rest = "drop 64 (rx_rb (sr_rx s)) @ concat (map arrived es)"
      have sc: "scan (pending (th_re (sr_th s)) @ ?b @ ?rest) = map (\<lambda>(h, ts). build_frame h ts) fr"
        using Cons.prems(6) Poll by (simp flip: append_assoc)
      obtain th fr1 fr2 fs where th: "thread_step (Chunk u now ?b) (sr_th s) = Some th" "reasm_inv (th_re th)"
        "th_phase th = Streaming" "fr = fr1 @ fr2" "scan (pending (th_re th) @ ?rest) = map (\<lambda>(h, ts). build_frame h ts) fr2"
        "acc_rep (rs_acc (th_radar th), t0) (xs @ map (\<lambda>(h, ts). count_of ts) fr1)"
        using chunk_counted [OF Cons.prems(1,2) True sc Cons.prems(7), of now] by metis
      let ?s = "s\<lparr>sr_th := th, sr_rx := (sr_rx s)\<lparr>rx_rb := drop 64 (rx_rb (sr_rx s))\<rparr>\<rparr>"
      have st: "serial_step e s = Some ?s"
        using True Poll Cons.prems(2) th(1) by (simp add: poll_def del: thread_step.simps)
      have "lossless es ?s" using Cons.prems(5) st by simp
      then have "\<exists>s' n. serial_run es ?s = Some s' \<and>
          acc_rep (rs_acc (th_radar (sr_th s')), t0) ((xs @ counts fr1) @ counts (take n fr2)) \<and>
          (th_phase (sr_th s') = Streaming \<and> rx_rb (sr_rx s') = [] \<longrightarrow> length fr2 \<le> n)"
        using th(2,3,5,6) Cons.prems(3,4) by (intro Cons.IH) (simp_all add: counts_def)
      then obtain s' n where "serial_run es ?s = Some s'"
        "acc_rep (rs_acc (th_radar (sr_th s')), t0) ((xs @ counts fr1) @ counts (take n fr2))"
        "th_phase (sr_th s') = Streaming \<and> rx_rb (sr_rx s') = [] \<longrightarrow> length fr2 \<le> n" by blast
      then show ?thesis
        by (intro exI [of _ s'] exI [of _ "length fr1 + n"]) (simp add: st th(4) counts_def)
    qed
  qed
qed

lemma serial_segments:
  assumes "\<forall>g \<in> set segs. segment_ok g"
    and "rx_rb (sr_rx s) @ concat (map arrived es) = concat (map segment_bytes segs)"
    and "\<forall>e \<in> set es. fifo_ok e" and "lossless es s"
    and "th_phase (sr_th s) = Streaming" and "th_re (sr_th s) = tlv_reset re" and "length (r_buf re) = 2048"
    and "length (rx_rb (sr_rx s)) \<le> 4096" and "acc_rep (rs_acc (th_radar (sr_th s)), t0) xs"
  shows "\<exists>s' n. serial_run es s = Some s' \<and>
    acc_rep (rs_acc (th_radar (sr_th s')), t0) (xs @ map (\<lambda>(noise, h, ts). count_of ts) (take n segs)) \<and>
    (th_phase (sr_th s') = Streaming \<and> rx_rb (sr_rx s') = [] \<longrightarrow> length segs \<le> n)"
proof -
  let ?fr = "map (\<lambda>(noise, h, ts). (h, ts)) segs"
  have "reasm_inv (th_re (sr_th s))" unfolding assms(6) using assms(7) by (rule inv_reset)
  moreover have "scan (pending (th_re (sr_th s)) @ rx_rb (sr_rx s) @ concat (map arrived es)) = map (\<lambda>(h, ts). build_frame h ts) ?fr"
    using scan_segments [OF assms(1)] assms(2,6) by (simp add: case_prod_unfold comp_def)
  ultimately show ?thesis
    using serial_counted [OF _ assms(5,8,3,4) _ assms(9), of ?fr]
    by (simp add: counts_def take_map comp_def case_prod_unfold)
qed

text \<open>
  C11: from the wire to the accumulators, from a reset reassembler on and for a stream of well-formed
  frames (each of at most 2048 bytes, after noise without the magic word): in every interleaving of receive interrupts and
  polls, as long as the drop counter stands still, the radar thread touches no memory outside
  its buffers and what it has counted are the first frames of the stream, each once and in
  order; with the ring empty and the thread still streaming, all of them. On other streams the
  thread is not safe: see \<open>lost_read_walks_out\<close>.
\<close>

theorem wire_counted:
  assumes "\<forall>g \<in> set segs. segment_ok g"
    and "rx_rb (sr_rx s) @ concat (map arrived es) = concat (map segment_bytes segs)"
    and "\<forall>e \<in> set es. fifo_ok e" and "lossless es s"
    and "th_phase (sr_th s) = Streaming" and "th_re (sr_th s) = tlv_reset re" and "length (r_buf re) = 2048"
    and "length (rx_rb (sr_rx s)) \<le> RX_RING_SIZE" and "acc_rep (rs_acc (th_radar (sr_th s)), t0) xs"
  shows "\<exists>s' n. serial_run es s = Some s' \<and>
    acc_rep (rs_acc (th_radar (sr_th s')), t0) (xs @ map (\<lambda>(noise, h, ts). count_of ts) (take n segs)) \<and>
    (th_phase (sr_th s') = Streaming \<and> rx_rb (sr_rx s') = [] \<longrightarrow> length segs \<le> n)"
  using serial_segments [OF assms] .

lemma acc_rep_streaming: "acc_rep (rs_acc (th_radar streaming), 0) []"
  by (simp add: streaming_def acc_rep_boot)

text \<open>A frame with the zones of one person, in one interrupt of two reads and one poll.\<close>

definition bench_frame :: bytes where
  "bench_frame = build_frame sample_header [(315, [4, 0x21])]"

definition bench_events :: "rx_event list" where
  "bench_events = [Isr True [(30, take 30 bench_frame), (20, drop 30 bench_frame)], Poll 100 0]"

definition bench_serial :: serial where
  "bench_serial = \<lparr>sr_rx = \<lparr>rx_rb = [], rx_dropped = 0, rx_total = 0\<rparr>, sr_th = streaming\<rparr>"

abbreviation (input) bench_segs :: "(bytes \<times> tlv_header \<times> (u32 \<times> bytes) list) list" where
  "bench_segs \<equiv> [([], sample_header, [(315, [4, 0x21])])]"

lemma bench_length: "length bench_frame = 50"
  by (simp add: bench_frame_def)

lemma bench_ok:
  "\<forall>g \<in> set bench_segs. segment_ok g"
  "rx_rb (sr_rx bench_serial) @ concat (map arrived bench_events) = concat (map segment_bytes bench_segs)"
  "\<forall>e \<in> set bench_events. fifo_ok e" "lossless bench_events bench_serial"
  "th_phase (sr_th bench_serial) = Streaming" "th_re (sr_th bench_serial) = tlv_reset reasm0" "length (r_buf reasm0) = 2048"
  "length (rx_rb (sr_rx bench_serial)) \<le> 4096" "acc_rep (rs_acc (th_radar (sr_th bench_serial)), u) []"
proof -
  show ok: "\<forall>e \<in> set bench_events. fifo_ok e" by (simp add: bench_events_def bench_length)
  show "lossless bench_events bench_serial"
    by (rule lossless_fits [OF ok]) (simp add: bench_events_def bench_serial_def bench_length)
qed (simp_all add: segment_ok_def tlv_magic_def bench_events_def bench_serial_def segment_bytes_def bench_frame_def
  streaming_def reasm0_def acc_rep_boot)

theorem wire_counted_witness:
  "\<exists>s' n. serial_run bench_events bench_serial = Some s' \<and>
    acc_rep (rs_acc (th_radar (sr_th s')), 0) (take n [count_of [(315, [4, 0x21])]])"
proof -
  have "map (\<lambda>(noise, h, ts). count_of ts) (take n bench_segs) = take n [count_of [(315, [4, 0x21])]]" for n
    by (cases n) simp_all
  note seen = this
  show ?thesis
    by (insert wire_counted [OF bench_ok(1-8) bench_ok(9) [of 0]], unfold append_Nil seen, elim exE conjE, intro exI conjI)
qed

text \<open>
  C4: from the wire to the window, for a stream of well-formed frames with magic-free noise between
  them: when the thread has drained the ring and is still streaming, with nothing dropped, the
  window taken then says of the frames that were sent since the last
  take how many people the fullest reported, what part of the 30 s was occupied, whether any
  had a target list, and whether there were any.
\<close>

theorem wire_to_window:
  assumes "\<forall>g \<in> set segs. segment_ok g"
    and "rx_rb (sr_rx s) @ concat (map arrived es) = concat (map segment_bytes segs)"
    and "\<forall>e \<in> set es. fifo_ok e" and "lossless es s"
    and "th_phase (sr_th s) = Streaming" and "th_re (sr_th s) = tlv_reset re" and "length (r_buf re) = 2048"
    and "length (rx_rb (sr_rx s)) \<le> RX_RING_SIZE" and "acc_rep (rs_acc (th_radar (sr_th s)), u) []"
    and "serial_run es s = Some s'" and "th_phase (sr_th s') = Streaming" and "rx_rb (sr_rx s') = []"
    and "length segs < 65536" and "cs = map (\<lambda>(noise, h, ts). count_of ts) segs"
    and "w = fst (radar_window_take u (rs_acc (th_radar (sr_th s'))))"
  shows "rw_alive w = (segs \<noteq> []) \<and> rw_tracker w = (\<exists>c \<in> set cs. fst c) \<and>
    unat (rw_headcount w) = Max (insert 0 (snd ` set cs)) \<and>
    unat (rw_occ_s w) = length (filter (\<lambda>c. 0 < snd c) cs) * 30 div length cs"
proof -
  have rep: "acc_rep (rs_acc (th_radar (sr_th s')), u) cs"
    using serial_segments [OF assms(1-9)] assms(10-12,14) by auto
  have "\<forall>c \<in> set cs. snd c \<le> 20" using count_bound by (auto simp: assms(14))
  moreover have "window_of cs w"
    using take_rep [OF rep] by (auto simp: take_now_def assms(15) case_prod_beta)
  ultimately show ?thesis using assms(13,14) by (simp add: window_of_def)
qed

theorem wire_to_window_witness:
  "\<exists>s'. serial_run bench_events bench_serial = Some s' \<and>
    unat (rw_headcount (fst (radar_window_take 0 (rs_acc (th_radar (sr_th s')))))) = 1"
proof -
  have th0: "th_re streaming = tlv_reset reasm0" "th_phase streaming = Streaming" "100 - th_last streaming < 10000"
    by (simp_all add: streaming_def)
  have inv: "reasm_inv (th_re streaming)" unfolding th0 by (rule inv_reset) (simp add: reasm0_def)
  have sc: "scan (pending (th_re streaming) @ bench_frame @ []) = map (\<lambda>(h, ts). build_frame h ts) [(sample_header, [(315, [4, 0x21])])]"
    using scan_segments [OF bench_ok(1)] by (simp add: th0 segment_bytes_def bench_frame_def)
  obtain th where th: "thread_step (Chunk 100 0 bench_frame) streaming = Some th" "th_phase th = Streaming"
    using chunk_counted [OF inv th0(2,3) sc acc_rep_streaming] by metis
  let ?s = "\<lparr>sr_rx = \<lparr>rx_rb = [], rx_dropped = 0, rx_total = 50\<rparr>, sr_th = th\<rparr>"
  have run: "serial_run bench_events bench_serial = Some ?s"
    using th(1) by (simp add: bench_events_def bench_serial_def ring_buf_put_def poll_def bench_length streaming_def
      del: thread_step.simps)
  have count: "count_of [(315, [4, 0x21])] = (False, 1)" by code_simp
  show ?thesis
    using wire_to_window [OF bench_ok run _ _ _ refl refl] th(2) run by (simp add: count)
qed

section \<open>One lost read\<close>

text \<open>
  Two frames of well-formed TLVs, of 104 and 56 bytes. The second has a timestamp that reads as a
  length once the reassembler takes the second frame for the rest of the first.
\<close>

definition torn_first :: "tlv_header \<times> (u32 \<times> bytes) list" where
  "torn_first = (sample_header, [(306, replicate 20 0), (301, replicate 20 0), (315, [])])"

definition torn_second :: "tlv_header \<times> (u32 \<times> bytes) list" where
  "torn_second = (sample_header\<lparr>h_cpu_cycles := 0xFFFFFFAC\<rparr>, [(306, replicate 8 0)])"

text \<open>What the reassembler then takes for one frame: the first 48 bytes of the first and the second.\<close>

definition torn :: bytes where
  "torn = take 48 (concat (sent [torn_first])) @ concat (sent [torn_second])"

lemma torn_sent:
  "length (concat (sent [torn_first])) = 104" "length (concat (sent [torn_second])) = 56"
  by (simp_all add: torn_first_def torn_second_def)

lemma torn_facts:
  "length torn = 104" "take 8 torn = tlv_magic" "le32_at torn 12 = 104" "le32_at torn 32 = 3"
  "le32_at torn 40 = 306" "le32_at torn 44 = 20" "le32_at torn 68 = 7" "le32_at torn 72 = 0xFFFFFFAC"
  by (simp add: torn_def torn_sent) code_simp+

lemma torn_walk:
  assumes "length m = 2048" and "take (length torn) m = torn"
  shows "types_loop m (le32_at torn 32) (le32_at torn 12) 0 40 = None"
proof -
  have at: "rd_le32 m i = Some (le32_at torn i)" if "i + 4 \<le> 104" for i
    using le32_at_take [of i 104 m] rd_le32_at [of i m] assms that by (simp add: torn_facts)
  have rd: "rd_le32 m 40 = Some 306" "rd_le32 m 44 = Some 20" "rd_le32 m 68 = Some 7" "rd_le32 m 72 = Some 0xFFFFFFAC"
    using at [of 40] at [of 44] at [of 68] at [of 72] by (simp_all only: torn_facts)
  have "types_loop m 3 104 2 0xFFFFFFF8 = None" using assms(1) by (intro walk_out) simp_all
  then have "types_loop m 3 104 1 68 = None" by (subst types_loop.simps) (simp add: rd)
  then have "types_loop m 3 104 0 40 = None" by (subst types_loop.simps) (simp add: rd)
  then show ?thesis by (simp add: torn_facts)
qed

text \<open>One chunk, by what the reassembler makes of it.\<close>

lemma thread_chunk:
  assumes "reasm_inv (th_re th)" and "th_phase th = Streaming" and "u - th_last th < RADAR_STALL_MS"
    and "tlv_feed (th_re th) b = Some (re, fs)"
  shows "thread_step (Chunk u now b) th =
    map_option (\<lambda>(s, l). th\<lparr>th_re := re, th_radar := s, th_last := l\<rparr>)
      (fold_opt (chunk_frame u now) fs (th_radar th, th_last th))"
  using assms(2,3) tlv.drive_handler [OF assms(1) assms(4) [unfolded tlv_feed_def], of "chunk_frame u now"]
  by (simp add: option.map_comp comp_def case_prod_unfold)

text \<open>
  C39: one lost read is enough to send the diagnostic walk out of the frame buffer: there are two
  well-formed frames that are handled when they arrive whole, and of which, when the read with
  the last 56 bytes of the first is lost (as \<open>uart_isr\<close> loses a read that finds the ring full),
  the reassembler makes one torn frame with a correct length on which \<open>on_frame\<close> reads outside
  the buffer.
\<close>

theorem lost_read_walks_out:
  "clean torn_first \<and> clean torn_second \<and> length (drop 48 (concat (sent [torn_first]))) = 56 \<and>
   (\<exists>th. stream_run [(0, now, concat (sent [torn_first, torn_second]))] streaming = Some th) \<and>
   stream_run [(0, now, take 48 (concat (sent [torn_first]))), (0, now, concat (sent [torn_second]))] streaming = None"
proof -
  let ?x = "take 48 (concat (sent [torn_first]))" and ?b = "concat (sent [torn_second])"
  have cl: "clean torn_first" "clean torn_second"
    by (simp_all add: clean_def torn_first_def torn_second_def) code_simp+
  have re0: "th_re streaming = tlv_reset reasm0" "th_phase streaming = Streaming" "th_last streaming = 0"
    by (simp_all add: streaming_def)
  have inv: "reasm_inv (th_re streaming)" unfolding re0 by (rule inv_reset) (simp add: reasm0_def)
  have "scan (pending (th_re streaming) @ concat (map (\<lambda>(u, now, c). c) [(0, now, concat (sent [torn_first, torn_second]))])) =
      map (\<lambda>(h, ts). build_frame h ts) [torn_first, torn_second]"
    using scan_clean [of "[torn_first, torn_second]", OF _ not_in_nil] cl by (simp add: re0 sent_def case_prod_unfold)
  from stream_counted [OF inv re0(2) this acc_rep_streaming]
  have whole: "\<exists>th. stream_run [(0, now, concat (sent [torn_first, torn_second]))] streaming = Some th" by blast
  have t: "torn = ?x @ ?b" by (simp add: torn_def)
  have found: "find_magic ?x = Some ?x" "length ?x = 48" "le32_at ?x 12 = 104"
    using torn_facts(2,3) torn_sent(1) le32_at_append [of 12 ?x ?b]
    by (auto simp: torn_def intro!: find_magic_prefix prefix_take8)
  have none: "scan ?x = []" by (subst scan.simps) (simp add: found Let_def)
  have one: "scan torn = [torn]" using scan_frame [of torn "[]"] torn_facts by simp
  obtain r fs where r: "tlv_feed (th_re streaming) ?x = Some (r, fs)" "reasm_inv r"
    using feed_defined [OF inv] by blast
  have fs: "fs = []" using feed_scan [OF inv r(1)] none by (simp add: re0)
  have st: "thread_step (Chunk 0 now ?x) streaming = Some (streaming\<lparr>th_re := r\<rparr>)"
    by (subst thread_chunk [OF inv re0(2) _ r(1)]) (simp_all add: fs streaming_def)
  obtain r2 gs where g: "tlv_feed r ?b = Some (r2, gs)" "\<forall>g \<in> set gs. frame_ready g"
    using feed_defined [OF r(2)] by blast
  have "map frame_of gs = scan (pending r @ ?b)" using feed_scan [OF r(2) g(1)] by blast
  also have "\<dots> = [torn]" using scan_split [OF inv r, of ?b] fs one t by (simp add: re0)
  finally obtain f where f: "gs = [f]" "frame_of f = torn" "frame_ready f" using g(2) by auto
  have "on_frame 0 now (r_buf f) (th_radar streaming) = None" by (rule on_frame_out [OF f(3,2) torn_walk])
  then have "thread_step (Chunk 0 now ?b) (streaming\<lparr>th_re := r\<rparr>) = None"
    using thread_chunk [of "streaming\<lparr>th_re := r\<rparr>" 0 ?b r2 gs now] r(2) g(1) f(1) re0 by (simp add: chunk_frame_def)
  then have "stream_run [(0, now, ?x), (0, now, ?b)] streaming = None" by (simp add: st re0 del: thread_step.simps)
  then show ?thesis using cl whole torn_sent by simp
qed


end
