(* ===== verification/Ble.thy ===== *)
theory Ble
  imports Frame
begin

text \<open>
  src/src/ble.h and the transfer half of src/src/ble.c: the device id, the control
  characteristic, and the dump thread that streams one frame in notifications. The link (the
  GATT stack, the connection, the store as seen from the dump thread) is a parameter. Proved
  here: what a dump sends is one well-formed frame of the records it read, cut into
  notifications, with no write outside its 244-byte buffer, or a prefix of that frame when
  the link fails; and what a reader makes of it. The advertising window is in Ble_Adv.
\<close>

section \<open>The link\<close>

text \<open>
  What the dump thread calls: the negotiated MTU, one notification (the return value), whether
  \<open>current_conn\<close> is set, sleeping, the bounds of the ring, and \<open>store_get\<close>. Everything may
  change with time, as appends and the connection run beside the dump.
\<close>

record 'e link =
  lk_mtu :: "'e \<Rightarrow> u16"
  lk_notify :: "bytes \<Rightarrow> 'e \<Rightarrow> int \<times> 'e"
  lk_connected :: "'e \<Rightarrow> bool"
  lk_msleep :: "nat \<Rightarrow> 'e \<Rightarrow> 'e"
  lk_bounds :: "'e \<Rightarrow> u32 \<times> u32 \<times> 'e"
  lk_get :: "u32 \<Rightarrow> 'e \<Rightarrow> int \<times> sntl_record \<times> 'e"

section \<open>Device id and control characteristic\<close>

text \<open>
  \<open>hwinfo_get_device_id\<close> returns the number of bytes (or an error) and fills \<open>hw\<close>;
  \<open>snprintf\<close> with \<open>PR%06X\<close> writes the six upper-case hex digits of 24 bits.
\<close>

definition hex_digit :: "u32 \<Rightarrow> u8" where
  "hex_digit d = (if d < 10 then 0x30 + ucast d else 0x41 + (ucast d - 10))"

definition device_id_init :: "int \<Rightarrow> bytes \<Rightarrow> bytes" where
  "device_id_init n hw =
     (let tail = (if n < 3 then 0
                  else push_bit 16 (ucast (hw ! nat (n - 3))) OR push_bit 8 (ucast (hw ! nat (n - 2))) OR
                       ucast (hw ! nat (n - 1))) :: u32;
          v = tail AND 0xFFFFFF
      in [0x50, 0x52] @ map (\<lambda>i. hex_digit (drop_bit (4 * i) v AND 0xF)) [5, 4, 3, 2, 1, 0])"

text \<open>
  The state the callbacks and the dump thread share; \<open>dump_req\<close> is a binary semaphore. The stack
  has one connection object (CONFIG_BT_MAX_CONN is 1), so the pointer \<open>current_conn\<close> is a truth
  value: that object or null.
\<close>

record ble =
  dump_first_seq :: u32
  dump_req :: nat
  notify_enabled :: bool
  current_conn :: bool

abbreviation (input) BT_ATT_ERR_INVALID_OFFSET :: int where "BT_ATT_ERR_INVALID_OFFSET \<equiv> 0x07"
abbreviation (input) BT_ATT_ERR_VALUE_NOT_ALLOWED :: int where "BT_ATT_ERR_VALUE_NOT_ALLOWED \<equiv> 0x13"

definition ctrl_write :: "bytes \<Rightarrow> u16 \<Rightarrow> 'a ble_scheme \<Rightarrow> int \<times> 'a ble_scheme" where
  "ctrl_write buf offset b =
     (if offset \<noteq> 0 then (- BT_ATT_ERR_INVALID_OFFSET, b)
      else case sntl_parse_cmd buf of
             None \<Rightarrow> (- BT_ATT_ERR_VALUE_NOT_ALLOWED, b)
           | Some first_seq \<Rightarrow>
               (int (length buf), b\<lparr>dump_first_seq := first_seq, dump_req := min 1 (dump_req b + 1)\<rparr>))"

definition ccc_changed :: "u16 \<Rightarrow> 'a ble_scheme \<Rightarrow> 'a ble_scheme" where
  "ccc_changed v b = b\<lparr>notify_enabled := (v = 1)\<rparr>"

section \<open>The dump\<close>

partial_function (option) notify_chunk :: "'e link \<Rightarrow> bytes \<Rightarrow> 'e \<Rightarrow> (int \<times> 'e) option" where
  "notify_chunk lk data e =
     (case lk_notify lk data e of (err, e) \<Rightarrow>
        if err = - ENOMEM
        then let e = lk_msleep lk 2 e in
             if \<not> lk_connected lk e then Some (- ENOTCONN, e) else notify_chunk lk data e
        else Some (err, e))"

text \<open>What a dump sends for a record it could not read.\<close>

definition placeholder :: "u32 \<Rightarrow> sntl_record" where
  "placeholder seq =
     \<lparr>rec_seq = seq, rec_ts = 0, rec_headcount = 0, rec_occ_s = 0, rec_dwell_s = 0,
      rec_flags = SNTL_FLAG_SENSOR_FAULT OR SNTL_FLAG_AQ_FAULT, rec_batt = 0,
      rec_pm25 = SNTL_AQ_UNKNOWN_U, rec_pm10 = SNTL_AQ_UNKNOWN_U, rec_temp = SNTL_AQ_UNKNOWN_S,
      rec_rh = SNTL_AQ_UNKNOWN_S, rec_voc = SNTL_AQ_UNKNOWN_S\<rparr>"

text \<open>
  The locals of \<open>dump_run\<close>, with two ghosts: the notifications made, each with its result, and
  the records encoded so far.
\<close>

record dump =
  d_buf :: bytes
  d_fill :: nat
  d_crc :: u16
  d_sent :: "(bytes \<times> int) list"
  d_recs :: "sntl_record list"

definition dump_flush :: "'e link \<Rightarrow> dump \<Rightarrow> 'e \<Rightarrow> (int \<times> dump \<times> 'e) option" where
  "dump_flush lk d e =
     (let data = take (d_fill d) (d_buf d) in
      map_option (\<lambda>(err, e). (err, d\<lparr>d_sent := d_sent d @ [(data, err)], d_fill := 0\<rparr>, e))
        (notify_chunk lk data e))"

text \<open>Encoding a record behind the bytes in the buffer.\<close>

definition dump_put :: "sntl_record \<Rightarrow> dump \<Rightarrow> dump option" where
  "dump_put r d =
     map_option
       (\<lambda>b. d\<lparr>d_buf := b, d_crc := sntl_crc16 (d_crc d) (take SNTL_RECORD_SIZE (drop (d_fill d) b)),
              d_fill := d_fill d + SNTL_RECORD_SIZE, d_recs := d_recs d @ [r]\<rparr>)
       (poke (d_buf d) (d_fill d) (sntl_encode_record r))"

text \<open>The loop over the sequence numbers; the flag is false when a notification failed.\<close>

function dump_loop :: "'e link \<Rightarrow> nat \<Rightarrow> u32 \<Rightarrow> u32 \<Rightarrow> dump \<Rightarrow> 'e \<Rightarrow> (bool \<times> dump \<times> 'e) option" where
  "dump_loop lk chunk stop seq d e =
     (if seq < stop then
        (let (err, r, e) = lk_get lk seq e;
             r = (if err \<noteq> 0 then placeholder seq else r) in
         if d_fill d + SNTL_RECORD_SIZE > chunk
         then (case dump_flush lk d e of None \<Rightarrow> None
               | Some (err, d, e) \<Rightarrow>
                   if err < 0 then Some (False, d, e)
                   else (case dump_put r d of None \<Rightarrow> None | Some d \<Rightarrow> dump_loop lk chunk stop (seq + 1) d e))
         else (case dump_put r d of None \<Rightarrow> None | Some d \<Rightarrow> dump_loop lk chunk stop (seq + 1) d e))
      else Some (True, d, e))"
  by pat_completeness auto
termination
  by (relation "measure (\<lambda>(lk, chunk, stop, seq, d, e). unat stop - unat seq)")
    (auto simp: unat_Suc_word word_nat)

declare dump_loop.simps [simp del]

definition chunk_size :: "u16 \<Rightarrow> nat" where
  "chunk_size mtu =
     (let chunk = (if unat mtu > 3 then unat mtu - 3 else 20) in if chunk > 244 then 244 else chunk)"

definition dump_tail :: "'e link \<Rightarrow> nat \<Rightarrow> dump \<Rightarrow> 'e \<Rightarrow> (bool \<times> dump \<times> 'e) option" where
  "dump_tail lk chunk d e =
     (case (if d_fill d + SNTL_CRC_SIZE > chunk then dump_flush lk d e else Some (0, d, e)) of
        None \<Rightarrow> None
      | Some (err, d, e) \<Rightarrow>
          if err < 0 then Some (False, d, e)
          else (case poke (d_buf d) (d_fill d) [ucast (d_crc d AND 0xFF), ucast (drop_bit 8 (d_crc d))] of
                  None \<Rightarrow> None
                | Some b \<Rightarrow>
                    map_option (\<lambda>(err, d, e). (0 \<le> err, d, e))
                      (dump_flush lk (d\<lparr>d_buf := b, d_fill := d_fill d + SNTL_CRC_SIZE\<rparr>) e)))"

text \<open>The buffer starts with whatever the stack holds.\<close>

definition dump_run ::
  "'e link \<Rightarrow> bytes \<Rightarrow> bytes \<Rightarrow> u32 \<Rightarrow> 'e \<Rightarrow> (bool \<times> dump \<times> 'e) option" where
  "dump_run lk device_id junk first_seq e =
     (let (oldest, nxt, e) = lk_bounds lk e;
          (count, start) = sntl_dump_range first_seq oldest nxt;
          chunk = chunk_size (lk_mtu lk e) in
      case poke junk 0 (sntl_encode_header count device_id) of None \<Rightarrow> None
      | Some b \<Rightarrow>
          let d = \<lparr>d_buf = b, d_fill = SNTL_HEADER_SIZE, d_crc = sntl_crc16 0xFFFF (take SNTL_HEADER_SIZE b),
                   d_sent = [], d_recs = []\<rparr> in
          (case dump_loop lk chunk (start + ucast count) start d e of None \<Rightarrow> None
           | Some (ok, d, e) \<Rightarrow> if \<not> ok then Some (False, d, e) else dump_tail lk chunk d e))"

text \<open>One turn of the dump thread: it waits for a request, and runs it if there is a reader.\<close>

definition dump_turn ::
  "'e link \<Rightarrow> bytes \<Rightarrow> bytes \<Rightarrow> ble \<Rightarrow> 'e \<Rightarrow> ((bool \<times> dump) option \<times> ble \<times> 'e) option" where
  "dump_turn lk device_id junk b e =
     (if dump_req b = 0 then None
      else let b = b\<lparr>dump_req := dump_req b - 1\<rparr> in
           if current_conn b \<and> notify_enabled b
           then map_option (\<lambda>(ok, d, e). (Some (ok, d), b, e)) (dump_run lk device_id junk (dump_first_seq b) e)
           else Some (None, b, e))"


section \<open>The invariant of a dump\<close>

text \<open>The bytes of the frame produced so far: the notifications and what waits in the buffer.\<close>

definition dump_out :: "dump \<Rightarrow> bytes" where
  "dump_out d = concat (map fst (d_sent d)) @ take (d_fill d) (d_buf d)"

definition dump_inv :: "bytes \<Rightarrow> nat \<Rightarrow> dump \<Rightarrow> bool" where
  "dump_inv hdr chunk d \<longleftrightarrow>
     length (d_buf d) = 244 \<and> d_fill d \<le> max 24 chunk \<and>
     dump_out d = hdr @ concat (map sntl_encode_record (d_recs d)) \<and>
     d_crc d = sntl_crc16 0xFFFF (dump_out d) \<and>
     (\<forall>(c, err) \<in> set (d_sent d). length c \<le> max 24 chunk)"

lemma flush_step:
  assumes "dump_flush lk d e = Some (err, d', e')" and "dump_inv hdr chunk d" and "chunk \<le> 244"
  shows "dump_inv hdr chunk d'" and "d_fill d' = 0" and "d_recs d' = d_recs d" and "d_crc d' = d_crc d"
    and "d_buf d' = d_buf d" and "d_sent d' = d_sent d @ [(take (d_fill d) (d_buf d), err)]"
    and "dump_out d' = dump_out d"
proof -
  have d': "d' = d\<lparr>d_sent := d_sent d @ [(take (d_fill d) (d_buf d), err)], d_fill := 0\<rparr>"
    using assms(1) by (auto simp: dump_flush_def Let_def)
  then show o: "dump_out d' = dump_out d" by (simp add: dump_out_def)
  show "dump_inv hdr chunk d'"
    using assms(2) o d' by (auto simp: dump_inv_def)
  show "d_fill d' = 0" "d_recs d' = d_recs d" "d_crc d' = d_crc d" "d_buf d' = d_buf d"
    "d_sent d' = d_sent d @ [(take (d_fill d) (d_buf d), err)]" using d' by simp_all
qed

lemma length_encode [simp]: "length (sntl_encode_record r) = 24"
  by (simp add: sntl_encode_record_def)

lemma put_step:
  assumes "dump_inv hdr chunk d" and "d_fill d + 24 \<le> max 24 chunk" and "chunk \<le> 244"
  obtains d' where "dump_put r d = Some d'" and "dump_inv hdr chunk d'" and "d_recs d' = d_recs d @ [r]"
    and "d_sent d' = d_sent d" and "d_fill d' = d_fill d + 24"
proof -
  have i: "length (d_buf d) = 244" "d_fill d + 24 \<le> 244" using assms by (auto simp: dump_inv_def)
  let ?b = "take (d_fill d) (d_buf d) @ sntl_encode_record r @ drop (d_fill d + 24) (d_buf d)"
  have p: "poke (d_buf d) (d_fill d) (sntl_encode_record r) = Some ?b"
    using i by (simp add: poke_eq)
  let ?d = "d\<lparr>d_buf := ?b, d_crc := sntl_crc16 (d_crc d) (sntl_encode_record r), d_fill := d_fill d + 24,
              d_recs := d_recs d @ [r]\<rparr>"
  have put: "dump_put r d = Some ?d" using p i by (simp add: dump_put_def)
  have "dump_out ?d = dump_out d @ sntl_encode_record r" using i by (simp add: dump_out_def)
  then have "dump_inv hdr chunk ?d"
    using assms(1,2) i by (auto simp: dump_inv_def sntl_crc16_append)
  then show ?thesis using put by (intro that [of ?d]) simp_all
qed

text \<open>One record, whichever way the buffer stands.\<close>

lemma loop_step:
  assumes "seq < stop" and "lk_get lk seq e = (g, r, e1)" and "dump_inv hdr chunk d" and "chunk \<le> 244"
    and "dump_loop lk chunk stop seq d e = Some res"
  obtains (failed) err d1 e2 where "res = (False, d1, e2)" and "err < 0" and "dump_inv hdr chunk d1"
      and "d_recs d1 = d_recs d" and "d_sent d1 = d_sent d @ [(take (d_fill d) (d_buf d), err)]" and "d_fill d1 = 0"
  | (put) d1 e2 where "dump_loop lk chunk stop (seq + 1) d1 e2 = Some res" and "dump_inv hdr chunk d1"
      and "d_recs d1 = d_recs d @ [if g \<noteq> 0 then placeholder seq else r]"
      and "d_sent d1 = d_sent d \<or>
           (\<exists>err \<ge> 0. d_sent d1 = d_sent d @ [(take (d_fill d) (d_buf d), err)])"
proof -
  let ?r = "if g \<noteq> 0 then placeholder seq else r"
  note loop = assms(5) [unfolded dump_loop.simps [of lk chunk stop seq d e]]
  show ?thesis
  proof (cases "d_fill d + 24 > chunk")
    case True
    then obtain err d1 e2 where f: "dump_flush lk d e1 = Some (err, d1, e2)"
      using loop assms(1,2) by (auto split: option.splits prod.splits)
    note fl = flush_step [OF f assms(3,4)]
    show ?thesis
    proof (cases "err < 0")
      case neg: True
      then have "res = (False, d1, e2)" using loop assms(1,2) True f by simp
      then show ?thesis using fl neg by (intro failed) auto
    next
      case False
      obtain d2 where p: "dump_put ?r d1 = Some d2" "dump_inv hdr chunk d2" "d_recs d2 = d_recs d1 @ [?r]"
        "d_sent d2 = d_sent d1"
        using put_step [OF fl(1) _ assms(4), of ?r] fl(2) by auto
      have "dump_loop lk chunk stop (seq + 1) d2 e2 = Some res" using loop assms(1,2) True f False p(1) by simp
      then show ?thesis using p fl False by (intro put [of d2 e2]) auto
    qed
  next
    case False
    obtain d2 where p: "dump_put ?r d = Some d2" "dump_inv hdr chunk d2" "d_recs d2 = d_recs d @ [?r]"
      "d_sent d2 = d_sent d"
      using put_step [OF assms(3) _ assms(4), of ?r] False by auto
    have "dump_loop lk chunk stop (seq + 1) d2 e1 = Some res" using loop assms(1,2) False p(1) by simp
    then show ?thesis using p by (intro put [of d2 e1]) auto
  qed
qed

lemma loop_keeps:
  assumes "dump_inv hdr chunk d" and "chunk \<le> 244" and "dump_loop lk chunk stop seq d e = Some (ok, d', e')"
  shows "dump_inv hdr chunk d'"
  using assms(1,3)
proof (induction "unat stop - unat seq" arbitrary: seq d e rule: less_induct)
  case less
  show ?case
  proof (cases "seq < stop")
    case False
    then have "d' = d" using less.prems(2) by (subst (asm) dump_loop.simps) simp
    then show ?thesis using less.prems(1) by simp
  next
    case True
    obtain g r e1 where g: "lk_get lk seq e = (g, r, e1)" by (metis prod_cases3)
    have dec: "unat stop - unat (seq + 1) < unat stop - unat seq"
      using True unat_Suc_word [OF True] by (simp add: word_nat)
    from True g less.prems(1) assms(2) less.prems(2) show ?thesis
      by (cases rule: loop_step) (use less.hyps [OF dec] in auto)
  qed
qed

text \<open>
  What \<open>store_get\<close> promises: a record it returns has the number asked for (\<open>Store\<close>).
\<close>

definition link_gets :: "'e link \<Rightarrow> bool" where
  "link_gets lk \<longleftrightarrow> (\<forall>seq e g r e'. lk_get lk seq e = (g, r, e') \<longrightarrow> g = 0 \<longrightarrow> rec_seq r = seq)"

lemma placeholder_seq [simp]: "rec_seq (placeholder seq) = seq"
  by (simp add: placeholder_def)

lemma loop_result:
  assumes "link_gets lk" and "dump_inv hdr chunk d" and "chunk \<le> 244" and "seq \<le> stop"
    and "dump_loop lk chunk stop seq d e = Some (ok, d', e')"
  shows "dump_inv hdr chunk d' \<and>
    (\<exists>rs snt. d_recs d' = d_recs d @ rs \<and> d_sent d' = d_sent d @ snt \<and>
       (ok \<longrightarrow> map (unat \<circ> rec_seq) rs = [unat seq ..< unat stop] \<and> (\<forall>x \<in> set snt. 0 \<le> snd x)) \<and>
       (\<not> ok \<longrightarrow> snt \<noteq> [] \<and> snd (last snt) < 0 \<and> d_fill d' = 0 \<and> length rs < unat stop - unat seq))"
  using assms(2,4,5)
proof (induction "unat stop - unat seq" arbitrary: seq d e rule: less_induct)
  case less
  show ?case
  proof (cases "seq < stop")
    case False
    then have "seq = stop" using less.prems(2) by simp
    moreover from this have "ok" "d' = d" using less.prems(3) by (subst (asm) dump_loop.simps, simp)+
    ultimately show ?thesis using less.prems by auto
  next
    case True
    obtain g r e1 where g: "lk_get lk seq e = (g, r, e1)" by (metis prod_cases3)
    have s1: "unat (seq + 1) = Suc (unat seq)" using True by (rule unat_Suc_word)
    have lt: "unat seq < unat stop" using True by (simp add: word_nat)
    from True g less.prems(1) assms(3) less.prems(3) show ?thesis
    proof (cases rule: loop_step)
      case (failed err d1 e2)
      then show ?thesis using lt by (auto intro!: exI [of _ "[]"])
    next
      case (put d1 e2)
      let ?r = "if g \<noteq> 0 then placeholder seq else r"
      have "rec_seq ?r = seq" using assms(1) g by (auto simp: link_gets_def)
      moreover have "seq + 1 \<le> stop" using s1 lt by (simp add: word_nat)
      moreover have "unat stop - unat (seq + 1) < unat stop - unat seq" using s1 lt by simp
      ultimately obtain rs snt where ih: "dump_inv hdr chunk d'" "d_recs d' = d_recs d1 @ rs" "d_sent d' = d_sent d1 @ snt"
        "ok \<longrightarrow> map (unat \<circ> rec_seq) rs = [unat (seq + 1) ..< unat stop] \<and> (\<forall>x \<in> set snt. 0 \<le> snd x)"
        "\<not> ok \<longrightarrow> snt \<noteq> [] \<and> snd (last snt) < 0 \<and> d_fill d' = 0 \<and> length rs < unat stop - unat (seq + 1)"
        using less.hyps [OF _ put(2) _ put(1)] by blast
      obtain s0 where s0: "d_sent d1 = d_sent d @ s0" "\<forall>x \<in> set s0. 0 \<le> snd x"
        using put(4) by (auto intro: that [of "[]"] that [of "[(take (d_fill d) (d_buf d), y)]" for y])
      have "[unat seq ..< unat stop] = unat seq # [unat (seq + 1) ..< unat stop]"
        using lt s1 by (simp add: upt_conv_Cons)
      then show ?thesis
        using ih s0 put(3) \<open>rec_seq ?r = seq\<close> s1
        by (intro conjI exI [of _ "?r # rs"] exI [of _ "s0 @ snt"]) auto
    qed
  qed
qed


lemma le16_low: "[ucast (c AND 0xFF), ucast (drop_bit 8 c)] = le16 (c :: u16)"
proof -
  have "(0xFF :: u16) = mask 8" by (simp add: mask_eq_exp_minus_1)
  then have "(ucast (c AND 0xFF) :: u8) = ucast c"
    by (intro bit_word_eqI) (simp only: bit_simps, auto simp: bit_simps)
  then show ?thesis by (simp add: le16_def)
qed

lemma tail_result:
  assumes "dump_inv hdr chunk d" and "chunk \<le> 244" and "dump_tail lk chunk d e = Some (ok, d', e')"
  shows "d_recs d' = d_recs d \<and> (\<exists>snt. d_sent d' = d_sent d @ snt) \<and>
    prefix (concat (map fst (d_sent d'))) (dump_out d @ le16 (sntl_crc16 0xFFFF (dump_out d))) \<and>
    (\<forall>(c, err) \<in> set (d_sent d'). length c \<le> max 24 chunk) \<and>
    (ok \<longrightarrow> concat (map fst (d_sent d')) = dump_out d @ le16 (sntl_crc16 0xFFFF (dump_out d)))"
proof -
  obtain err d1 e1 where f: "(if d_fill d + 2 > chunk then dump_flush lk d e else Some (0, d, e)) = Some (err, d1, e1)"
    using assms(3) by (auto simp: dump_tail_def split: option.splits)
  have d1: "dump_inv hdr chunk d1" "d_recs d1 = d_recs d" "dump_out d1 = dump_out d"
    "\<exists>snt. d_sent d1 = d_sent d @ snt" "err < 0 \<longrightarrow> d_fill d1 = 0" "0 \<le> err \<longrightarrow> d_fill d1 + 2 \<le> max 24 chunk"
    "prefix (concat (map fst (d_sent d1))) (dump_out d1)"
  proof -
    consider "d_fill d + 2 > chunk" "dump_flush lk d e = Some (err, d1, e1)"
      | "d_fill d + 2 \<le> chunk" "err = 0" "d1 = d"
      using f by (auto split: if_splits)
    then have "dump_inv hdr chunk d1 \<and> d_recs d1 = d_recs d \<and> dump_out d1 = dump_out d \<and>
      (\<exists>snt. d_sent d1 = d_sent d @ snt) \<and> (err < 0 \<longrightarrow> d_fill d1 = 0) \<and> (0 \<le> err \<longrightarrow> d_fill d1 + 2 \<le> max 24 chunk)"
    proof cases
      case 1
      then show ?thesis using flush_step [OF 1(2) assms(1,2)] by auto
    qed (use assms(1) in auto)
    then show "dump_inv hdr chunk d1" "d_recs d1 = d_recs d" "dump_out d1 = dump_out d"
      "\<exists>snt. d_sent d1 = d_sent d @ snt" "err < 0 \<longrightarrow> d_fill d1 = 0" "0 \<le> err \<longrightarrow> d_fill d1 + 2 \<le> max 24 chunk"
      by blast+
    show "prefix (concat (map fst (d_sent d1))) (dump_out d1)" by (simp add: dump_out_def)
  qed
  have crc: "d_crc d1 = sntl_crc16 0xFFFF (dump_out d)" and len: "length (d_buf d1) = 244"
    and chunks: "\<forall>(c, err) \<in> set (d_sent d1). length c \<le> max 24 chunk"
    using d1(1,3) by (auto simp: dump_inv_def)
  show ?thesis
  proof (cases "err < 0")
    case True
    then have "d' = d1" "\<not> ok" using assms(3) f by (auto simp: dump_tail_def)
    then show ?thesis using d1 chunks by (simp add: prefix_prefix)
  next
    case False
    then have fit: "d_fill d1 + 2 \<le> 244" "d_fill d1 + 2 \<le> max 24 chunk" using d1(6) assms(2) by auto
    let ?b = "take (d_fill d1) (d_buf d1) @ le16 (d_crc d1) @ drop (d_fill d1 + 2) (d_buf d1)"
    have "poke (d_buf d1) (d_fill d1) [ucast (d_crc d1 AND 0xFF), ucast (drop_bit 8 (d_crc d1))] = Some ?b"
      unfolding le16_low using fit len by (simp add: poke_eq)
    then obtain err2 where fl: "dump_flush lk (d1\<lparr>d_buf := ?b, d_fill := d_fill d1 + 2\<rparr>) e1 = Some (err2, d', e')"
      and ok: "ok \<longleftrightarrow> 0 \<le> err2"
      using assms(3) f False by (auto simp: dump_tail_def)
    then have d': "d' = d1\<lparr>d_buf := ?b, d_fill := 0,
        d_sent := d_sent d1 @ [(take (d_fill d1) (d_buf d1) @ le16 (d_crc d1), err2)]\<rparr>"
      using fit len by (auto simp: dump_flush_def Let_def)
    then have "concat (map fst (d_sent d')) = dump_out d @ le16 (sntl_crc16 0xFFFF (dump_out d))"
      using d1(3) crc by (simp add: dump_out_def)
    moreover have "length (take (d_fill d1) (d_buf d1) @ le16 (d_crc d1)) \<le> max 24 chunk"
      using fit len by simp
    ultimately show ?thesis using d' d1(2,4) chunks by auto
  qed
qed

lemma run_start:
  assumes "length junk = 244"
  obtains d where "poke junk 0 (sntl_encode_header count dev) = Some (d_buf d)"
    and "d = \<lparr>d_buf = d_buf d, d_fill = 16, d_crc = sntl_crc16 0xFFFF (take 16 (d_buf d)), d_sent = [], d_recs = []\<rparr>"
    and "dump_inv (sntl_encode_header count dev) chunk d"
proof -
  let ?h = "sntl_encode_header count dev"
  have l: "length ?h = 16" by (simp add: encode_header_eq)
  let ?b = "?h @ drop 16 junk"
  let ?d = "\<lparr>d_buf = ?b, d_fill = 16, d_crc = sntl_crc16 0xFFFF (take 16 ?b), d_sent = [], d_recs = []\<rparr>"
  have "dump_inv ?h chunk ?d" using l assms by (simp add: dump_inv_def dump_out_def)
  moreover have "poke junk 0 ?h = Some (d_buf ?d)" using l assms by (simp add: poke_eq)
  ultimately show ?thesis by (intro that [of ?d]) simp_all
qed

lemma run_result:
  assumes "link_gets lk" and "length junk = 244" and "lk_bounds lk e = (oldest, nxt, e0)"
    and "sntl_dump_range first oldest nxt = (count, start)"
    and "dump_run lk dev junk first e = Some (ok, d, e')"
  shows "(\<forall>(c, err) \<in> set (d_sent d). length c \<le> max 24 (chunk_size (lk_mtu lk e0))) \<and>
    (if ok then concat (map fst (d_sent d)) = encode_frame dev (d_recs d) \<and>
                map (unat \<circ> rec_seq) (d_recs d) = [unat start ..< unat start + unat count]
     else \<exists>rs. length rs = unat count \<and> prefix (d_recs d) rs \<and>
                prefix (concat (map fst (d_sent d))) (encode_frame dev rs))"
proof -
  let ?chunk = "chunk_size (lk_mtu lk e0)" and ?hdr = "sntl_encode_header count dev"
  have c244: "?chunk \<le> 244" by (auto simp: chunk_size_def Let_def)
  obtain d0 where d0: "poke junk 0 ?hdr = Some (d_buf d0)"
    "d0 = \<lparr>d_buf = d_buf d0, d_fill = 16, d_crc = sntl_crc16 0xFFFF (take 16 (d_buf d0)), d_sent = [], d_recs = []\<rparr>"
    "dump_inv ?hdr ?chunk d0"
    using run_start [OF assms(2)] by blast
  have e: "d_recs d0 = []" "d_sent d0 = []" by (subst d0(2), simp)+
  note rng = dump_range_end [OF assms(4)]
  have run: "dump_run lk dev junk first e =
      (case dump_loop lk ?chunk (start + ucast count) start d0 e0 of None \<Rightarrow> None
       | Some (ok, d, e) \<Rightarrow> if \<not> ok then Some (False, d, e) else dump_tail lk ?chunk d e)"
    using assms(3,4) d0(1) by (simp add: dump_run_def flip: d0(2)) (simp add: Let_def)
  then obtain ok1 d1 e1 where l: "dump_loop lk ?chunk (start + ucast count) start d0 e0 = Some (ok1, d1, e1)"
    using assms(5) by (auto split: option.splits)
  have "start \<le> start + ucast count" using rng by (simp add: word_nat)
  from loop_result [OF assms(1) d0(3) c244 this l] e rng
  have inv: "dump_inv ?hdr ?chunk d1"
    and good: "ok1 \<Longrightarrow> map (unat \<circ> rec_seq) (d_recs d1) = [unat start ..< unat start + unat count]"
    and bad: "\<not> ok1 \<Longrightarrow> d_fill d1 = 0 \<and> length (d_recs d1) < unat count"
    by auto
  have frame: "encode_frame dev rs = ?hdr @ concat (map sntl_encode_record rs) @
      le16 (sntl_crc16 0xFFFF (?hdr @ concat (map sntl_encode_record rs)))" if "length rs = unat count" for rs
    using that by (simp add: encode_frame_def frame_payload_def)
  show ?thesis
  proof (cases ok1)
    case False
    then have r: "ok = False" "d = d1" using assms(5) run l by auto
    let ?rs = "d_recs d1 @ replicate (unat count - length (d_recs d1)) zero_record"
    have len: "length ?rs = unat count" using bad False by simp
    have "concat (map fst (d_sent d1)) = ?hdr @ concat (map sntl_encode_record (d_recs d1))"
      using inv bad False by (simp add: dump_inv_def dump_out_def)
    then have "prefix (concat (map fst (d_sent d1))) (encode_frame dev ?rs)"
      unfolding frame [OF len] by (simp add: prefix_def)
    then show ?thesis using r len inv by (auto simp: dump_inv_def intro!: exI [of _ ?rs])
  next
    case True
    then have t: "dump_tail lk ?chunk d1 e1 = Some (ok, d, e')" using assms(5) run l by simp
    note tr = tail_result [OF inv c244 t]
    have len: "length (d_recs d1) = unat count"
      using arg_cong [OF good [OF True], of length] by simp
    have "encode_frame dev (d_recs d1) = dump_out d1 @ le16 (sntl_crc16 0xFFFF (dump_out d1))"
      using frame [OF len] inv by (simp add: dump_inv_def)
    then show ?thesis using tr good [OF True] len by auto
  qed
qed


section \<open>A link on the bench\<close>

text \<open>
  A connected reader with the given MTU and a ring from \<open>oldest\<close> to \<open>nxt\<close>: a notification that
  fits is accepted, a longer one is refused with -ENOMEM, as the stack does when no channel
  has a large enough MTU. The state is the list of accepted notifications.
\<close>

definition ring_link :: "u16 \<Rightarrow> u32 \<Rightarrow> u32 \<Rightarrow> (u32 \<Rightarrow> int \<times> sntl_record) \<Rightarrow> bytes list link" where
  "ring_link mtu oldest nxt get =
     \<lparr>lk_mtu = (\<lambda>e. mtu),
      lk_notify = (\<lambda>data e. if length data + 3 > unat mtu then (- ENOMEM, e) else (0, e @ [data])),
      lk_connected = (\<lambda>e. True), lk_msleep = (\<lambda>n e. e), lk_bounds = (\<lambda>e. (oldest, nxt, e)),
      lk_get = (\<lambda>seq e. (fst (get seq), snd (get seq), e))\<rparr>"

definition bench_link :: "u16 \<Rightarrow> u32 \<Rightarrow> u32 \<Rightarrow> bytes list link" where
  "bench_link mtu oldest nxt = ring_link mtu oldest nxt (\<lambda>seq. (0, zero_record\<lparr>rec_seq := seq\<rparr>))"

lemma ring_link_sel [simp]:
  "lk_mtu (ring_link mtu oldest nxt get) e = mtu" "lk_connected (ring_link mtu oldest nxt get) e"
  "lk_msleep (ring_link mtu oldest nxt get) n e = e" "lk_bounds (ring_link mtu oldest nxt get) e = (oldest, nxt, e)"
  "lk_get (ring_link mtu oldest nxt get) seq e = (fst (get seq), snd (get seq), e)"
  "lk_notify (ring_link mtu oldest nxt get) data e =
     (if length data + 3 > unat mtu then (- ENOMEM, e) else (0, e @ [data]))"
  by (simp_all add: ring_link_def)

lemma bench_link_sel [simp]:
  "lk_mtu (bench_link mtu oldest nxt) e = mtu" "lk_connected (bench_link mtu oldest nxt) e"
  "lk_msleep (bench_link mtu oldest nxt) n e = e" "lk_bounds (bench_link mtu oldest nxt) e = (oldest, nxt, e)"
  "lk_get (bench_link mtu oldest nxt) seq e = (0, zero_record\<lparr>rec_seq := seq\<rparr>, e)"
  "lk_notify (bench_link mtu oldest nxt) data e =
     (if length data + 3 > unat mtu then (- ENOMEM, e) else (0, e @ [data]))"
  by (simp_all add: bench_link_def)

lemma bench_gets: "link_gets (bench_link mtu oldest nxt)"
  by (simp add: link_gets_def)

section \<open>Returning\<close>

text \<open>
  A link on which retries end: whenever a notification is refused for want of a buffer, some
  measure of the link has gone down after the sleep (buffers drain, or the reader goes away).
\<close>

definition link_drains :: "'e link \<Rightarrow> ('e \<Rightarrow> nat) \<Rightarrow> bool" where
  "link_drains lk m \<longleftrightarrow>
     (\<forall>data e e'. lk_notify lk data e = (- ENOMEM, e') \<longrightarrow> m (lk_msleep lk 2 e') < m e)"

lemma notify_returns:
  assumes "link_drains lk m"
  shows "\<exists>err e'. notify_chunk lk data e = Some (err, e')"
proof (induction "m e" arbitrary: e rule: less_induct)
  case less
  obtain err e1 where n: "lk_notify lk data e = (err, e1)" by fastforce
  show ?case
  proof (cases "err = - ENOMEM")
    case True
    then have "m (lk_msleep lk 2 e1) < m e" using assms n by (simp add: link_drains_def)
    then show ?thesis using less.hyps n True by (subst notify_chunk.simps) (simp add: Let_def)
  next
    case False
    then show ?thesis using n by (subst notify_chunk.simps) simp
  qed
qed

lemma flush_returns:
  "link_drains lk m \<Longrightarrow> \<exists>err d' e'. dump_flush lk d e = Some (err, d', e')"
  using notify_returns [of lk m "take (d_fill d) (d_buf d)" e] by (auto simp: dump_flush_def Let_def)

lemma Ex_Not [simp]: "Ex Not"
  by (rule exI [of _ False]) simp

lemma loop_returns:
  assumes "link_drains lk m" and "chunk \<le> 244"
  shows "dump_inv hdr chunk d \<Longrightarrow> \<exists>res. dump_loop lk chunk stop seq d e = Some res \<and> dump_inv hdr chunk (fst (snd res))"
proof (induction "unat stop - unat seq" arbitrary: seq d e rule: less_induct)
  case less
  show ?case
  proof (cases "seq < stop")
    case False
    then have "dump_loop lk chunk stop seq d e = Some (True, d, e)" by (subst dump_loop.simps) simp
    then show ?thesis using less.prems by simp
  next
    case True
    obtain g r e1 where g: "lk_get lk seq e = (g, r, e1)" by (metis prod_cases3)
    let ?r = "if g \<noteq> 0 then placeholder seq else r"
    have dec: "unat stop - unat (seq + 1) < unat stop - unat seq"
      using True unat_Suc_word [OF True] by (simp add: word_nat)
    show ?thesis
    proof (cases "d_fill d + 24 > chunk")
      case big: True
      obtain err d1 e2 where f: "dump_flush lk d e1 = Some (err, d1, e2)"
        using flush_returns [OF assms(1)] by blast
      note fl = flush_step [OF f less.prems assms(2)]
      obtain d2 where "dump_put ?r d1 = Some d2" "dump_inv hdr chunk d2"
        using put_step [OF fl(1) _ assms(2), of ?r] fl(2) by auto
      then show ?thesis
        using less.hyps [OF dec, of d2 e2] True g big f fl(1)
        by (subst dump_loop.simps) simp
    next
      case small: False
      obtain d2 where "dump_put ?r d = Some d2" "dump_inv hdr chunk d2"
        using put_step [OF less.prems _ assms(2), of ?r] small by auto
      then show ?thesis
        using less.hyps [OF dec, of d2 e1] True g small by (subst dump_loop.simps) simp
    qed
  qed
qed

lemma tail_returns:
  assumes "link_drains lk m" and "dump_inv hdr chunk d" and "chunk \<le> 244"
  shows "\<exists>res. dump_tail lk chunk d e = Some res"
proof -
  have last: "\<exists>res. map_option (\<lambda>(err, d, e). (0 \<le> err, d, e))
      (dump_flush lk (d1\<lparr>d_buf := b, d_fill := n\<rparr>) e1) = Some res" for d1 b n e1
    using flush_returns [OF assms(1), of "d1\<lparr>d_buf := b, d_fill := n\<rparr>" e1] by auto
  have fits: "\<exists>b. poke (d_buf d1) (d_fill d1) [x, y] = Some b"
    if "length (d_buf d1) = 244" "d_fill d1 + 2 \<le> 244" for d1 x y
    using that by (simp add: poke_eq)
  show ?thesis
  proof (cases "d_fill d + 2 > chunk")
    case True
    obtain err d1 e1 where f: "dump_flush lk d e = Some (err, d1, e1)"
      using flush_returns [OF assms(1)] by blast
    note fl = flush_step [OF f assms(2,3)]
    obtain b where "poke (d_buf d1) (d_fill d1) [ucast (d_crc d1 AND 0xFF), ucast (drop_bit 8 (d_crc d1))] = Some b"
      using fits [of d1] fl(1,2) by (simp add: dump_inv_def) blast
    then show ?thesis using True f last by (simp add: dump_tail_def)
  next
    case False
    obtain b where "poke (d_buf d) (d_fill d) [ucast (d_crc d AND 0xFF), ucast (drop_bit 8 (d_crc d))] = Some b"
    proof -
      have "length (d_buf d) = 244" "d_fill d + 2 \<le> 244" using assms(2,3) False by (auto simp: dump_inv_def)
      from fits [OF this] show ?thesis using that by blast
    qed
    then show ?thesis using False last by (simp add: dump_tail_def)
  qed
qed


lemma run_returns:
  assumes "link_drains lk m" and "length junk = 244"
  shows "\<exists>res. dump_run lk dev junk first e = Some res"
proof -
  obtain oldest nxt e0 where b: "lk_bounds lk e = (oldest, nxt, e0)" by (metis prod_cases3)
  obtain count start where r: "sntl_dump_range first oldest nxt = (count, start)" by fastforce
  let ?chunk = "chunk_size (lk_mtu lk e0)"
  have c244: "?chunk \<le> 244" by (auto simp: chunk_size_def Let_def)
  obtain d0 where d0: "poke junk 0 (sntl_encode_header count dev) = Some (d_buf d0)"
    "d0 = \<lparr>d_buf = d_buf d0, d_fill = 16, d_crc = sntl_crc16 0xFFFF (take 16 (d_buf d0)), d_sent = [], d_recs = []\<rparr>"
    "dump_inv (sntl_encode_header count dev) ?chunk d0"
    using run_start [OF assms(2)] by blast
  obtain ok d e1 where l: "dump_loop lk ?chunk (start + ucast count) start d0 e0 = Some (ok, d, e1)"
    and inv: "dump_inv (sntl_encode_header count dev) ?chunk d"
    using loop_returns [OF assms(1) c244 d0(3)] by (metis prod_cases3 fst_conv snd_conv)
  have "dump_run lk dev junk first e = (if \<not> ok then Some (False, d, e1) else dump_tail lk ?chunk d e1)"
    using b r d0(1) l by (simp add: dump_run_def flip: d0(2))
  then show ?thesis using tail_returns [OF assms(1) inv c244, of e1] by auto
qed

text \<open>
  What the dump encodes for each number, when each \<open>store_get\<close> answers in line with \<open>Q\<close>.
\<close>

definition reads_by :: "'e link \<Rightarrow> (u32 \<Rightarrow> sntl_record \<Rightarrow> bool) \<Rightarrow> bool" where
  "reads_by lk Q \<longleftrightarrow>
     (\<forall>seq e. \<exists>g r e'. lk_get lk seq e = (g, r, e') \<and> Q seq (if g \<noteq> 0 then placeholder seq else r))"

lemma loop_reads:
  assumes "reads_by lk Q" and "dump_inv hdr chunk d" and "chunk \<le> 244"
    and "dump_loop lk chunk stop seq d e = Some (ok, d', e')" and ok
  shows "\<exists>rs. d_recs d' = d_recs d @ rs \<and> list_all2 (\<lambda>k. Q (of_nat k)) [unat seq ..< unat stop] rs"
  using assms(2,4)
proof (induction "unat stop - unat seq" arbitrary: seq d e rule: less_induct)
  case less
  show ?case
  proof (cases "seq < stop")
    case False
    then have "d' = d" using less.prems(2) by (subst (asm) dump_loop.simps) simp
    moreover have "unat stop \<le> unat seq" using False by (simp add: word_nat)
    ultimately show ?thesis by simp
  next
    case True
    obtain g r e1 where g: "lk_get lk seq e = (g, r, e1)" and h: "Q seq (if g \<noteq> 0 then placeholder seq else r)"
      using assms(1) unfolding reads_by_def by blast
    have s1: "unat (seq + 1) = Suc (unat seq)" using True by (rule unat_Suc_word)
    have lt: "unat seq < unat stop" using True by (simp add: word_nat)
    from True g less.prems(1) assms(3) less.prems(2) show ?thesis
    proof (cases rule: loop_step)
      case (failed err d1 e2)
      then show ?thesis using assms(5) by simp
    next
      case (put d1 e2)
      have "unat stop - unat (seq + 1) < unat stop - unat seq" using s1 lt by simp
      from less.hyps [OF this put(2) put(1)] obtain rs where
        rs: "d_recs d' = d_recs d1 @ rs" "list_all2 (\<lambda>k. Q (of_nat k)) [Suc (unat seq) ..< unat stop] rs"
        using s1 by auto
      have "[unat seq ..< unat stop] = unat seq # [Suc (unat seq) ..< unat stop]"
        using lt by (rule upt_conv_Cons)
      moreover have "(of_nat (unat seq) :: u32) = seq" by simp
      ultimately have "list_all2 (\<lambda>k. Q (of_nat k)) [unat seq ..< unat stop] ((if g \<noteq> 0 then placeholder seq else r) # rs)"
        using rs(2) h by (simp only: list_all2_Cons)
      then show ?thesis using rs(1) put(3) by (auto intro: exI [of _ "(if g \<noteq> 0 then placeholder seq else r) # rs"])
    qed
  qed
qed

lemma run_reads:
  assumes "reads_by lk Q" and "length junk = 244"
    and "lk_bounds lk e = (oldest, nxt, e0)" and "sntl_dump_range first oldest nxt = (count, start)"
    and "dump_run lk dev junk first e = Some (True, d, e')"
  shows "list_all2 (\<lambda>k. Q (of_nat k)) [unat start ..< unat start + unat count] (d_recs d)"
proof -
  let ?chunk = "chunk_size (lk_mtu lk e0)"
  have c244: "?chunk \<le> 244" by (auto simp: chunk_size_def Let_def)
  obtain d0 where d0: "poke junk 0 (sntl_encode_header count dev) = Some (d_buf d0)"
    "d0 = \<lparr>d_buf = d_buf d0, d_fill = 16, d_crc = sntl_crc16 0xFFFF (take 16 (d_buf d0)), d_sent = [], d_recs = []\<rparr>"
    "dump_inv (sntl_encode_header count dev) ?chunk d0"
    using run_start [OF assms(2)] by blast
  have e: "d_recs d0 = []" by (subst d0(2), simp)
  have run: "dump_run lk dev junk first e =
      (case dump_loop lk ?chunk (start + ucast count) start d0 e0 of None \<Rightarrow> None
       | Some (ok, d, e) \<Rightarrow> if \<not> ok then Some (False, d, e) else dump_tail lk ?chunk d e)"
    using assms(3,4) d0(1) by (simp add: dump_run_def flip: d0(2)) (simp add: Let_def)
  then obtain d1 e1 where l: "dump_loop lk ?chunk (start + ucast count) start d0 e0 = Some (True, d1, e1)"
    and t: "dump_tail lk ?chunk d1 e1 = Some (True, d, e')"
    using assms(5) by (auto split: option.splits if_splits)
  have inv: "dump_inv (sntl_encode_header count dev) ?chunk d1"
    by (rule loop_keeps [OF d0(3) c244 l])
  show ?thesis
    using loop_reads [OF assms(1) d0(3) c244 l TrueI] tail_result [OF inv c244 t] e dump_range_end [OF assms(4)]
    by (simp del: upt.simps)
qed


section \<open>What ble.c promises\<close>

lemma run_decodes:
  assumes "link_gets lk" and "length junk = 244" and "lk_bounds lk e = (oldest, nxt, e0)"
    and "sntl_dump_range first oldest nxt = (count, start)"
    and "dump_run lk dev junk first e = Some (True, d, e')"
  shows "decode_frame (concat (map fst (d_sent d))) = Some (copy_id SNTL_DEVICE_ID_LEN dev, d_recs d) \<and>
    map (unat \<circ> rec_seq) (d_recs d) = [unat start ..< unat start + unat count]"
proof -
  have r: "concat (map fst (d_sent d)) = encode_frame dev (d_recs d)"
    "map (unat \<circ> rec_seq) (d_recs d) = [unat start ..< unat start + unat count]"
    using run_result [OF assms] by simp_all
  have "length (d_recs d) = unat count" using arg_cong [OF r(2), of length] by simp
  then have "length (d_recs d) < 65536" using unsigned_less [where ?'a = nat, of count] by simp
  from frame_decodes [OF this] show ?thesis using r by simp
qed

text \<open>
  C8: a dump sends one frame: when it ends well, the notifications put together are a frame that
  a checking reader accepts, with the device id and as many records as its header says,
  numbered consecutively over exactly the range asked for; when a notification fails, what was
  sent is a prefix of such a frame, so a reader never takes it for a complete one of other
  content.
\<close>

theorem dump_sends_frame:
  assumes "link_gets lk" and "length junk = 244" and "lk_bounds lk e = (oldest, nxt, e0)"
    and "sntl_dump_range first oldest nxt = (count, start)"
    and "dump_run lk dev junk first e = Some (ok, d, e')"
  shows "if ok then decode_frame (concat (map fst (d_sent d))) = Some (copy_id SNTL_DEVICE_ID_LEN dev, d_recs d) \<and>
                map (unat \<circ> rec_seq) (d_recs d) = [unat start ..< unat start + unat count]
         else \<exists>rs. length rs = unat count \<and> prefix (d_recs d) rs \<and>
                prefix (concat (map fst (d_sent d))) (encode_frame dev rs)"
proof (cases ok)
  case True
  then show ?thesis using run_decodes [OF assms(1-4), of dev d e'] assms(5) by simp
next
  case False
  then show ?thesis using run_result [OF assms] by simp
qed

text \<open>A dump of the one record of a ring that holds one number only.\<close>

lemma ring_notify:
  "length data + 3 \<le> unat mtu \<Longrightarrow> notify_chunk (ring_link mtu oldest nxt get) data e = Some (0, e @ [data])"
  by (subst notify_chunk.simps) simp

lemma ring_run:
  assumes "n < n + 1" and "sntl_dump_range 0 n (n + 1) = (1, n)"
  obtains d e' where "dump_run (ring_link 247 n (n + 1) get) dev (replicate 244 0xAA) 0 [] = Some (True, d, e')"
    and "d_recs d = [if fst (get n) \<noteq> 0 then placeholder n else snd (get n)]"
proof -
  let ?lk = "ring_link 247 n (n + 1) get" and ?junk = "replicate 244 0xAA :: bytes"
    and ?r = "if fst (get n) \<noteq> 0 then placeholder n else snd (get n)"
  have lj: "length ?junk = 244" by simp
  obtain d0 where d0: "poke ?junk 0 (sntl_encode_header 1 dev) = Some (d_buf d0)"
    "d0 = \<lparr>d_buf = d_buf d0, d_fill = 16, d_crc = sntl_crc16 0xFFFF (take 16 (d_buf d0)), d_sent = [], d_recs = []\<rparr>"
    "dump_inv (sntl_encode_header 1 dev) 244 d0"
    using run_start [OF lj, of 1 dev 244] by metis
  have f0: "d_fill d0 = 16" "d_recs d0 = []" by (subst d0(2), simp)+
  obtain d1 where d1: "dump_put ?r d0 = Some d1" "dump_inv (sntl_encode_header 1 dev) 244 d1"
    "d_recs d1 = [?r]" "d_fill d1 = 40"
    using put_step [OF d0(3), of ?r] f0 by auto
  have second: "dump_loop ?lk 244 (n + 1) (n + 1) d1 [] = Some (True, d1, [])" by (subst dump_loop.simps) simp
  have loop: "dump_loop ?lk 244 (n + 1) n d0 [] = Some (True, d1, [])"
    using d1(1) second f0 assms(1) by (subst dump_loop.simps) (cases "fst (get n) = 0"; simp add: Let_def)
  have len: "length (d_buf d1) = 244" using d1(2) by (simp add: dump_inv_def)
  then obtain d2 e2 where "dump_tail ?lk 244 d1 [] = Some (True, d2, e2)" "d_recs d2 = d_recs d1"
    using d1(4) by (simp add: dump_tail_def poke_eq dump_flush_def Let_def ring_notify)
  moreover have "dump_run ?lk dev ?junk 0 [] = dump_tail ?lk 244 d1 []"
    using assms(2) d0(1) loop by (simp add: dump_run_def chunk_size_def flip: d0(2))
  ultimately show ?thesis using d1(3) by (intro that [of d2 e2]) simp_all
qed

lemma bench_run:
  obtains d e' where "dump_run (bench_link 247 5 6) dev (replicate 244 0xAA) 0 [] = Some (True, d, e')"
    and "d_recs d = [zero_record\<lparr>rec_seq := 5\<rparr>]"
proof -
  have "sntl_dump_range 0 5 (5 + 1) = (1, 5)" by (simp add: sntl_dump_range_def)
  from ring_run [OF _ this, of "\<lambda>seq. (0, zero_record\<lparr>rec_seq := seq\<rparr>)" dev] that show thesis
    by (simp add: bench_link_def) blast
qed

theorem dump_sends_frame_witness:
  "\<exists>d e'. dump_run (bench_link 247 5 6) [0x50, 0x52] (replicate 244 0xAA) 0 [] = Some (True, d, e') \<and>
     decode_frame (concat (map fst (d_sent d))) = Some ([0x50, 0x52] @ replicate 6 0, [zero_record\<lparr>rec_seq := 5\<rparr>])"
proof -
  obtain d e' where r: "dump_run (bench_link 247 5 6) [0x50, 0x52] (replicate 244 0xAA) 0 [] = Some (True, d, e')"
    "d_recs d = [zero_record\<lparr>rec_seq := 5\<rparr>]" by (rule bench_run)
  have "sntl_dump_range 0 5 6 = (1, 5)" by (simp add: sntl_dump_range_def)
  from dump_sends_frame [OF bench_gets _ _ this r(1)] r show ?thesis by auto
qed

text \<open>
  C28: a dump neither overruns its buffer nor hangs: on a link whose refusals for want of buffers
  end sooner or later, it returns, with every write inside the 244 bytes, for every MTU, every
  range and every behaviour of the store.
\<close>

theorem dump_returns:
  assumes "link_drains lk m" and "length junk = 244"
  shows "\<exists>ok d e'. dump_run lk dev junk first e = Some (ok, d, e')"
  using run_returns [OF assms] by simp

definition busy_link :: "nat link" where
  "busy_link =
     \<lparr>lk_mtu = (\<lambda>e. 23), lk_notify = (\<lambda>data e. if e = 0 then (0, 3) else (- ENOMEM, e)),
      lk_connected = (\<lambda>e. True), lk_msleep = (\<lambda>n e. e - 1), lk_bounds = (\<lambda>e. (0, 9, e)),
      lk_get = (\<lambda>seq e. (- ENOENT, zero_record, e))\<rparr>"

theorem dump_returns_witness:
  "\<exists>ok d e'. dump_run busy_link [0x50] (replicate 244 0) 0 3 = Some (ok, d, e')"
proof (rule dump_returns)
  show "link_drains busy_link (\<lambda>e. e)" by (simp add: link_drains_def busy_link_def)
qed simp

text \<open>
  With an MTU of at least 27 every notification of a dump fits the MTU (at most MTU - 3 bytes,
  and at most 244).
\<close>

theorem dump_fits_mtu:
  assumes "link_gets lk" and "length junk = 244" and "lk_bounds lk e = (oldest, nxt, e0)"
    and "27 \<le> unat (lk_mtu lk e0)" and "dump_run lk dev junk first e = Some (ok, d, e')"
  shows "\<forall>(c, err) \<in> set (d_sent d). length c + 3 \<le> unat (lk_mtu lk e0) \<and> length c \<le> 244"
proof -
  obtain count start where "sntl_dump_range first oldest nxt = (count, start)" by fastforce
  from run_result [OF assms(1-3) this assms(5)]
  have "\<forall>(c, err) \<in> set (d_sent d). length c \<le> max 24 (chunk_size (lk_mtu lk e0))" by blast
  moreover have "max 24 (chunk_size (lk_mtu lk e0)) + 3 \<le> unat (lk_mtu lk e0)" "max 24 (chunk_size (lk_mtu lk e0)) \<le> 244"
    using assms(4) by (auto simp: chunk_size_def Let_def)
  ultimately show ?thesis by fastforce
qed

theorem dump_fits_mtu_witness:
  "\<exists>d e'. dump_run (bench_link 247 5 6) [0x50, 0x52] (replicate 244 0xAA) 0 [] = Some (True, d, e') \<and>
     list_all (\<lambda>(c, err). length c \<le> 244) (d_sent d)"
proof -
  obtain d e' where r: "dump_run (bench_link 247 5 6) [0x50, 0x52] (replicate 244 0xAA) 0 [] = Some (True, d, e')"
    by (rule bench_run)
  from dump_fits_mtu [OF bench_gets _ _ _ r] r show ?thesis by (auto simp: list_all_iff)
qed

lemma notify_refused:
  assumes "notify_chunk lk data e = Some x"
  shows "\<not> ((\<forall>e. fst (lk_notify lk data e) = - ENOMEM) \<and> (\<forall>e. lk_connected lk e))"
  by (rule notify_chunk.raw_induct [OF _ assms,
        where P = "\<lambda>lk data e x. \<not> ((\<forall>e. fst (lk_notify lk data e) = - ENOMEM) \<and> (\<forall>e. lk_connected lk e))"])
    (auto simp: Let_def split: prod.splits if_splits, metis fst_conv)

lemma notify_stuck:
  assumes "\<And>e. fst (lk_notify lk data e) = - ENOMEM" and "\<And>e. lk_connected lk e"
  shows "notify_chunk lk data e = None"
  using notify_refused [of lk data e] assms by (cases "notify_chunk lk data e") auto

definition refuses_long :: "'e link \<Rightarrow> nat \<Rightarrow> bool" where
  "refuses_long lk mtu \<longleftrightarrow> (\<forall>e. lk_mtu lk e = of_nat mtu \<and> lk_connected lk e) \<and>
     (\<forall>data e. if length data + 3 \<le> mtu then 0 \<le> fst (lk_notify lk data e)
               else fst (lk_notify lk data e) = - ENOMEM)"

lemma flush_refused:
  assumes "refuses_long lk mtu" and "mtu < d_fill d + 3" and "d_fill d \<le> length (d_buf d)"
  shows "dump_flush lk d e = None"
proof -
  have "notify_chunk lk (take (d_fill d) (d_buf d)) e = None"
    using assms by (intro notify_stuck) (simp_all add: refuses_long_def)
  then show ?thesis by (simp add: dump_flush_def)
qed

lemma full_record_stuck:
  assumes "refuses_long lk mtu" and "23 \<le> mtu" and "mtu \<le> 26" and "d_fill d = 24" and "length (d_buf d) = 244"
  shows "seq < stop \<Longrightarrow> dump_loop lk (mtu - 3) stop seq d e = None"
    and "dump_tail lk (mtu - 3) d e = None"
proof -
  have f: "dump_flush lk d e = None" for e
    using assms by (intro flush_refused [OF assms(1)]) simp_all
  show "dump_loop lk (mtu - 3) stop seq d e = None" if "seq < stop"
  proof -
    have "mtu - 3 < 48" using assms(3) by simp
    then show ?thesis
      using that assms(4) f by (subst dump_loop.simps) (simp add: Let_def split: prod.split)
  qed
  have "mtu - 3 < 26" using assms(2,3) by linarith
  then show "dump_tail lk (mtu - 3) d e = None" using assms(4) f by (simp add: dump_tail_def)
qed

text \<open>A short header goes out; the first record behind it does not.\<close>

lemma header_goes_out:
  assumes "refuses_long lk mtu" and "19 \<le> mtu" and "d_fill d = 16" and "dump_flush lk d e = Some (err, d', e')"
  shows "0 \<le> err"
proof -
  have l: "length (take 16 (d_buf d)) + 3 \<le> mtu" using assms(2) by simp
  obtain er e3 where n: "lk_notify lk (take 16 (d_buf d)) e = (er, e3)" by fastforce
  then have er: "0 \<le> er" using assms(1) l unfolding refuses_long_def by (metis fst_conv)
  then have "notify_chunk lk (take 16 (d_buf d)) e = Some (er, e3)"
    using n by (subst notify_chunk.simps) simp
  then show ?thesis using assms(3,4) er by (simp add: dump_flush_def)
qed

lemma stuck_after_header:
  assumes "refuses_long lk mtu" and "23 \<le> mtu" and "mtu \<le> 26" and "d_fill d = 16"
    and inv: "dump_inv hdr (mtu - 3) d" and "seq < stop"
  shows "(case dump_loop lk (mtu - 3) stop seq d e of None \<Rightarrow> None
          | Some (ok, d, e) \<Rightarrow> if \<not> ok then Some (False, d, e) else dump_tail lk (mtu - 3) d e) = None"
proof -
  have c: "mtu - 3 \<le> 244" "mtu - 3 < 40" using assms(3) by simp_all
  obtain g r e1 where g: "lk_get lk seq e = (g, r, e1)" by (metis prod_cases3)
  let ?r = "if g \<noteq> 0 then placeholder seq else r"
  show ?thesis
  proof (cases "dump_flush lk d e1")
    case None
    then show ?thesis using assms(4,6) g c(2) by (subst dump_loop.simps) (simp add: Let_def)
  next
    case (Some x)
    then obtain err d1 e2 where f: "dump_flush lk d e1 = Some (err, d1, e2)" by (cases x) auto
    have "19 \<le> mtu" using assms(2) by simp
    from header_goes_out [OF assms(1) this assms(4) f] have err: "0 \<le> err" .
    note fl = flush_step [OF f inv c(1)]
    obtain d2 where p: "dump_put ?r d1 = Some d2" "dump_inv hdr (mtu - 3) d2" "d_fill d2 = 24"
      using put_step [OF fl(1) _ c(1), of ?r] fl(2) by auto
    have "length (d_buf d2) = 244" using p(2) by (simp add: dump_inv_def)
    note stuck = full_record_stuck [OF assms(1-3) p(3) this]
    have loop: "dump_loop lk (mtu - 3) stop seq d e = dump_loop lk (mtu - 3) stop (seq + 1) d2 e2"
      using assms(4,6) g c(2) f err p(1) by (subst dump_loop.simps) (cases "g = 0"; simp add: Let_def)
    show ?thesis
    proof (cases "seq + 1 < stop")
      case False
      then have "dump_loop lk (mtu - 3) stop (seq + 1) d2 e2 = Some (True, d2, e2)"
        by (subst dump_loop.simps) simp
      then show ?thesis using loop stuck(2) by simp
    qed (use loop stuck(1) in simp)
  qed
qed

text \<open>
  C37: with an MTU of 23 to 26 a dump of at least one record never returns while the reader stays:
  the 24 bytes of a record are one notification, longer than the MTU allows, the stack
  refuses it with -ENOMEM each time, and the retry loop takes that for a full buffer.
\<close>

theorem small_mtu_never_ends:
  assumes "refuses_long lk mtu" and "23 \<le> mtu" and "mtu \<le> 26" and "length junk = 244"
    and "lk_bounds lk e = (oldest, nxt, e0)" and "sntl_dump_range first oldest nxt = (count, start)" and "0 < count"
  shows "dump_run lk dev junk first e = None"
proof -
  have chunk: "chunk_size (lk_mtu lk e0) = mtu - 3"
  proof -
    have "unat (of_nat mtu :: u16) = mtu" using assms(3) by (intro unat_of_nat_small) simp
    then show ?thesis using assms(1-3) by (simp add: refuses_long_def chunk_size_def Let_def)
  qed
  obtain d0 where d0: "poke junk 0 (sntl_encode_header count dev) = Some (d_buf d0)"
    "d0 = \<lparr>d_buf = d_buf d0, d_fill = 16, d_crc = sntl_crc16 0xFFFF (take 16 (d_buf d0)), d_sent = [], d_recs = []\<rparr>"
    "dump_inv (sntl_encode_header count dev) (mtu - 3) d0"
    using run_start [OF assms(4)] by metis
  have f0: "d_fill d0 = 16" by (subst d0(2), simp)
  have rng: "start < start + ucast count"
    using dump_range_end [OF assms(6)] assms(7) by (simp add: word_nat)
  have "dump_run lk dev junk first e =
      (case dump_loop lk (mtu - 3) (start + ucast count) start d0 e0 of None \<Rightarrow> None
       | Some (ok, d, e) \<Rightarrow> if \<not> ok then Some (False, d, e) else dump_tail lk (mtu - 3) d e)"
    using assms(5,6) d0(1) chunk by (simp add: dump_run_def flip: d0(2)) (simp add: Let_def)
  then show ?thesis using stuck_after_header [OF assms(1-3) f0 d0(3) rng] by simp
qed

theorem small_mtu_never_ends_witness:
  "dump_run (bench_link 23 5 6) [0x50, 0x52] (replicate 244 0xAA) 0 [] = None"
proof (rule small_mtu_never_ends)
  show "refuses_long (bench_link 23 5 6) 23" by (simp add: refuses_long_def)
  show "sntl_dump_range 0 5 6 = (1, 5)" by (simp add: sntl_dump_range_def)
qed simp_all

section \<open>The device id and the requests\<close>

text \<open>The two hex digits of a byte.\<close>

definition hex2 :: "u8 \<Rightarrow> bytes" where
  "hex2 b = map hex_digit [ucast (drop_bit 4 b), ucast (b AND 0xF)]"

lemma hex_digit_nonzero: "d < 16 \<Longrightarrow> hex_digit d \<noteq> 0"
proof -
  assume d: "d < 16"
  then have "unat d < 16" by (simp add: word_nat)
  then have "d \<in> set (map of_nat [0..<16])" by (auto intro: image_eqI [of _ _ "unat d"])
  then have "d \<in> {0,1,2,3,4,5,6,7,8,9,10,11,12,13,14,15}" by (simp add: upt_rec numeral_eq_Suc)
  then show ?thesis by (auto simp: hex_digit_def)
qed

lemma nibble_lt: "(x AND 0xF :: u32) < 16"
proof -
  have "(x AND 0xF :: u32) \<le> 0xF" by (rule word_and_le1)
  then show ?thesis by (simp add: word_nat)
qed

lemma nibbles:
  fixes a b c :: u8
  defines "v \<equiv> (push_bit 16 (ucast a) OR push_bit 8 (ucast b) OR ucast c) AND 0xFFFFFF :: u32"
  shows "drop_bit 20 v AND 0xF = ucast (drop_bit 4 a)" "drop_bit 16 v AND 0xF = ucast (a AND 0xF)"
    "drop_bit 12 v AND 0xF = ucast (drop_bit 4 b)" "drop_bit 8 v AND 0xF = ucast (b AND 0xF)"
    "drop_bit 4 v AND 0xF = ucast (drop_bit 4 c)" "v AND 0xF = ucast (c AND 0xF)"
proof -
  have m: "(0xF :: u32) = mask 4" "(0xF :: u8) = mask 4" "(0xFFFFFF :: u32) = mask 24"
    by (simp_all add: mask_eq_exp_minus_1)
  show "drop_bit 20 v AND 0xF = ucast (drop_bit 4 a)" "drop_bit 16 v AND 0xF = ucast (a AND 0xF)"
    "drop_bit 12 v AND 0xF = ucast (drop_bit 4 b)" "drop_bit 8 v AND 0xF = ucast (b AND 0xF)"
    "drop_bit 4 v AND 0xF = ucast (drop_bit 4 c)" "v AND 0xF = ucast (c AND 0xF)"
    unfolding v_def m by (intro bit_word_eqI; simp only: bit_simps; auto simp: bit_simps dest: bit_imp_le_length)+
qed

text \<open>
  The device id is always \<open>PR\<close> and the six hex digits of the last three bytes of the hardware
  id (zeros when it has fewer than three): eight bytes, none of them 0, so the copy in a
  frame's header is the id itself, neither truncated nor padded.
\<close>

theorem device_id_exact:
  shows "device_id_init n hw =
      [0x50, 0x52] @ concat (map hex2 (if n < 3 then [0, 0, 0] else [hw ! nat (n - 3), hw ! nat (n - 2), hw ! nat (n - 1)])) \<and>
    length (device_id_init n hw) = SNTL_DEVICE_ID_LEN \<and>
    copy_id SNTL_DEVICE_ID_LEN (device_id_init n hw) = device_id_init n hw"
proof -
  let ?v = "(if n < 3 then 0 else push_bit 16 (ucast (hw ! nat (n - 3))) OR push_bit 8 (ucast (hw ! nat (n - 2))) OR
                       ucast (hw ! nat (n - 1))) AND 0xFFFFFF :: u32"
  have id: "device_id_init n hw = [0x50, 0x52] @ map (\<lambda>i. hex_digit (drop_bit (4 * i) ?v AND 0xF)) [5, 4, 3, 2, 1, 0]"
    by (simp only: device_id_init_def Let_def)
  have "\<forall>x \<in> set (device_id_init n hw). x \<noteq> 0"
    unfolding id using hex_digit_nonzero [OF nibble_lt] by auto
  moreover have len: "length (device_id_init n hw) = 8" unfolding id by simp
  ultimately have "copy_id SNTL_DEVICE_ID_LEN (device_id_init n hw) = device_id_init n hw"
    by (intro copy_id_full) auto
  moreover have "device_id_init n hw = [0x50, 0x52] @
      concat (map hex2 (if n < 3 then [0, 0, 0] else [hw ! nat (n - 3), hw ! nat (n - 2), hw ! nat (n - 1)]))"
  proof (cases "n < 3")
    case True
    then show ?thesis unfolding id by (simp add: hex2_def)
  next
    case False
    obtain v where v: "(push_bit 16 (ucast (hw ! nat (n - 3))) OR push_bit 8 (ucast (hw ! nat (n - 2))) OR
        ucast (hw ! nat (n - 1))) AND 0xFFFFFF = (v :: u32)" by blast
    note nb = nibbles [of "hw ! nat (n - 3)" "hw ! nat (n - 2)" "hw ! nat (n - 1)", unfolded v]
    have "device_id_init n hw = [0x50, 0x52] @ map (\<lambda>i. hex_digit (drop_bit (4 * i) v AND 0xF)) [5, 4, 3, 2, 1, 0]"
      unfolding id v [symmetric] using False by (simp only: if_False)
    then show ?thesis using False nb by (simp add: hex2_def)
  qed
  ultimately show ?thesis using len by blast
qed

text \<open>The control writes that were accepted.\<close>

definition accepted :: "(bytes \<times> u16) list \<Rightarrow> u32 list" where
  "accepted ws = List.map_filter (\<lambda>(buf, offset). if offset = 0 then sntl_parse_cmd buf else None) ws"

text \<open>
  Requests coalesce: after any sequence of control writes the dump thread has one request if
  any write was accepted, for the number of the last accepted one; a rejected write (an
  offset, another length, another command) changes nothing and returns an error.
\<close>

theorem last_request_wins:
  fixes b :: ble and ws :: "(bytes \<times> u16) list"
  assumes "dump_req b \<le> 1"
  defines "b' \<equiv> fold (\<lambda>(buf, offset) b. snd (ctrl_write buf offset b)) ws b"
  shows "dump_first_seq b' = last (dump_first_seq b # accepted ws) \<and>
    dump_req b' = (if accepted ws = [] then dump_req b else 1) \<and>
    (\<forall>buf offset. fst (ctrl_write buf offset b) < 0 \<longleftrightarrow> accepted [(buf, offset)] = [])"
proof -
  have b': "dump_first_seq b' = last (dump_first_seq b # accepted ws) \<and> dump_req b' = (if accepted ws = [] then dump_req b else 1)"
    using assms(1) unfolding b'_def
    by (induction ws arbitrary: b) (auto simp: accepted_def ctrl_write_def map_filter_simps split: option.splits)
  have "fst (ctrl_write buf offset b) < 0 \<longleftrightarrow> accepted [(buf, offset)] = []" for buf offset
    by (auto simp: accepted_def ctrl_write_def map_filter_simps split: option.splits)
  then show ?thesis using b' by blast
qed

theorem last_request_wins_witness:
  "dump_first_seq (fold (\<lambda>(buf, offset) b. snd (ctrl_write buf offset b))
     [([1, 7, 0, 0, 0], 0), ([1, 9, 0, 0, 0], 0), ([2, 8, 0, 0, 0], 0), ([1, 8, 0, 0, 0], 4)]
     \<lparr>dump_first_seq = 3, dump_req = 0, notify_enabled = True, current_conn = True\<rparr>) = 9"
  using last_request_wins [of "\<lparr>dump_first_seq = 3, dump_req = 0, notify_enabled = True, current_conn = True\<rparr>"
      "[([1, 7, 0, 0, 0], 0), ([1, 9, 0, 0, 0], 0), ([2, 8, 0, 0, 0], 0), ([1, 8, 0, 0, 0], 4)]"]
  by (simp add: accepted_def map_filter_simps sntl_parse_cmd_def)

end
