(* ===== verification/Ble_Gatt.thy ===== *)
theory Ble_Gatt
  imports Ble
begin

text \<open>
  The static tables of src/src/ble.c: the 128-bit UUIDs, the advertising data and the scan
  response, and the attribute table of the service with the index of \<open>DATA_ATTR\<close>. What the
  Bluetooth stack's macros make of them (the bytes of a UUID, the number of attributes of a
  declaration) is a parameter. Proved here: what a scanner reads out of the two payloads, and
  that both fit; and that the dump's notifications go out on the data characteristic.
\<close>

section \<open>UUIDs and advertising data\<close>

record uuid128 =
  u_w32 :: u32
  u_w1 :: u16
  u_w2 :: u16
  u_w3 :: u16
  u_w48 :: "48 word"

definition SNTL_UUID_SVC :: uuid128 where
  "SNTL_UUID_SVC = \<lparr>u_w32 = 0x6e400001, u_w1 = 0xb5a3, u_w2 = 0xf393, u_w3 = 0xe0a9, u_w48 = 0xe50e24dcca9e\<rparr>"

definition SNTL_UUID_CTRL :: uuid128 where
  "SNTL_UUID_CTRL = \<lparr>u_w32 = 0x6e400002, u_w1 = 0xb5a3, u_w2 = 0xf393, u_w3 = 0xe0a9, u_w48 = 0xe50e24dcca9e\<rparr>"

definition SNTL_UUID_DATA :: uuid128 where
  "SNTL_UUID_DATA = \<lparr>u_w32 = 0x6e400003, u_w1 = 0xb5a3, u_w2 = 0xf393, u_w3 = 0xe0a9, u_w48 = 0xe50e24dcca9e\<rparr>"

text \<open>Assigned numbers of the Bluetooth specification.\<close>

abbreviation (input) BT_DATA_FLAGS :: u8 where "BT_DATA_FLAGS \<equiv> 0x01"
abbreviation (input) BT_DATA_UUID128_ALL :: u8 where "BT_DATA_UUID128_ALL \<equiv> 0x07"
abbreviation (input) BT_DATA_NAME_COMPLETE :: u8 where "BT_DATA_NAME_COMPLETE \<equiv> 0x09"
abbreviation (input) BT_LE_AD_GENERAL :: u8 where "BT_LE_AD_GENERAL \<equiv> 0x02"
abbreviation (input) BT_LE_AD_NO_BREDR :: u8 where "BT_LE_AD_NO_BREDR \<equiv> 0x04"

text \<open>
  \<open>struct bt_data\<close>: a type and its data. The parameter \<open>enc\<close> is \<open>BT_UUID_128_ENCODE\<close>; the name
  is the buffer \<open>device_id\<close>, of which the table takes 8 bytes.
\<close>

definition ad :: "(uuid128 \<Rightarrow> bytes) \<Rightarrow> (u8 \<times> bytes) list" where
  "ad enc = [(BT_DATA_FLAGS, [BT_LE_AD_GENERAL OR BT_LE_AD_NO_BREDR]), (BT_DATA_UUID128_ALL, enc SNTL_UUID_SVC)]"

definition sd :: "bytes \<Rightarrow> (u8 \<times> bytes) list" where
  "sd device_id = [(BT_DATA_NAME_COMPLETE, take SNTL_DEVICE_ID_LEN device_id)]"

text \<open>
  The payload on the air is a sequence of length, type and data (the length counts the type),
  at most 31 bytes in a legacy advertisement. A scanner reads it back.
\<close>

definition ad_payload :: "(u8 \<times> bytes) list \<Rightarrow> bytes" where
  "ad_payload ds = concat (map (\<lambda>(t, d). of_nat (length d + 1) # t # d) ds)"

function ad_parse :: "bytes \<Rightarrow> (u8 \<times> bytes) list" where
  "ad_parse (l # t # m) =
     (if l = 0 \<or> length m < unat l - 1 then [] else (t, take (unat l - 1) m) # ad_parse (drop (unat l - 1) m))"
| "ad_parse [] = []"
| "ad_parse [l] = []"
  by pat_completeness auto
termination
  by (relation "measure length") auto

lemma ad_parse_payload: "\<forall>(t, d) \<in> set ds. length d \<le> 254 \<Longrightarrow> ad_parse (ad_payload ds) = ds"
proof (induction ds)
  case (Cons e ds)
  obtain t d where e: "e = (t, d)" by (cases e)
  have "length d \<le> 254" using Cons.prems e by simp
  then have l: "unat (of_nat (Suc (length d)) :: u8) = Suc (length d)" by (intro unat_of_nat_small) simp
  then have "(of_nat (Suc (length d)) :: u8) \<noteq> 0" by (metis nat.distinct(1) unat_0)
  then show ?case using Cons l by (simp add: e ad_payload_def del: of_nat_Suc)
qed (simp add: ad_payload_def)

text \<open>The six bytes that follow the prefix tell two factory ids apart.\<close>

definition unhex :: "u8 \<Rightarrow> u8" where
  "unhex c = (if c < 0x41 then c - 0x30 else c - 0x37)"

lemma unhex_digit: "d < 16 \<Longrightarrow> unhex (hex_digit d) = ucast d"
proof -
  assume "d < 16"
  then have "d \<in> set (map of_nat [0..<16])" by (auto intro: image_eqI [of _ _ "unat d"] simp: word_nat)
  moreover have "\<forall>d \<in> set (map of_nat [0..<16]). unhex (hex_digit d) = ucast d" by code_simp
  ultimately show ?thesis by blast
qed

lemma hex2_eq [simp]: "hex2 a = hex2 b \<longleftrightarrow> a = b"
proof
  assume eq: "hex2 a = hex2 b"
  have up: "unat (ucast y :: u32) \<le> unat y" for y :: u8
    by (simp add: unsigned_ucast_eq take_bit_nat_less_eq_self)
  have hi: "ucast (drop_bit 4 x) < (16 :: u32)" and lo: "ucast (x AND 0xF) < (16 :: u32)" for x :: u8
  proof -
    have "unat x div 16 < 16" using unsigned_less [of x, where ?'a = nat] by (simp add: less_mult_imp_div_less)
    then show "ucast (drop_bit 4 x) < (16 :: u32)"
      using up [of "x div 16"] by (simp add: word_nat drop_bit_eq_div unat_div)
    have "(x AND 0xF) \<le> 0xF" by (rule word_and_le1)
    then show "ucast (x AND 0xF) < (16 :: u32)"
      using up [of "x AND 0xF"] by (simp add: word_nat)
  qed
  have dec: "map unhex (hex2 x) = [ucast (ucast (drop_bit 4 x) :: u32), ucast (ucast (x AND 0xF) :: u32)]" for x
    by (simp add: hex2_def unhex_digit hi lo)
  have id: "ucast (ucast y :: u32) = y" for y :: u8
    by (rule bit_word_eqI) (simp add: bit_simps)
  have same: "drop_bit 4 a = drop_bit 4 b" "a AND 0xF = b AND 0xF"
    using arg_cong [OF eq, of "map unhex"] unfolding dec id by simp_all
  have m: "(0xF :: u8) = mask 4" by (simp add: mask_eq_exp_minus_1)
  have "x = push_bit 4 (drop_bit 4 x) OR (x AND 0xF)" for x :: u8
    unfolding m by (rule bit_word_eqI) (auto simp: bit_simps)
  then show "a = b" using same by metis
qed simp

text \<open>
  C36: a scanner finds the node: with any 16-byte encoding of UUIDs and any factory id of at most
  8 bytes, both payloads fit 31 bytes; the advertisement reads back as the discoverable flags and
  the service's UUID, the scan response as the complete name, which is the device id, \<open>PR\<close> and
  six hex digits; and two nodes have the same name exactly if the last three bytes of their
  factory ids agree.
\<close>

theorem scanner_recognises:
  assumes "\<forall>u. length (enc u) = 16" and "3 \<le> n" and "3 \<le> n'"
  shows "length (ad_payload (ad enc)) \<le> 31 \<and> length (ad_payload (sd (device_id_init n hw))) \<le> 31 \<and>
    ad_parse (ad_payload (ad enc)) = [(BT_DATA_FLAGS, [0x06]), (BT_DATA_UUID128_ALL, enc SNTL_UUID_SVC)] \<and>
    ad_parse (ad_payload (sd (device_id_init n hw))) = [(BT_DATA_NAME_COMPLETE, device_id_init n hw)] \<and>
    (device_id_init n hw = device_id_init n' hw' \<longleftrightarrow>
       (\<forall>i \<in> {1, 2, 3}. hw ! nat (n - i) = hw' ! nat (n' - i)))"
proof -
  have id: "length (device_id_init n hw) = 8" using device_id_exact [of n hw] by blast
  have name: "device_id_init n hw = [0x50, 0x52] @ hex2 (hw ! nat (n - 3)) @ hex2 (hw ! nat (n - 2)) @ hex2 (hw ! nat (n - 1))"
    if "3 \<le> n" for n hw using device_id_exact [of n hw] that by simp
  have len: "length (hex2 b) = 2" for b by (simp add: hex2_def)
  have "device_id_init n hw = device_id_init n' hw' \<longleftrightarrow>
       (\<forall>i \<in> {1, 2, 3}. hw ! nat (n - i) = hw' ! nat (n' - i))"
    unfolding name [OF assms(2)] name [OF assms(3)] by (auto simp: len)
  moreover have "ad_parse (ad_payload (ad enc)) = ad enc" "ad_parse (ad_payload (sd (device_id_init n hw))) = sd (device_id_init n hw)"
    using assms(1) id by (auto simp: ad_def sd_def intro!: ad_parse_payload)
  moreover have "length (ad_payload (ad enc)) = 21" "length (ad_payload (sd (device_id_init n hw))) = 10"
    using assms(1) id by (simp_all add: ad_payload_def ad_def sd_def)
  ultimately show ?thesis using id by (simp add: ad_def sd_def)
qed

text \<open>The two payloads together are 31 bytes: the name would fit beside the UUID.\<close>

lemma name_fits_too:
  assumes "\<forall>u. length (enc u) = 16"
  shows "length (ad_payload (ad enc @ sd (device_id_init n hw))) = 31"
proof -
  have "length (device_id_init n hw) = 8" using device_id_exact [of n hw] by blast
  then show ?thesis using assms by (simp add: ad_payload_def ad_def sd_def)
qed

theorem scanner_recognises_witness:
  "ad_parse (ad_payload (sd (device_id_init 8 [1, 2, 3, 4, 5, 0xA3, 0xF9, 0x2C]))) =
     [(BT_DATA_NAME_COMPLETE, [0x50, 0x52, 0x41, 0x33, 0x46, 0x39, 0x32, 0x43])] \<and>
   device_id_init 8 [1, 2, 3, 4, 5, 0xA3, 0xF9, 0x2C] \<noteq> device_id_init 8 [1, 2, 3, 4, 5, 0xA3, 0xF9, 0x2D]"
proof -
  have "device_id_init 8 [1, 2, 3, 4, 5, 0xA3, 0xF9, 0x2C] = [0x50, 0x52, 0x41, 0x33, 0x46, 0x39, 0x32, 0x43]"
    by code_simp
  then show ?thesis
    using scanner_recognises [of "\<lambda>_. replicate 16 0" 8 8 "[1, 2, 3, 4, 5, 0xA3, 0xF9, 0x2C]" "[1, 2, 3, 4, 5, 0xA3, 0xF9, 0x2D]"]
    by simp
qed

section \<open>The service\<close>

text \<open>
  The declarations of \<open>sntl_svc\<close> with their properties, permissions and handlers, a read or write
  handler or none. The stack turns a declaration into attributes; the parameter \<open>attrs\<close> is how
  many. The documentation of the macros says: a service is one attribute, a characteristic two
  (its declaration and its value), a client configuration one.
\<close>

abbreviation (input) BT_GATT_CHRC_WRITE :: u8 where "BT_GATT_CHRC_WRITE \<equiv> 0x08"
abbreviation (input) BT_GATT_CHRC_NOTIFY :: u8 where "BT_GATT_CHRC_NOTIFY \<equiv> 0x10"
abbreviation (input) BT_GATT_PERM_NONE :: u16 where "BT_GATT_PERM_NONE \<equiv> 0"
abbreviation (input) BT_GATT_PERM_READ :: u16 where "BT_GATT_PERM_READ \<equiv> 0x01"
abbreviation (input) BT_GATT_PERM_WRITE :: u16 where "BT_GATT_PERM_WRITE \<equiv> 0x02"

datatype gatt_decl =
    Primary_Service uuid128
  | Characteristic uuid128 u8 u16 "(ble \<Rightarrow> bytes) option" "(bytes \<Rightarrow> u16 \<Rightarrow> ble \<Rightarrow> int \<times> ble) option"
  | Ccc "u16 \<Rightarrow> ble \<Rightarrow> ble" u16

definition sntl_svc :: "gatt_decl list" where
  "sntl_svc =
     [Primary_Service SNTL_UUID_SVC,
      Characteristic SNTL_UUID_CTRL BT_GATT_CHRC_WRITE BT_GATT_PERM_WRITE None (Some ctrl_write),
      Characteristic SNTL_UUID_DATA BT_GATT_CHRC_NOTIFY BT_GATT_PERM_NONE None None,
      Ccc ccc_changed (BT_GATT_PERM_READ OR BT_GATT_PERM_WRITE)]"

definition DATA_ATTR :: nat where
  "DATA_ATTR = 3"

definition attr_table :: "(gatt_decl \<Rightarrow> nat) \<Rightarrow> gatt_decl list \<Rightarrow> gatt_decl list" where
  "attr_table attrs ds = concat (map (\<lambda>d. replicate (attrs d) d) ds)"

definition documented :: "(gatt_decl \<Rightarrow> nat) \<Rightarrow> bool" where
  "documented attrs \<longleftrightarrow> (\<forall>u. attrs (Primary_Service u) = 1) \<and>
     (\<forall>u p q r w. attrs (Characteristic u p q r w) = 2) \<and> (\<forall>h q. attrs (Ccc h q) = 1)"

fun notifies :: "gatt_decl \<Rightarrow> bool" where
  "notifies (Characteristic u p q r w) \<longleftrightarrow> p AND BT_GATT_CHRC_NOTIFY \<noteq> 0"
| "notifies _ \<longleftrightarrow> False"

text \<open>
  The magic index of \<open>DATA_ATTR\<close> is right: it names the first attribute of the data
  characteristic, the only one that notifies, and what follows its two attributes is the
  configuration descriptor whose handler sets \<open>notify_enabled\<close>.
\<close>

theorem data_attr_notifies:
  assumes "documented attrs" and "tab = attr_table attrs sntl_svc"
  shows "map notifies tab = map (\<lambda>i. i \<in> {DATA_ATTR, DATA_ATTR + 1}) [0..<6] \<and>
    (\<exists>p q. tab ! DATA_ATTR = Characteristic SNTL_UUID_DATA p q None None) \<and>
    (\<exists>q. tab ! (DATA_ATTR + 2) = Ccc ccc_changed q)"
proof -
  have "tab = [sntl_svc ! 0, sntl_svc ! 1, sntl_svc ! 1, sntl_svc ! 2, sntl_svc ! 2, sntl_svc ! 3]"
    using assms by (simp add: documented_def attr_table_def sntl_svc_def numeral_2_eq_2)
  then show ?thesis by (simp add: DATA_ATTR_def sntl_svc_def upt_rec)
qed

fun bench_attrs :: "gatt_decl \<Rightarrow> nat" where
  "bench_attrs (Characteristic u p q r w) = 2"
| "bench_attrs _ = 1"

theorem data_attr_notifies_witness:
  "\<exists>q. attr_table bench_attrs sntl_svc ! 5 = Ccc ccc_changed q"
  using data_attr_notifies [of bench_attrs _, OF _ refl] by (simp add: documented_def DATA_ATTR_def)

end
