(* ===== verification/Ble_Adv.thy ===== *)
theory Ble_Adv
  imports Ble
begin

text \<open>
  The advertising half of src/src/ble.c: the button opens a window of 20 s in which the node
  is visible, a delayed work item closes it, and a disconnection inside it makes the node
  visible again. The callbacks (button interrupt, Bluetooth thread), the timer and the
  system work queue interleave freely, as a step relation. Proved here: the window is
  bounded by the last press, the node is visible while it is open and nobody is connected
  unless the stack failed the last attempt, and, with two exceptions that are shown to be
  reachable, it is invisible once everything is at rest.
\<close>

section \<open>State\<close>

text \<open>
  \<open>work\<close> is the system work queue, oldest item first; \<open>off_timer\<close> the seconds left of the
  delay of \<open>adv_off_work\<close>; \<open>stopping\<close> holds while the work thread is inside \<open>adv_off_fn\<close>, between
  its two effects. \<open>advertising\<close> is the stack's own state, as is \<open>conn_refs\<close>, the reference count
  of the one connection object; the object is free when it is 0.
\<close>

datatype work = Adv_On | Adv_Off

record adv = ble +
  adv_window_open :: bool
  advertising :: bool
  work :: "work list"
  off_timer :: "nat option"
  stopping :: bool
  conn_refs :: int

abbreviation (input) BLE_ADV_WINDOW_S :: nat where "BLE_ADV_WINDOW_S \<equiv> 20"

text \<open>\<open>k_work_submit\<close>: an item that is already queued is left where it is.\<close>

definition submit :: "work \<Rightarrow> adv \<Rightarrow> adv" where
  "submit w s = (if w \<in> set (work s) then s else s\<lparr>work := work s @ [w]\<rparr>)"

section \<open>Operations\<close>

text \<open>\<open>bt_le_adv_start\<close> returned \<open>err\<close>; without an error the node is visible.\<close>

definition adv_start :: "int \<Rightarrow> adv \<Rightarrow> adv" where
  "adv_start err s =
     (if err = - EALREADY then s
      else if err \<noteq> 0 then s
      else s\<lparr>advertising := True\<rparr>)"

definition adv_on_fn :: "int \<Rightarrow> adv \<Rightarrow> adv" where
  "adv_on_fn err s = adv_start err s"

text \<open>\<open>adv_off_fn\<close> clears the flag, then stops advertising; a callback may run between the two.\<close>

definition adv_off_clear :: "adv \<Rightarrow> adv" where
  "adv_off_clear s = s\<lparr>adv_window_open := False, stopping := True\<rparr>"

definition adv_off_stop :: "adv \<Rightarrow> adv" where
  "adv_off_stop s = s\<lparr>advertising := False, stopping := False\<rparr>"

text \<open>
  \<open>k_work_reschedule\<close> with a delay restarts the timer; it does not take an expired item off the
  queue.
\<close>

definition ble_advertise_window :: "adv \<Rightarrow> adv" where
  "ble_advertise_window s =
     (let s = s\<lparr>adv_window_open := True\<rparr>; s = submit Adv_On s in
      s\<lparr>off_timer := Some BLE_ADV_WINDOW_S\<rparr>)"

definition bt_conn_ref :: "adv \<Rightarrow> adv" where
  "bt_conn_ref s = s\<lparr>conn_refs := conn_refs s + 1\<rparr>"

definition bt_conn_unref :: "adv \<Rightarrow> adv" where
  "bt_conn_unref s = s\<lparr>conn_refs := conn_refs s - 1\<rparr>"

definition connected :: "u8 \<Rightarrow> adv \<Rightarrow> adv" where
  "connected err s = (if err \<noteq> 0 then s else (bt_conn_ref s)\<lparr>current_conn := True\<rparr>)"

definition disconnected :: "adv \<Rightarrow> adv" where
  "disconnected s =
     (let s = s\<lparr>notify_enabled := False\<rparr>;
          s = (if current_conn s then (bt_conn_unref s)\<lparr>current_conn := False\<rparr> else s) in
      if adv_window_open s then submit Adv_On s else s)"

text \<open>
  \<open>ble_start\<close> with the results of \<open>bt_enable\<close> and \<open>bt_set_name\<close>: the return value and the id.
\<close>

definition ble_start :: "int \<Rightarrow> bytes \<Rightarrow> int \<Rightarrow> int \<Rightarrow> int \<times> bytes" where
  "ble_start n hw enable set_name =
     (let device_id = device_id_init n hw in
      if enable \<noteq> 0 then (enable, device_id) else (0, device_id))"

section \<open>Interleaving\<close>

text \<open>
  Events: the button, a second of time, the timer's expiry, the work thread taking an item,
  the second half of \<open>adv_off_fn\<close>, and the two connection callbacks. The controller stops
  advertising by itself when a central connects. The stack holds a reference of its own to the
  connection object from before \<open>connected\<close> until after \<open>disconnected\<close>, or until after a
  \<open>connected\<close> with an error, and it takes a free object for a new connection.
\<close>

datatype event = Press | Tick | Expire | Run_On int | Run_Off | Stop | Connect u8 | Disconnect

definition stack_connects :: "u8 \<Rightarrow> adv \<Rightarrow> adv" where
  "stack_connects err s =
     (let s = connected err (bt_conn_ref s) in if err \<noteq> 0 then bt_conn_unref s else s)"

definition stack_disconnects :: "adv \<Rightarrow> adv" where
  "stack_disconnects s = bt_conn_unref (disconnected s)"

inductive adv_step :: "adv \<Rightarrow> event list \<Rightarrow> adv \<Rightarrow> bool" where
  Press: "adv_step s [Press] (ble_advertise_window s)"
| Tick: "off_timer s \<noteq> Some 0 \<Longrightarrow> adv_step s [Tick] (s\<lparr>off_timer := map_option (\<lambda>k. k - 1) (off_timer s)\<rparr>)"
| Expire: "off_timer s = Some 0 \<Longrightarrow> adv_step s [Expire] (submit Adv_Off (s\<lparr>off_timer := None\<rparr>))"
| Run_On: "work s = Adv_On # ws \<Longrightarrow> \<not> stopping s \<Longrightarrow> (err = - EALREADY \<Longrightarrow> advertising s) \<Longrightarrow>
    adv_step s [Run_On err] (adv_on_fn err (s\<lparr>work := ws\<rparr>))"
| Run_Off: "work s = Adv_Off # ws \<Longrightarrow> \<not> stopping s \<Longrightarrow> adv_step s [Run_Off] (adv_off_clear (s\<lparr>work := ws\<rparr>))"
| Stop: "stopping s \<Longrightarrow> adv_step s [Stop] (adv_off_stop s)"
| Connect: "advertising s \<Longrightarrow> \<not> current_conn s \<Longrightarrow> conn_refs s = 0 \<Longrightarrow> (a \<longrightarrow> err \<noteq> 0) \<Longrightarrow>
    adv_step s [Connect err] (stack_connects err (s\<lparr>advertising := a\<rparr>))"
| Disconnect: "current_conn s \<Longrightarrow> adv_step s [Disconnect] (stack_disconnects s)"

inductive_cases adv_step_cases: "adv_step s es t"

text \<open>Start-up: nothing is visible until the button is pressed.\<close>

definition adv_boot :: adv where
  "adv_boot = \<lparr>dump_first_seq = 0, dump_req = 0, notify_enabled = False, current_conn = False,
     adv_window_open = False, advertising = False, work = [], off_timer = None, stopping = False, conn_refs = 0\<rparr>"

lemmas adv_defs = ble_advertise_window_def submit_def adv_on_fn_def adv_start_def adv_off_clear_def
  adv_off_stop_def connected_def disconnected_def bt_conn_ref_def bt_conn_unref_def stack_connects_def
  stack_disconnects_def Let_def


section \<open>The window is bounded\<close>

text \<open>Seconds since the last press of a run, and a state in which nothing is left to do.\<close>

definition ticks_since_press :: "event list \<Rightarrow> nat" where
  "ticks_since_press es = length (filter (\<lambda>e. e = Tick) (takeWhile (\<lambda>e. e \<noteq> Press) (rev es)))"

definition at_rest :: "adv \<Rightarrow> bool" where
  "at_rest s \<longleftrightarrow> work s = [] \<and> off_timer s = None \<and> \<not> stopping s"

lemma ticks_snoc [simp]:
  "ticks_since_press (es @ [e]) = (if e = Press then 0 else if e = Tick then Suc (ticks_since_press es) else ticks_since_press es)"
  by (simp add: ticks_since_press_def)

definition bounded_inv :: "event list \<Rightarrow> adv \<Rightarrow> bool" where
  "bounded_inv es s \<longleftrightarrow>
     (case off_timer s of None \<Rightarrow> True | Some k \<Rightarrow> k + ticks_since_press es = BLE_ADV_WINDOW_S \<and> Press \<in> set es) \<and>
     (adv_window_open s \<longrightarrow> Press \<in> set es \<and> (off_timer s \<noteq> None \<or> Adv_Off \<in> set (work s)))"

lemma bounded_boot: "bounded_inv [] adv_boot"
  by (simp add: bounded_inv_def adv_boot_def)

lemma bounded_step:
  assumes "adv_step s xs t" and "bounded_inv es s"
  shows "bounded_inv (es @ xs) t"
  using assms
proof (cases rule: adv_step.cases)
  case Tick
  then show ?thesis using assms(2) by (cases "off_timer s") (auto simp: bounded_inv_def)
next
  case (Run_On ws err)
  then show ?thesis using assms(2) by (auto simp: bounded_inv_def adv_defs split: option.splits)
qed (use assms(2) in \<open>auto simp: bounded_inv_def adv_defs split: option.splits if_splits\<close>)

lemma bounded_runs: "runs adv_step s xs t \<Longrightarrow> bounded_inv es s \<Longrightarrow> bounded_inv (es @ xs) t"
proof (induction rule: runs.induct)
  case (runs_step s xs t ys u)
  then show ?case using bounded_step [of t ys u "es @ xs"] by simp
qed simp

text \<open>
  The window is bounded by the last press: while the node counts it as open the button has
  been pressed, and either the timer stands at the rest of the 20 s since the last press or
  the item that closes the window is already queued. Later than 20 s after the last press
  only a delay of the work queue keeps it open.
\<close>

theorem adv_window_bounded:
  assumes "runs adv_step adv_boot es s" and "adv_window_open s"
  shows "Press \<in> set es \<and>
    (Adv_Off \<in> set (work s) \<or>
     ticks_since_press es \<le> BLE_ADV_WINDOW_S \<and> off_timer s = Some (BLE_ADV_WINDOW_S - ticks_since_press es))"
  using bounded_runs [OF assms(1) bounded_boot] assms(2)
  by (auto simp: bounded_inv_def split: option.splits)

text \<open>
  A scheduler for concrete runs: the events one after the other, each only where it is
  enabled (a failed connection leaves the node visible).
\<close>

fun adv_exec :: "event list \<Rightarrow> adv \<Rightarrow> adv option" where
  "adv_exec [] s = Some s"
| "adv_exec (Press # es) s = adv_exec es (ble_advertise_window s)"
| "adv_exec (Tick # es) s =
     (if off_timer s = Some 0 then None else adv_exec es (s\<lparr>off_timer := map_option (\<lambda>k. k - 1) (off_timer s)\<rparr>))"
| "adv_exec (Expire # es) s =
     (if off_timer s = Some 0 then adv_exec es (submit Adv_Off (s\<lparr>off_timer := None\<rparr>)) else None)"
| "adv_exec (Run_On err # es) s =
     (case work s of
        Adv_On # ws \<Rightarrow> if stopping s \<or> err = - EALREADY \<and> \<not> advertising s then None
                        else adv_exec es (adv_on_fn err (s\<lparr>work := ws\<rparr>))
      | _ \<Rightarrow> None)"
| "adv_exec (Run_Off # es) s =
     (case work s of
        Adv_Off # ws \<Rightarrow> if stopping s then None else adv_exec es (adv_off_clear (s\<lparr>work := ws\<rparr>))
      | _ \<Rightarrow> None)"
| "adv_exec (Stop # es) s = (if stopping s then adv_exec es (adv_off_stop s) else None)"
| "adv_exec (Connect err # es) s =
     (if advertising s \<and> \<not> current_conn s \<and> conn_refs s = 0
      then adv_exec es (stack_connects err (s\<lparr>advertising := (err \<noteq> 0)\<rparr>)) else None)"
| "adv_exec (Disconnect # es) s = (if current_conn s then adv_exec es (stack_disconnects s) else None)"

lemma adv_exec_runs: "adv_exec es s = Some t \<Longrightarrow> runs adv_step s es t"
proof (induction es s rule: adv_exec.induct)
  case (1 s)
  then show ?case by (simp add: runs.runs_refl)
qed (auto split: if_splits list.splits work.splits
      intro: runs_cons [where xs = "[e]" for e, simplified append_Cons append_Nil] adv_step.intros)

text \<open>The window runs out: 20 seconds, then the timer.\<close>

abbreviation (input) window_out :: "event list" where
  "window_out \<equiv> replicate 20 Tick @ [Expire]"

lemma adv_exec_window_out:
  assumes "off_timer s = Some 20"
  shows "adv_exec (replicate 20 Tick @ Expire # es) s = adv_exec es (submit Adv_Off (s\<lparr>off_timer := None\<rparr>))"
  using assms by (simp add: eval_nat_numeral)

theorem adv_window_bounded_witness:
  "\<exists>s. adv_exec [Press, Tick, Run_On 0, Tick] adv_boot = Some s \<and> off_timer s = Some 18"
proof -
  let ?es = "[Press, Tick, Run_On 0, Tick]"
  obtain s where s: "adv_exec ?es adv_boot = Some s" "adv_window_open s" "work s = []"
    by (simp add: adv_boot_def adv_defs)
  from adv_window_bounded [OF adv_exec_runs [OF s(1)] s(2)] s show ?thesis
    by (simp add: ticks_since_press_def)
qed

section \<open>Visible inside the window\<close>

text \<open>
  The last attempt to become or to stay visible failed: of the calls of \<open>bt_le_adv_start\<close> and the
  connections so far, the last was a call that returned an error other than \<open>-EALREADY\<close>, or a
  connection that failed (after which the stack may have stopped advertising).
\<close>

definition start_failed :: "event list \<Rightarrow> bool" where
  "start_failed es =
     foldl (\<lambda>failed e. case e of Run_On err \<Rightarrow> err \<noteq> 0 \<and> err \<noteq> - EALREADY | Connect err \<Rightarrow> err \<noteq> 0 | _ \<Rightarrow> failed) False es"

lemma start_failed_snoc [simp]:
  "start_failed (es @ [e]) =
     (case e of Run_On err \<Rightarrow> err \<noteq> 0 \<and> err \<noteq> - EALREADY | Connect err \<Rightarrow> err \<noteq> 0 | _ \<Rightarrow> start_failed es)"
  by (cases e) (simp_all add: start_failed_def)

definition visible_inv :: "event list \<Rightarrow> adv \<Rightarrow> bool" where
  "visible_inv es s \<longleftrightarrow>
     (adv_window_open s \<longrightarrow>
        Adv_On \<in> set (work s) \<or> \<not> stopping s \<and> (current_conn s \<or> advertising s \<or> start_failed es))"

lemma visible_step:
  assumes "adv_step s xs t" and "visible_inv es s"
  shows "visible_inv (es @ xs) t"
  using assms(1) by (cases rule: adv_step.cases)
    (use assms(2) in \<open>auto simp: visible_inv_def adv_defs split: if_splits\<close>)

lemma visible_runs: "runs adv_step s xs t \<Longrightarrow> visible_inv es s \<Longrightarrow> visible_inv (es @ xs) t"
proof (induction rule: runs.induct)
  case (runs_step s xs t ys u)
  then show ?case using visible_step [of t ys u "es @ xs"] by simp
qed simp

text \<open>
  C33: the node is visible while the window is open, however presses, connections,
  disconnections, the timer and the work queue interleave and whatever \<open>bt_le_adv_start\<close>
  returns: in every reachable state in which the window is open and nobody is connected, the
  node is advertising, or the item that starts it is queued, or the last attempt failed in the
  stack (the call returned an error, or the last connection did), which \<open>adv_start\<close> only logs.
\<close>

theorem adv_visible_in_window:
  assumes "runs adv_step adv_boot es s" and "adv_window_open s" and "\<not> current_conn s"
  shows "advertising s \<or> Adv_On \<in> set (work s) \<or> start_failed es"
proof -
  have "visible_inv [] adv_boot" by (simp add: visible_inv_def adv_boot_def)
  from visible_runs [OF assms(1) this] show ?thesis using assms(2,3) by (auto simp: visible_inv_def)
qed

text \<open>The first two events of every window, with what is left of the state open.\<close>

lemma press_and_start:
  defines "s1 \<equiv> ble_advertise_window adv_boot"
  defines "s2 \<equiv> adv_on_fn 0 (s1\<lparr>work := []\<rparr>)"
  shows "adv_step adv_boot [Press] s1" and "adv_step s1 [Run_On 0] s2" and "adv_window_open s2"
    and "\<not> current_conn s2" and "work s2 = []" and "advertising s2" and "off_timer s2 = Some 20" and "\<not> stopping s2"
proof -
  show "adv_step adv_boot [Press] s1" unfolding s1_def by (rule adv_step.Press)
  have "work s1 = [Adv_On]" "\<not> stopping s1" by (simp_all add: s1_def adv_boot_def adv_defs)
  then show "adv_step s1 [Run_On 0] s2" unfolding s2_def by (intro adv_step.Run_On) simp_all
qed (simp_all add: s1_def s2_def adv_boot_def adv_defs)

theorem adv_visible_in_window_witness:
  "\<exists>s. runs adv_step adv_boot ([Press] @ [Run_On 0]) s \<and> advertising s"
proof -
  note ps = press_and_start
  let ?s2 = "adv_on_fn 0 ((ble_advertise_window adv_boot)\<lparr>work := []\<rparr>)"
  have r: "runs adv_step adv_boot ([Press] @ [Run_On 0]) ?s2"
    by (rule runs.runs_step [OF runs_one [where step = adv_step, OF ps(1)] ps(2)])
  from adv_visible_in_window [OF this ps(3,4)] ps(5) r show ?thesis by (auto simp: start_failed_def)
qed

text \<open>
  The third case is real: one failed call leaves the node invisible with the whole window still
  to run and nothing queued; only another press tries again.
\<close>

theorem adv_start_not_retried:
  "\<exists>s. runs adv_step adv_boot [Press, Run_On err] s \<and> adv_window_open s \<and> \<not> current_conn s \<and>
     \<not> advertising s \<and> work s = [] \<and> off_timer s = Some BLE_ADV_WINDOW_S"
  if fail: "err \<noteq> 0" "err \<noteq> - EALREADY"
proof -
  obtain s where "adv_exec [Press, Run_On err] adv_boot = Some s" "adv_window_open s" "\<not> current_conn s"
    "\<not> advertising s" "work s = []" "off_timer s = Some 20"
    using fail by (simp add: adv_boot_def adv_defs)
  then show ?thesis using adv_exec_runs by blast
qed

section \<open>Invisible at rest\<close>

text \<open>
  A schedule in which nobody disconnects between the timer's expiry and the item it queues, and
  in which the timer of the next window does not expire while that item is still queued: the
  work queue never lags by the 20 s of a window.
\<close>

definition calm_step :: "adv \<Rightarrow> event list \<Rightarrow> adv \<Rightarrow> bool" where
  "calm_step s es t \<longleftrightarrow> adv_step s es t \<and>
     (es = [Disconnect] \<longrightarrow> Adv_Off \<notin> set (work s) \<or> off_timer s \<noteq> None) \<and>
     (es = [Expire] \<longrightarrow> Adv_Off \<notin> set (work s))"

text \<open>Whatever makes the node visible is followed by something that ends it.\<close>

definition ends_inv :: "adv \<Rightarrow> bool" where
  "ends_inv s \<longleftrightarrow>
     (adv_window_open s \<longrightarrow> off_timer s \<noteq> None \<or> Adv_Off \<in> set (work s)) \<and>
     (advertising s \<or> Adv_On \<in> set (work s) \<longrightarrow>
        off_timer s \<noteq> None \<or> (\<exists>xs ys. work s = xs @ Adv_Off # ys \<and> Adv_On \<notin> set ys) \<or>
        stopping s \<and> Adv_On \<notin> set (work s))"

lemma ends_step:
  assumes "ends_inv s" and "calm_step s es t"
  shows "ends_inv t"
proof -
  have "adv_step s es t" using assms(2) by (simp add: calm_step_def)
  then show ?thesis
  proof (cases rule: adv_step.cases)
    case Expire
    then have "Adv_Off \<notin> set (work s)" using assms(2) by (simp add: calm_step_def)
    then have "work t = work s @ Adv_Off # []" using Expire by (simp add: adv_defs)
    then show ?thesis unfolding ends_inv_def by (auto intro: exI [of _ "work s"])
  next
    case (Run_On ws err)
    have "\<exists>xs ys. ws = xs @ Adv_Off # ys \<and> Adv_On \<notin> set ys" if "Adv_On # ws = xs @ Adv_Off # ys" "Adv_On \<notin> set ys" for xs ys
      using that by (cases xs) auto
    then show ?thesis using assms(1) Run_On by (auto simp: ends_inv_def adv_defs)
  next
    case (Run_Off ws)
    have "Adv_On \<in> set ws \<Longrightarrow> \<exists>xs ys. ws = xs @ Adv_Off # ys \<and> Adv_On \<notin> set ys"
      if "Adv_Off # ws = xs @ Adv_Off # ys" "Adv_On \<notin> set ys" for xs ys
      using that by (cases xs) auto
    then show ?thesis using assms(1) Run_Off by (auto simp: ends_inv_def adv_defs)
  next
    case Disconnect
    then have "adv_window_open s \<Longrightarrow> off_timer s \<noteq> None"
      using assms by (auto simp: calm_step_def ends_inv_def)
    then show ?thesis using assms(1) Disconnect by (auto simp: ends_inv_def adv_defs split: if_splits)
  qed (use assms(1) in \<open>auto simp: ends_inv_def adv_defs split: if_splits\<close>)
qed

text \<open>
  C34: the node is invisible at rest, under two conditions on the schedule: nobody disconnects
  between the expiry of the timer and the run of the item it queues, and the timer of a later
  window does not expire while that item is still queued. Then whenever the timer is off, the
  work queue empty and no handler running, the window is closed and the node does not
  advertise. Neither condition can be left out: see \<open>adv_left_on\<close> and \<open>adv_lagging_queue\<close>.
\<close>

theorem adv_silent_at_rest:
  assumes "runs calm_step adv_boot es s" and "at_rest s"
  shows "\<not> adv_window_open s \<and> \<not> advertising s"
proof -
  have "ends_inv adv_boot" by (simp add: ends_inv_def adv_boot_def)
  from runs_invariant [where P = ends_inv, OF assms(1) this ends_step] show ?thesis
    using assms(2) by (auto simp: ends_inv_def at_rest_def)
qed

lemma calm_runs: "runs adv_step s es t \<Longrightarrow> Disconnect \<notin> set es \<Longrightarrow> Expire \<notin> set es \<Longrightarrow> runs calm_step s es t"
proof (induction rule: runs.induct)
  case (runs_step s xs t ys u)
  then have "calm_step t ys u" by (auto simp: calm_step_def)
  then show ?case using runs_step by (auto intro: runs.runs_step)
qed (rule runs.runs_refl)

text \<open>A window that nobody uses.\<close>

theorem adv_silent_at_rest_witness:
  "\<exists>s. runs calm_step adv_boot (([Press, Run_On 0] @ replicate 20 Tick) @ [Expire] @ [Run_Off, Stop]) s \<and>
     at_rest s \<and> \<not> advertising s"
proof -
  obtain s where s: "adv_exec ([Press, Run_On 0] @ replicate 20 Tick) adv_boot = Some s" "work s = []"
    "off_timer s = Some 0" "\<not> stopping s"
    by (simp add: adv_boot_def adv_defs eval_nat_numeral)
  let ?t = "submit Adv_Off (s\<lparr>off_timer := None\<rparr>)"
  obtain u where u: "adv_exec [Run_Off, Stop] ?t = Some u" "at_rest u"
    using s(2,4) by (simp add: adv_defs at_rest_def)
  have r1: "runs calm_step adv_boot ([Press, Run_On 0] @ replicate 20 Tick) s"
    using adv_exec_runs [OF s(1)] by (rule calm_runs) simp_all
  have r2: "runs calm_step s [Expire] ?t"
    using adv_step.Expire [OF s(3)] s(2) by (intro runs_one) (simp add: calm_step_def)
  have r3: "runs calm_step ?t [Run_Off, Stop] u"
    using adv_exec_runs [OF u(1)] by (rule calm_runs) simp_all
  note r = runs_append [OF r1 runs_append [OF r2 r3]]
  from adv_silent_at_rest [OF r u(2)] r u(2) show ?thesis by blast
qed

section \<open>Schedules in which the window is not what it promises\<close>

text \<open>Nothing but a press or a connection ends this advertising.\<close>

definition stays_visible :: "adv \<Rightarrow> bool" where
  "stays_visible s \<longleftrightarrow>
     (\<forall>es t. runs adv_step s es t \<longrightarrow> Press \<notin> set es \<longrightarrow> (\<forall>err. Connect err \<notin> set es) \<longrightarrow> advertising t)"

lemma stays_visible:
  assumes "at_rest s" and "advertising s" and "\<not> current_conn s"
  shows "stays_visible s"
proof -
  have "advertising t \<and> at_rest t \<and> \<not> current_conn t"
    if "runs adv_step s es t" and "Press \<notin> set es" and "\<forall>err. Connect err \<notin> set es" for es t
    using that assms
  proof (induction rule: runs.induct)
    case (runs_step s xs t ys u)
    then have "advertising t \<and> at_rest t \<and> \<not> current_conn t" by auto
    with runs_step(2,4,5) show ?case
      by (auto simp: at_rest_def elim!: adv_step_cases)
  qed simp
  then show ?thesis by (simp add: stays_visible_def)
qed

text \<open>
  C38: advertising can be left on: when the central disconnects after the timer has expired and
  before the item it queued has run, the item that starts advertising is queued behind the
  one that stops it; \<open>adv_on_fn\<close> does not look at \<open>adv_window_open\<close>, so the node advertises with
  the window closed and no timer, and goes on until the next press or connection.
\<close>

theorem adv_left_on:
  "\<exists>es s. runs adv_step adv_boot es s \<and> at_rest s \<and> \<not> adv_window_open s \<and> advertising s \<and> stays_visible s"
proof -
  let ?es = "[Press, Run_On 0, Connect 0] @ window_out @ [Disconnect, Run_Off, Stop, Run_On 0]"
  obtain s where s: "adv_exec ?es adv_boot = Some s" "at_rest s" "\<not> adv_window_open s" "advertising s" "\<not> current_conn s"
    by (simp add: adv_exec_window_out adv_boot_def adv_defs at_rest_def)
  then show ?thesis using adv_exec_runs [OF s(1)] stays_visible by blast
qed

text \<open>
  The other condition of \<open>adv_silent_at_rest\<close>: when the work queue lags by a whole window, the
  second expiry finds the item of the first still queued, so one item closes both windows, and
  the start that the second press queued behind it runs last. Nobody connects at all.
\<close>

theorem adv_lagging_queue:
  "\<exists>s. runs adv_step adv_boot
      ([Press, Run_On 0] @ window_out @ [Press] @ window_out @ [Run_Off, Stop, Run_On 0]) s \<and>
     at_rest s \<and> \<not> adv_window_open s \<and> advertising s"
proof -
  let ?es = "[Press, Run_On 0] @ window_out @ [Press] @ window_out @ [Run_Off, Stop, Run_On 0]"
  obtain s where s: "adv_exec ?es adv_boot = Some s" "at_rest s" "\<not> adv_window_open s" "advertising s"
    by (simp add: adv_exec_window_out adv_boot_def adv_defs at_rest_def)
  then show ?thesis using adv_exec_runs [OF s(1)] by blast
qed

text \<open>
  A press can be lost: a press between the expiry of the timer and the item it queued finds
  that item still in the queue, so the new window is closed as soon as it is opened; a central
  that then connects and disconnects leaves the node invisible with the whole of the 20
  seconds still to run.
\<close>

theorem adv_press_lost:
  "\<exists>es s. runs adv_step adv_boot es s \<and> ticks_since_press es = 0 \<and> work s = [] \<and> \<not> current_conn s \<and>
     off_timer s = Some BLE_ADV_WINDOW_S \<and> \<not> adv_window_open s \<and> \<not> advertising s"
proof -
  let ?es = "[Press, Run_On 0] @ window_out @ [Press, Run_Off, Stop, Run_On 0, Connect 0, Disconnect]"
  obtain s where s: "adv_exec ?es adv_boot = Some s" "work s = []" "\<not> current_conn s" "off_timer s = Some 20"
    "\<not> adv_window_open s" "\<not> advertising s"
    by (simp add: adv_exec_window_out adv_boot_def adv_defs)
  moreover have "ticks_since_press ?es = 0" by (simp add: ticks_since_press_def)
  ultimately show ?thesis using adv_exec_runs [OF s(1)] by blast
qed

end
