(* ===== verification/Ble_Session.thy ===== *)
theory Ble_Session
  imports Ble_Adv
begin

text \<open>
  The dump thread of src/src/ble.c beside the callbacks, which run between any two of its calls
  and change the connection it works on: who holds a reference to the connection object, whose
  notifications a dump sends, and what a disconnection does to it. The thread is the dump of
  the theory Ble, run over a link whose state is that of the theory Ble_Adv. Proved here: the
  references balance; a dump that nobody disconnects uses a live object throughout, all of
  its notifications go to the one reader, and it ends well if the stack refuses only for want of
  buffers; after a disconnection it ends within one
  notification; and what the missing reference of its own admits.
\<close>

section \<open>What runs beside the thread\<close>

text \<open>The events of Ble_Adv, and a reader's writes to the control characteristic and the CCC.\<close>

datatype outside = Cb event | Write bytes u16 | Subscribe u16

inductive node_step :: "adv \<Rightarrow> outside list \<Rightarrow> adv \<Rightarrow> bool" where
  Cb: "adv_step s [ev] t \<Longrightarrow> node_step s [Cb ev] t"
| Write: "current_conn s \<Longrightarrow> node_step s [Write buf at] (snd (ctrl_write buf at s))"
| Subscribe: "current_conn s \<Longrightarrow> node_step s [Subscribe v] (ccc_changed v s)"

inductive_cases node_step_cases: "node_step s os t"

text \<open>
  The references to the object: while a connection is up, the stack's and the one of
  \<open>current_conn\<close>; otherwise none.
\<close>

definition conn_inv :: "adv \<Rightarrow> bool" where
  "conn_inv s \<longleftrightarrow> conn_refs s = (if current_conn s then 2 else 0) \<and> (notify_enabled s \<longrightarrow> current_conn s) \<and>
     dump_req s \<le> 1"

lemma conn_boot: "conn_inv adv_boot"
  by (simp add: conn_inv_def adv_boot_def)

lemma ctrl_write_sel [simp]:
  "current_conn (snd (ctrl_write buf at s)) = current_conn s"
  "notify_enabled (snd (ctrl_write buf at s)) = notify_enabled s"
  "conn_refs (snd (ctrl_write buf at t)) = conn_refs t"
  by (simp_all add: ctrl_write_def split: option.splits)

lemma ctrl_write_req: "dump_req s \<le> 1 \<Longrightarrow> dump_req (snd (ctrl_write buf at s)) \<le> 1"
  by (simp add: ctrl_write_def split: option.splits)

lemma conn_adv_step: "adv_step s es t \<Longrightarrow> conn_inv s \<Longrightarrow> conn_inv t"
  by (cases rule: adv_step.cases, assumption) (auto simp: conn_inv_def adv_defs split: if_splits)

lemma conn_step: "node_step s os t \<Longrightarrow> conn_inv s \<Longrightarrow> conn_inv t"
  by (cases rule: node_step.cases, assumption)
    (auto simp: ccc_changed_def ctrl_write_req [simplified] conn_inv_def dest!: conn_adv_step)

text \<open>
  C31: the references balance: in every state of every interleaving of the callbacks, the timer, the
  work queue and the reader's writes, the node holds one reference to the connection object
  while \<open>current_conn\<close> is set, beside the stack's own, and none otherwise; notifications are enabled
  only for a reader that is connected; at most one request is pending.
\<close>

theorem conn_refs_balanced:
  assumes "runs node_step adv_boot os s"
  shows "conn_refs s = (if current_conn s then 2 else 0) \<and> (notify_enabled s \<longrightarrow> current_conn s) \<and> dump_req s \<le> 1"
  using runs_invariant [where P = conn_inv, OF assms conn_boot conn_step] by (simp add: conn_inv_def)

section \<open>Following a dump\<close>

text \<open>
  What a dump does to the state of its link, followed from call to call: \<open>Q\<close> relates the
  notifications made so far to the state as long as none has failed, \<open>R\<close> once one has.
\<close>

locale tracked_link =
  fixes lk :: "'e link" and Q R :: "(bytes \<times> int) list \<Rightarrow> 'e \<Rightarrow> bool"
  assumes get: "Q snt e \<Longrightarrow> lk_get lk seq e = (g, r, e') \<Longrightarrow> Q snt e'"
    and notified: "Q snt e \<Longrightarrow> lk_notify lk data e = (err, e') \<Longrightarrow> 0 \<le> err \<Longrightarrow> Q (snt @ [(data, err)]) e'"
    and failed: "Q snt e \<Longrightarrow> lk_notify lk data e = (err, e') \<Longrightarrow> err < 0 \<Longrightarrow> err \<noteq> - ENOMEM \<Longrightarrow>
          R (snt @ [(data, err)]) e'"
    and retried: "Q snt e \<Longrightarrow> lk_notify lk data e = (- ENOMEM, e') \<Longrightarrow> lk_connected lk (lk_msleep lk 2 e') \<Longrightarrow>
          Q snt (lk_msleep lk 2 e')"
    and gave_up: "Q snt e \<Longrightarrow> lk_notify lk data e = (- ENOMEM, e') \<Longrightarrow> \<not> lk_connected lk (lk_msleep lk 2 e') \<Longrightarrow>
          R (snt @ [(data, - ENOTCONN)]) (lk_msleep lk 2 e')"
begin

lemma chunk_tracked:
  assumes "notify_chunk lk data e = Some (err, e')" and "Q snt e"
  shows "(if 0 \<le> err then Q else R) (snt @ [(data, err)]) e'"
proof -
  let ?P = "\<lambda>data e x. (0 \<le> fst x \<longrightarrow> Q (snt @ [(data, fst x)]) (snd x)) \<and>
    (fst x < 0 \<longrightarrow> R (snt @ [(data, fst x)]) (snd x))"
  have "lk = lk \<longrightarrow> Q snt e \<longrightarrow> ?P data e (err, e')"
  proof (rule notify_chunk.raw_induct [OF _ assms(1), where P = "\<lambda>l data e x. l = lk \<longrightarrow> Q snt e \<longrightarrow> ?P data e x"])
    fix rec l data e x
    assume IH: "\<And>l data e y. rec l data e = Some y \<Longrightarrow> l = lk \<longrightarrow> Q snt e \<longrightarrow> ?P data e y"
      and body: "(case lk_notify l data e of (err, e) \<Rightarrow>
          if err = - ENOMEM
          then let e = lk_msleep l 2 e in if \<not> lk_connected l e then Some (- ENOTCONN, e) else rec l data e
          else Some (err, e)) = Some x"
    obtain er e1 where n: "lk_notify l data e = (er, e1)" by fastforce
    show "l = lk \<longrightarrow> Q snt e \<longrightarrow> ?P data e x"
    proof (cases "er = - ENOMEM \<and> lk_connected l (lk_msleep l 2 e1)")
      case True
      then show ?thesis using body n IH [of l data "lk_msleep l 2 e1" x] retried [of snt e data e1] by auto
    next
      case False
      then have "x = (if er = - ENOMEM then (- ENOTCONN, lk_msleep l 2 e1) else (er, e1))"
        using body n by (simp split: if_splits)
      then show ?thesis
        using n False notified [of snt e data er e1] failed [of snt e data er e1] gave_up [of snt e data e1]
        by auto
    qed
  qed
  then show ?thesis using assms(2) by simp
qed

lemma flush_tracked:
  assumes "dump_flush lk d e = Some (err, d', e')" and "Q (d_sent d) e"
  shows "(if 0 \<le> err then Q else R) (d_sent d') e'"
  using assms chunk_tracked [of _ e err] by (auto simp: dump_flush_def Let_def)

lemma put_sent: "dump_put r d = Some d' \<Longrightarrow> d_sent d' = d_sent d"
  by (auto simp: dump_put_def)

lemma loop_tracked:
  assumes "dump_loop lk chunk stop seq d e = Some (ok, d', e')" and "Q (d_sent d) e"
  shows "(if ok then Q else R) (d_sent d') e'"
  using assms
proof (induction "unat stop - unat seq" arbitrary: seq d e rule: less_induct)
  case less
  show ?case
  proof (cases "seq < stop")
    case False
    then show ?thesis using less.prems by (subst (asm) dump_loop.simps) simp
  next
    case True
    have dec: "unat stop - unat (seq + 1) < unat stop - unat seq"
      using unat_Suc_word [OF True] True by (simp add: word_nat)
    obtain g r e1 where g: "lk_get lk seq e = (g, r, e1)" by (cases "lk_get lk seq e") auto
    note q1 = get [OF less.prems(2) g]
    let ?r = "if g \<noteq> 0 then placeholder seq else r"
    note loop = less.prems(1) [unfolded dump_loop.simps [of lk chunk stop seq d e]]
    show ?thesis
    proof (cases "d_fill d + SNTL_RECORD_SIZE > chunk")
      case full: True
      then obtain err d1 e2 where f: "dump_flush lk d e1 = Some (err, d1, e2)"
        using loop True g by (auto split: option.splits prod.splits)
      note fl = flush_tracked [OF f q1]
      show ?thesis
      proof (cases "err < 0")
        case True
        then show ?thesis using loop \<open>seq < stop\<close> g full f fl by simp
      next
        case False
        then obtain d2 where "dump_put ?r d1 = Some d2" "dump_loop lk chunk stop (seq + 1) d2 e2 = Some (ok, d', e')"
          using loop \<open>seq < stop\<close> g full f by (auto split: option.splits)
        then show ?thesis using less.hyps [OF dec] put_sent fl False by auto
      qed
    next
      case False
      then obtain d2 where "dump_put ?r d = Some d2" "dump_loop lk chunk stop (seq + 1) d2 e1 = Some (ok, d', e')"
        using loop True g by (auto split: option.splits)
      then show ?thesis using less.hyps [OF dec] put_sent q1 by auto
    qed
  qed
qed

lemma tail_tracked:
  assumes "dump_tail lk chunk d e = Some (ok, d', e')" and "Q (d_sent d) e"
  shows "(if ok then Q else R) (d_sent d') e'"
proof -
  obtain err d1 e1 where c: "(if d_fill d + SNTL_CRC_SIZE > chunk then dump_flush lk d e else Some (0, d, e)) = Some (err, d1, e1)"
    using assms(1) by (auto simp: dump_tail_def split: option.splits)
  have q: "(if 0 \<le> err then Q else R) (d_sent d1) e1"
    using c assms(2) flush_tracked [of d e err d1 e1] by (auto split: if_splits)
  show ?thesis
  proof (cases "err < 0")
    case True
    then show ?thesis using assms(1) c q by (simp add: dump_tail_def)
  next
    case False
    then obtain b err2 where "dump_flush lk (d1\<lparr>d_buf := b, d_fill := d_fill d1 + SNTL_CRC_SIZE\<rparr>) e1 = Some (err2, d', e')"
        "ok \<longleftrightarrow> 0 \<le> err2"
      using assms(1) c by (auto simp: dump_tail_def split: option.splits)
    then show ?thesis using flush_tracked q False by fastforce
  qed
qed

lemma run_tracked:
  assumes "dump_run lk dev junk first e = Some (ok, d, e')" and "lk_bounds lk e = (oldest, nxt, e0)" and "Q [] e0"
  shows "(if ok then Q else R) (d_sent d) e'"
proof -
  obtain count start where r: "sntl_dump_range first oldest nxt = (count, start)" by fastforce
  obtain d0 d1 e1 ok1 where l: "dump_loop lk (chunk_size (lk_mtu lk e0)) (start + ucast count) start d0 e0 = Some (ok1, d1, e1)"
    and d0: "d_sent d0 = []" and rest: "if ok1 then dump_tail lk (chunk_size (lk_mtu lk e0)) d1 e1 = Some (ok, d, e')
      else (ok, d, e') = (False, d1, e1)"
    using assms(1,2) r by (auto simp: dump_run_def Let_def split: option.splits if_splits)
  have "(if ok1 then Q else R) (d_sent d1) e1" using loop_tracked [OF l] d0 assms(3) by simp
  then show ?thesis using rest tail_tracked [of _ d1 e1 ok d e'] by (auto split: if_splits)
qed

end

section \<open>The thread in its system\<close>

text \<open>
  The state around the thread: that of Ble_Adv, what runs before each of its calls, what the stack
  answers to notifications on a live connection (a finite list, 0 when it is used up, so it
  refuses a finite number of times), the number of
  connections so far, and two ghosts: for each call with the connection whether the object was
  live, and the notifications taken over by the stack, each with the connection it went to.
\<close>

record sys =
  sy_adv :: adv
  sy_todo :: "outside list list"
  sy_answers :: "int list"
  sy_session :: nat
  sy_uses :: "bool list"
  sy_heard :: "(nat \<times> bytes) list"

text \<open>An event that is not enabled does not happen.\<close>

fun outside_step :: "outside \<Rightarrow> adv \<Rightarrow> adv" where
  "outside_step (Cb ev) s = (case adv_exec [ev] s of None \<Rightarrow> s | Some t \<Rightarrow> t)"
| "outside_step (Write buf at) s = (if current_conn s then snd (ctrl_write buf at s) else s)"
| "outside_step (Subscribe v) s = (if current_conn s then ccc_changed v s else s)"

fun happen :: "outside list \<Rightarrow> adv \<times> nat \<Rightarrow> adv \<times> nat" where
  "happen [] x = x"
| "happen (ev # evs) (s, n) =
     (let t = outside_step ev s in happen evs (t, if \<not> current_conn s \<and> current_conn t then n + 1 else n))"

definition pass :: "sys \<Rightarrow> sys" where
  "pass e =
     (case sy_todo e of [] \<Rightarrow> e
      | evs # todo \<Rightarrow>
          let (s, n) = happen evs (sy_adv e, sy_session e) in e\<lparr>sy_adv := s, sy_session := n, sy_todo := todo\<rparr>)"

definition use_conn :: "sys \<Rightarrow> sys" where
  "use_conn e = e\<lparr>sy_uses := sy_uses e @ [0 < conn_refs (sy_adv e)]\<rparr>"

text \<open>
  The stack refuses a notification without a connection, as documented. \<open>bt_gatt_get_mtu\<close>, which
  comes right after the bounds, uses the connection too.
\<close>

definition sys_notify :: "bytes \<Rightarrow> sys \<Rightarrow> int \<times> sys" where
  "sys_notify data e =
     (let e = use_conn (pass e) in
      if \<not> current_conn (sy_adv e) then (- ENOTCONN, e)
      else let err = (case sy_answers e of [] \<Rightarrow> 0 | a # as \<Rightarrow> a); e = e\<lparr>sy_answers := tl (sy_answers e)\<rparr> in
           (err, if 0 \<le> err then e\<lparr>sy_heard := sy_heard e @ [(sy_session e, data)]\<rparr> else e))"

definition sys_link :: "u16 \<Rightarrow> u32 \<Rightarrow> u32 \<Rightarrow> (u32 \<Rightarrow> int \<times> sntl_record) \<Rightarrow> sys link" where
  "sys_link mtu oldest nxt get =
     \<lparr>lk_mtu = (\<lambda>e. mtu), lk_notify = sys_notify, lk_connected = (\<lambda>e. current_conn (sy_adv e)),
      lk_msleep = (\<lambda>n e. pass e), lk_bounds = (\<lambda>e. (oldest, nxt, use_conn (pass e))),
      lk_get = (\<lambda>seq e. (fst (get seq), snd (get seq), pass e))\<rparr>"

lemma sys_link_sel [simp]:
  "lk_mtu (sys_link mtu oldest nxt get) e = mtu" "lk_notify (sys_link mtu oldest nxt get) = sys_notify"
  "lk_connected (sys_link mtu oldest nxt get) e = current_conn (sy_adv e)"
  "lk_msleep (sys_link mtu oldest nxt get) n e = pass e"
  "lk_bounds (sys_link mtu oldest nxt get) e = (oldest, nxt, use_conn (pass e))"
  "lk_get (sys_link mtu oldest nxt get) seq e = (fst (get seq), snd (get seq), pass e)"
  by (simp_all add: sys_link_def)

text \<open>The whole turn, with the two reads of \<open>current_conn\<close> and what runs between them.\<close>

datatype turn = Skipped | Null_Conn | Dumped bool dump

definition sys_turn :: "sys link \<Rightarrow> bytes \<Rightarrow> bytes \<Rightarrow> sys \<Rightarrow> (turn \<times> sys) option" where
  "sys_turn lk device_id junk e =
     (let s = sy_adv e in
      if dump_req s = 0 then None
      else let e = e\<lparr>sy_adv := s\<lparr>dump_req := dump_req s - 1\<rparr>\<rparr> in
           if current_conn s \<and> notify_enabled s
           then let e = pass e; s = sy_adv e in
                if \<not> current_conn s then Some (Null_Conn, e)
                else map_option (\<lambda>(ok, d, e). (Dumped ok d, e)) (dump_run lk device_id junk (dump_first_seq s) e)
           else Some (Skipped, e))"

section \<open>What the events leave alone\<close>

lemma adv_exec_one: "adv_exec [ev] s = Some t \<Longrightarrow> adv_step s [ev] t"
  by (cases ev) (auto split: if_splits list.splits work.splits intro: adv_step.intros adv_step.Tick [simplified])

lemma outside_step_node: "outside_step ev s = s \<or> node_step s [ev] (outside_step ev s)"
  by (cases ev) (auto split: option.splits intro: node_step.intros adv_exec_one)

lemma outside_conn: "conn_inv s \<Longrightarrow> conn_inv (outside_step ev s)"
  using outside_step_node [of ev s] conn_step by force

text \<open>Only a connection or a disconnection changes who is connected.\<close>

lemma outside_keeps:
  "current_conn s \<Longrightarrow> ev \<noteq> Cb Disconnect \<Longrightarrow> current_conn (outside_step ev s)"
  "\<not> current_conn s \<Longrightarrow> \<forall>err. Cb (Connect err) \<noteq> ev \<Longrightarrow> \<not> current_conn (outside_step ev s)"
  using outside_step_node [of ev s]
  by (auto simp: adv_defs ccc_changed_def elim!: node_step_cases adv_step_cases split: if_splits)

lemma happen_conn: "conn_inv (fst x) \<Longrightarrow> conn_inv (fst (happen evs x))"
  by (induction evs x rule: happen.induct) (auto simp: Let_def outside_conn)

lemma happen_stays:
  "current_conn (fst x) \<Longrightarrow> Cb Disconnect \<notin> set evs \<Longrightarrow>
   current_conn (fst (happen evs x)) \<and> snd (happen evs x) = snd x"
  by (induction evs x rule: happen.induct) (auto simp: Let_def outside_keeps)

lemma happen_no_new:
  "\<forall>err. Cb (Connect err) \<notin> set evs \<Longrightarrow>
   (current_conn (fst (happen evs x)) \<longrightarrow> current_conn (fst x)) \<and> snd (happen evs x) = snd x"
  by (induction evs x rule: happen.induct) (auto simp: Let_def outside_keeps)

lemma pass_sel:
  "sy_answers (pass e) = sy_answers e" "sy_uses (pass e) = sy_uses e" "sy_heard (pass e) = sy_heard e"
  "set (sy_todo (pass e)) \<subseteq> set (sy_todo e)"
  "conn_inv (sy_adv e) \<Longrightarrow> conn_inv (sy_adv (pass e))"
  using happen_conn [of "(sy_adv e, sy_session e)" "hd (sy_todo e)"]
  by (auto simp: pass_def split: list.splits prod.splits)

lemma pass_todo: "evs \<in> set (sy_todo (pass e)) \<Longrightarrow> evs \<in> set (sy_todo e)"
  using pass_sel(4) by blast

lemma pass_stays:
  assumes "current_conn (sy_adv e)" and "\<forall>evs \<in> set (sy_todo e). Cb Disconnect \<notin> set evs"
  shows "current_conn (sy_adv (pass e))" and "sy_session (pass e) = sy_session e"
  using assms happen_stays [of "(sy_adv e, sy_session e)" "hd (sy_todo e)"]
  by (auto simp: pass_def split: list.splits prod.splits)

lemma pass_no_new:
  assumes "\<forall>evs \<in> set (sy_todo e). \<forall>err. Cb (Connect err) \<notin> set evs"
  shows "current_conn (sy_adv (pass e)) \<Longrightarrow> current_conn (sy_adv e)" and "sy_session (pass e) = sy_session e"
  using assms happen_no_new [of "hd (sy_todo e)" "(sy_adv e, sy_session e)"]
  by (auto simp: pass_def split: list.splits prod.splits)

lemma use_sel [simp]:
  "sy_adv (use_conn e) = sy_adv e" "sy_todo (use_conn e) = sy_todo e" "sy_answers (use_conn e) = sy_answers e"
  "sy_session (use_conn e) = sy_session e" "sy_heard (use_conn e) = sy_heard e"
  "conn_inv (sy_adv e) \<Longrightarrow> sy_uses (use_conn e) = sy_uses e @ [current_conn (sy_adv e)]"
  by (simp_all add: use_conn_def conn_inv_def)

lemma notify_cases:
  assumes "sys_notify data e = (err, e')"
  obtains (down) "\<not> current_conn (sy_adv (pass e))" and "err = - ENOTCONN" and "e' = use_conn (pass e)"
  | (up) "current_conn (sy_adv (pass e))"
      and "e' = (use_conn (pass e))\<lparr>sy_answers := tl (sy_answers e),
             sy_heard := sy_heard e @ (if 0 \<le> err then [(sy_session (pass e), data)] else [])\<rparr>"
      and "err \<noteq> 0 \<longrightarrow> sy_answers e \<noteq> []"
  using assms by (auto simp: sys_notify_def Let_def pass_sel split: if_splits list.splits)

lemma sys_drains: "link_drains (sys_link mtu oldest nxt get) (\<lambda>e. length (sy_answers e))"
  by (auto simp: link_drains_def pass_sel elim!: notify_cases)

section \<open>A dump that nobody disconnects\<close>

text \<open>
  What holds at every call of such a dump, which began in the connection \<open>n\<close> with the ghosts \<open>us\<close>
  and \<open>hs\<close>.
\<close>

definition with_reader :: "nat \<Rightarrow> bool list \<Rightarrow> (nat \<times> bytes) list \<Rightarrow> (bytes \<times> int) list \<Rightarrow> sys \<Rightarrow> bool" where
  "with_reader n us hs snt e \<longleftrightarrow>
     conn_inv (sy_adv e) \<and> current_conn (sy_adv e) \<and> (\<forall>evs \<in> set (sy_todo e). Cb Disconnect \<notin> set evs) \<and>
     sy_session e = n \<and> (\<exists>k. sy_uses e = us @ replicate k True) \<and>
     sy_heard e = hs @ map (\<lambda>x. (n, fst x)) (filter (\<lambda>x. 0 \<le> snd x) snt)"

lemma reader_pass: "with_reader n us hs snt e \<Longrightarrow> with_reader n us hs snt (pass e)"
  by (auto simp: with_reader_def pass_sel pass_stays dest: pass_todo)

lemma reader_use: "with_reader n us hs snt e \<Longrightarrow> with_reader n us hs snt (use_conn e)"
  by (auto simp: with_reader_def replicate_append_same intro: exI [of _ "Suc k" for k])

lemma reader_notify:
  assumes "with_reader n us hs snt e" and "sys_notify data e = (err, e')"
  shows "with_reader n us hs (snt @ [(data, err)]) e'" and "err < 0 \<Longrightarrow> with_reader n us hs snt e'"
proof -
  note r = reader_use [OF reader_pass [OF assms(1)]]
  have "with_reader n us hs (snt @ [(data, err)]) e' \<and> (err < 0 \<longrightarrow> with_reader n us hs snt e')"
    using assms(2)
  proof (cases rule: notify_cases)
    case down
    then show ?thesis using r by (simp add: with_reader_def)
  next
    case up
    then show ?thesis using r by (auto simp: with_reader_def pass_sel(1-3))
  qed
  then show "with_reader n us hs (snt @ [(data, err)]) e'" "err < 0 \<Longrightarrow> with_reader n us hs snt e'" by simp_all
qed

lemma reader_conn: "with_reader n us hs snt e \<Longrightarrow> current_conn (sy_adv e)"
  by (simp add: with_reader_def)

text \<open>
  A stack that refuses a notification on a live connection only for want of buffers, which the
  thread waits for.
\<close>

definition patient :: "sys \<Rightarrow> bool" where
  "patient e \<longleftrightarrow> (\<forall>a \<in> set (sy_answers e). 0 \<le> a \<or> a = - ENOMEM)"

lemma patient_pass [simp]: "patient (pass e) = patient e"
  by (simp add: patient_def pass_sel)

lemma patient_notify:
  assumes "patient e" and "sys_notify data e = (err, e')" and "current_conn (sy_adv (pass e))"
  shows "patient e'" and "err < 0 \<Longrightarrow> err = - ENOMEM"
  using assms by (auto simp: patient_def sys_notify_def Let_def pass_sel split: if_splits list.splits)

interpretation read: tracked_link "sys_link mtu oldest nxt get"
  "\<lambda>snt e. with_reader n us hs snt e \<and> (\<forall>x \<in> set snt. 0 \<le> snd x) \<and> (p \<longrightarrow> patient e)"
  "\<lambda>snt e. with_reader n us hs snt e \<and> \<not> p"
  for mtu oldest nxt get n us hs p
proof unfold_locales
  fix snt e data err e'
  assume r: "with_reader n us hs snt e \<and> (\<forall>x \<in> set snt. 0 \<le> snd x) \<and> (p \<longrightarrow> patient e)"
  note live = reader_conn [OF reader_pass [OF conjunct1 [OF r]]]
  show "lk_notify (sys_link mtu oldest nxt get) data e = (err, e') \<Longrightarrow> 0 \<le> err \<Longrightarrow>
      with_reader n us hs (snt @ [(data, err)]) e' \<and> (\<forall>x \<in> set (snt @ [(data, err)]). 0 \<le> snd x) \<and> (p \<longrightarrow> patient e')"
    using r reader_notify(1) patient_notify(1) [OF _ _ live] by auto
  show "lk_notify (sys_link mtu oldest nxt get) data e = (err, e') \<Longrightarrow> err < 0 \<Longrightarrow> err \<noteq> - ENOMEM \<Longrightarrow>
      with_reader n us hs (snt @ [(data, err)]) e' \<and> \<not> p"
    using r reader_notify(1) patient_notify(2) [OF _ _ live] by auto
  assume n: "lk_notify (sys_link mtu oldest nxt get) data e = (- ENOMEM, e')"
  then have w: "with_reader n us hs snt (pass e')" using r by (auto dest: reader_notify(2) reader_pass)
  then show "with_reader n us hs snt (lk_msleep (sys_link mtu oldest nxt get) 2 e') \<and> (\<forall>x \<in> set snt. 0 \<le> snd x) \<and>
      (p \<longrightarrow> patient (lk_msleep (sys_link mtu oldest nxt get) 2 e'))"
    using r n patient_notify(1) [OF _ _ live] by auto
  show "\<not> lk_connected (sys_link mtu oldest nxt get) (lk_msleep (sys_link mtu oldest nxt get) 2 e') \<Longrightarrow>
      with_reader n us hs (snt @ [(data, - ENOTCONN)]) (lk_msleep (sys_link mtu oldest nxt get) 2 e') \<and> \<not> p"
    using reader_conn [OF w] by simp
qed (auto dest: reader_pass)

text \<open>A store that answers with the record asked for.\<close>

definition gets_own :: "(u32 \<Rightarrow> int \<times> sntl_record) \<Rightarrow> bool" where
  "gets_own get \<longleftrightarrow> (\<forall>seq. fst (get seq) = 0 \<longrightarrow> rec_seq (snd (get seq)) = seq)"

lemma sys_gets: "gets_own get \<Longrightarrow> link_gets (sys_link mtu oldest nxt get)"
  by (auto simp: link_gets_def gets_own_def)

lemma run_to_one_reader:
  assumes "conn_inv (sy_adv e)" and "current_conn (sy_adv e)"
    and "\<forall>evs \<in> set (sy_todo e). Cb Disconnect \<notin> set evs"
    and "gets_own get" and "length junk = 244" and range: "sntl_dump_range first oldest nxt = (count, start)"
  shows "\<exists>ok d e'. dump_run (sys_link mtu oldest nxt get) dev junk first e = Some (ok, d, e') \<and>
    (\<exists>k. sy_uses e' = sy_uses e @ replicate k True) \<and>
    (\<exists>cs. sy_heard e' = sy_heard e @ map (Pair (sy_session e)) cs \<and>
       (ok \<longrightarrow> decode_frame (concat cs) = Some (copy_id SNTL_DEVICE_ID_LEN dev, d_recs d) \<and>
          map (unat \<circ> rec_seq) (d_recs d) = [unat start ..< unat start + unat count])) \<and>
    (patient e \<longrightarrow> ok)"
proof -
  let ?lk = "sys_link mtu oldest nxt get"
  obtain ok d e' where d: "dump_run ?lk dev junk first e = Some (ok, d, e')"
    using run_returns [OF sys_drains assms(5)] by (metis prod_cases3)
  have "with_reader (sy_session e) (sy_uses e) (sy_heard e) [] (use_conn (pass e))"
    using assms(1-3) by (intro reader_use reader_pass) (simp add: with_reader_def)
  moreover have "patient (use_conn (pass e)) = patient e" by (simp add: patient_def pass_sel)
  ultimately have w: "(if ok then \<lambda>snt e'. with_reader (sy_session e) (sy_uses e) (sy_heard e) snt e' \<and>
        (\<forall>x \<in> set snt. 0 \<le> snd x) \<and> (patient e \<longrightarrow> patient e')
      else (\<lambda>snt e'. with_reader (sy_session e) (sy_uses e) (sy_heard e) snt e' \<and> \<not> patient e)) (d_sent d) e'"
    by (intro read.run_tracked [OF d sys_link_sel(5)]) simp
  then have w: "with_reader (sy_session e) (sy_uses e) (sy_heard e) (d_sent d) e'"
    "ok \<longrightarrow> (\<forall>x \<in> set (d_sent d). 0 \<le> snd x)" "patient e \<longrightarrow> ok"
    by (auto split: if_splits)
  let ?cs = "map fst (filter (\<lambda>x. 0 \<le> snd x) (d_sent d))"
  have "ok \<longrightarrow> decode_frame (concat ?cs) = Some (copy_id SNTL_DEVICE_ID_LEN dev, d_recs d) \<and>
      map (unat \<circ> rec_seq) (d_recs d) = [unat start ..< unat start + unat count]"
    using run_decodes [OF sys_gets [OF assms(4)] assms(5) sys_link_sel(5) range] d w(2) by (auto simp: filter_id_conv)
  moreover have "sy_heard e' = sy_heard e @ map (Pair (sy_session e)) ?cs" "\<exists>k. sy_uses e' = sy_uses e @ replicate k True"
    using w(1) by (simp_all add: with_reader_def comp_def)
  ultimately show ?thesis using d w(3) by blast
qed

text \<open>
  C29: a reader who asked and stays gets the frame: when the reader is connected and subscribed, a
  request is pending, and nobody disconnects, then however the other callbacks interleave the
  dump thread dumps and comes back; it uses a live connection object throughout, and all of its
  notifications go to that reader. When the stack refuses notifications for want of buffers
  only, and a finite number of times, the dump ends well, and whenever it ends well the
  notifications are one frame that a checking reader accepts, with one record for each number
  of the range that the last request before the start asked for (over a store that answers a
  successful read with the record of the number asked for).
\<close>

theorem dump_to_one_reader:
  assumes "runs node_step adv_boot os (sy_adv e)" and "current_conn (sy_adv e)" and "notify_enabled (sy_adv e)"
    and "0 < dump_req (sy_adv e)" and "\<forall>evs \<in> set (sy_todo e). Cb Disconnect \<notin> set evs"
    and "gets_own get" and "length junk = 244"
    and "e1 = pass (e\<lparr>sy_adv := (sy_adv e)\<lparr>dump_req := dump_req (sy_adv e) - 1\<rparr>\<rparr>)"
    and "sntl_dump_range (dump_first_seq (sy_adv e1)) oldest nxt = (count, start)"
  shows "\<exists>ok d e'. sys_turn (sys_link mtu oldest nxt get) dev junk e = Some (Dumped ok d, e') \<and>
    (\<exists>k. sy_uses e' = sy_uses e @ replicate k True) \<and>
    (\<exists>cs. sy_heard e' = sy_heard e @ map (Pair (sy_session e)) cs \<and>
       (ok \<longrightarrow> decode_frame (concat cs) = Some (copy_id SNTL_DEVICE_ID_LEN dev, d_recs d) \<and>
          map (unat \<circ> rec_seq) (d_recs d) = [unat start ..< unat start + unat count])) \<and>
    ((\<forall>a \<in> set (sy_answers e). 0 \<le> a \<or> a = - ENOMEM) \<longrightarrow> ok)"
proof -
  let ?e1 = "e\<lparr>sy_adv := (sy_adv e)\<lparr>dump_req := dump_req (sy_adv e) - 1\<rparr>\<rparr>"
  have "conn_inv (sy_adv e)" using runs_invariant [where P = conn_inv, OF assms(1) conn_boot conn_step] .
  then have i: "conn_inv (sy_adv ?e1)" by (auto simp: conn_inv_def)
  have c: "current_conn (sy_adv ?e1)" "\<forall>evs \<in> set (sy_todo ?e1). Cb Disconnect \<notin> set evs" using assms(2,5) by simp_all
  have t: "\<forall>evs \<in> set (sy_todo e1). Cb Disconnect \<notin> set evs" using c(2) assms(8) by (auto dest: pass_todo)
  have same: "sy_uses e1 = sy_uses e" "sy_heard e1 = sy_heard e" "sy_session e1 = sy_session e"
    "patient e1 = (\<forall>a \<in> set (sy_answers e). 0 \<le> a \<or> a = - ENOMEM)"
    using pass_stays(2) [OF c] assms(8) by (simp_all add: pass_sel patient_def)
  have "sys_turn lk dev junk e =
      map_option (\<lambda>(ok, d, e). (Dumped ok d, e)) (dump_run lk dev junk (dump_first_seq (sy_adv e1)) e1)" for lk
    using assms(2-4,8) pass_stays(1) [OF c] by (simp add: sys_turn_def Let_def)
  moreover have "conn_inv (sy_adv e1)" "current_conn (sy_adv e1)"
    using pass_sel(5) [OF i] pass_stays(1) [OF c] assms(8) by simp_all
  from run_to_one_reader [OF this t assms(6,7,9), of mtu dev] obtain ok d e' where
    "dump_run (sys_link mtu oldest nxt get) dev junk (dump_first_seq (sy_adv e1)) e1 = Some (ok, d, e')"
    "\<exists>k. sy_uses e' = sy_uses e @ replicate k True"
    "\<exists>cs. sy_heard e' = sy_heard e @ map (Pair (sy_session e)) cs \<and>
       (ok \<longrightarrow> decode_frame (concat cs) = Some (copy_id SNTL_DEVICE_ID_LEN dev, d_recs d) \<and>
          map (unat \<circ> rec_seq) (d_recs d) = [unat start ..< unat start + unat count])"
    "(\<forall>a \<in> set (sy_answers e). 0 \<le> a \<or> a = - ENOMEM) \<longrightarrow> ok"
    unfolding same by blast
  ultimately show ?thesis by (intro exI [of _ ok] exI [of _ d] exI [of _ e']) simp
qed

section \<open>A dump that is disconnected\<close>

text \<open>
  What holds while no central connects anew: every use of the connection so far was of a live
  object, but for the MTU of a dump that lost its reader before its first call; and what holds
  once a notification has failed.
\<close>

definition sending :: "nat \<Rightarrow> bool list \<Rightarrow> (nat \<times> bytes) list \<Rightarrow> (bytes \<times> int) list \<Rightarrow> sys \<Rightarrow> bool" where
  "sending n us hs snt e \<longleftrightarrow>
     conn_inv (sy_adv e) \<and> (\<forall>evs \<in> set (sy_todo e). \<forall>err. Cb (Connect err) \<notin> set evs) \<and>
     sy_session e = n \<and> (\<exists>cs. sy_heard e = hs @ map (Pair n) cs) \<and>
     ((\<exists>k. sy_uses e = us @ replicate k True) \<or>
      snt = [] \<and> sy_uses e = us @ [False] \<and> \<not> current_conn (sy_adv e))"

definition stopped :: "nat \<Rightarrow> bool list \<Rightarrow> (nat \<times> bytes) list \<Rightarrow> (bytes \<times> int) list \<Rightarrow> sys \<Rightarrow> bool" where
  "stopped n us hs snt e \<longleftrightarrow>
     (\<exists>cs. sy_heard e = hs @ map (Pair n) cs) \<and>
     (\<exists>k j. sy_uses e = us @ replicate k True @ replicate j False \<and> j \<le> 2)"

lemma sending_pass: "sending n us hs snt e \<Longrightarrow> sending n us hs snt (pass e)"
  by (auto simp: sending_def pass_sel pass_no_new dest: pass_todo)

lemma sending_stopped: "sending n us hs snt e \<Longrightarrow> stopped n us hs snt' e"
proof -
  have "us @ [False] = us @ replicate 0 True @ replicate 1 False" by simp
  moreover have "us @ replicate k True = us @ replicate k True @ replicate 0 False" for k by simp
  ultimately show "sending n us hs snt e \<Longrightarrow> stopped n us hs snt' e"
    unfolding sending_def stopped_def by (metis one_le_numeral zero_le)
qed

lemma sending_down:
  assumes "sending n us hs snt e" and "\<not> current_conn (sy_adv e)"
  shows "stopped n us hs snt' (use_conn e)"
proof -
  have u: "sy_uses (use_conn e) = sy_uses e @ [False]" using assms by (simp add: sending_def)
  consider k where "sy_uses e = us @ replicate k True" | "sy_uses e = us @ [False]"
    using assms(1) by (auto simp: sending_def)
  then have "\<exists>k j. sy_uses e @ [False] = us @ replicate k True @ replicate j False \<and> j \<le> 2"
  proof cases
    case (1 k)
    then have "sy_uses e @ [False] = us @ replicate k True @ replicate 1 False" by simp
    then show ?thesis by (meson one_le_numeral)
  next
    case 2
    then have "sy_uses e @ [False] = us @ replicate 0 True @ replicate 2 False" by (simp add: numeral_2_eq_2)
    then show ?thesis by blast
  qed
  then show ?thesis using u assms(1) by (simp add: stopped_def sending_def)
qed

lemma sending_up:
  assumes "sending n us hs snt e" and "current_conn (sy_adv e)"
  shows "sending n us hs snt' (use_conn e)"
proof -
  obtain k where "sy_uses e = us @ replicate k True" using assms by (auto simp: sending_def)
  then have "\<exists>k. sy_uses e @ [True] = us @ replicate k True"
    by (intro exI [of _ "Suc k"]) (simp add: replicate_append_same)
  moreover have "sy_uses (use_conn e) = sy_uses e @ [True]" using assms by (simp add: sending_def)
  ultimately show ?thesis using assms(1) by (simp add: sending_def)
qed

lemma sending_notify:
  assumes "sending n us hs snt e" and "sys_notify data e = (err, e')"
  shows "err \<noteq> - ENOTCONN \<Longrightarrow> sending n us hs snt' e'" and "stopped n us hs snt' e'"
proof -
  note p = sending_pass [OF assms(1)]
  have "(err \<noteq> - ENOTCONN \<longrightarrow> sending n us hs snt' e') \<and> stopped n us hs snt' e'"
    using assms(2)
  proof (cases rule: notify_cases)
    case down
    then show ?thesis using sending_down [OF p] by simp
  next
    case up
    have "sending n us hs snt' e'"
      using sending_up [OF p up(1), of snt'] p up(2)
      by (auto simp: sending_def pass_sel(1-3) intro: exI [of _ "cs @ [data]" for cs])
    then show ?thesis using sending_stopped by blast
  qed
  then show "err \<noteq> - ENOTCONN \<Longrightarrow> sending n us hs snt' e'" "stopped n us hs snt' e'" by simp_all
qed

interpretation ended: tracked_link "sys_link mtu oldest nxt get" "sending n us hs" "stopped n us hs"
  for mtu oldest nxt get n us hs
proof unfold_locales
  fix snt e data e'
  assume "sending n us hs snt e" and "lk_notify (sys_link mtu oldest nxt get) data e = (- ENOMEM, e')"
  then have p: "sending n us hs snt (pass e')" using sending_notify(1) [of n us hs snt e data "- ENOMEM" e' snt] by (auto intro: sending_pass)
  then show "sending n us hs snt (lk_msleep (sys_link mtu oldest nxt get) 2 e')" by simp
  show "stopped n us hs (snt @ [(data, - ENOTCONN)]) (lk_msleep (sys_link mtu oldest nxt get) 2 e')"
    using sending_stopped [OF p] by simp
qed (auto intro: sending_notify sending_pass)

lemma run_sends: "dump_run lk dev junk first e = Some (True, d, e') \<Longrightarrow> d_sent d \<noteq> []"
proof -
  have "d_sent d' \<noteq> []" if "dump_tail lk chunk d0 e0 = Some (True, d', e1)" for chunk d0 e0 d' e1
    using that by (auto simp: dump_tail_def dump_flush_def Let_def split: option.splits if_splits)
  then show "dump_run lk dev junk first e = Some (True, d, e') \<Longrightarrow> d_sent d \<noteq> []"
    by (auto simp: dump_run_def Let_def split: option.splits prod.splits if_splits)
qed

text \<open>
  C30: a disconnection ends the dump: however the callbacks interleave with a dump, as long as no central
  connects anew it returns, all of its notifications go to the reader it began with, and
  it uses the released connection object at most twice (for the MTU and one notification, or
  for one notification), always at the end, and then reports failure.
\<close>

theorem dump_ends_with_reader:
  assumes "runs node_step adv_boot os (sy_adv e)"
    and "\<forall>evs \<in> set (sy_todo e). \<forall>err. Cb (Connect err) \<notin> set evs" and "length junk = 244"
  shows "\<exists>ok d e'. dump_run (sys_link mtu oldest nxt get) dev junk first e = Some (ok, d, e') \<and>
    (\<exists>cs. sy_heard e' = sy_heard e @ map (Pair (sy_session e)) cs) \<and>
    (\<exists>k j. sy_uses e' = sy_uses e @ replicate k True @ replicate j False \<and> j \<le> 2 \<and> (ok \<longrightarrow> j = 0))"
proof -
  let ?lk = "sys_link mtu oldest nxt get" and ?e0 = "use_conn (pass e)"
  obtain ok d e' where d: "dump_run ?lk dev junk first e = Some (ok, d, e')"
    using run_returns [OF sys_drains assms(3)] by (metis prod_cases3)
  have "sending (sy_session e) (sy_uses e) (sy_heard e) [(undefined, 0)] e"
    using runs_invariant [where P = conn_inv, OF assms(1) conn_boot conn_step] assms(2)
    by (simp add: sending_def)
  note p = sending_pass [OF this]
  have u: "sy_uses ?e0 = sy_uses e @ [current_conn (sy_adv ?e0)]" using p by (simp add: sending_def pass_sel)
  have "sending (sy_session e) (sy_uses e) (sy_heard e) [] ?e0"
    using p sending_up [OF p, of "[]"] u by (cases "current_conn (sy_adv ?e0)") (auto simp: sending_def)
  from ended.run_tracked [OF d sys_link_sel(5) this]
  have r: "(if ok then sending (sy_session e) (sy_uses e) (sy_heard e) else stopped (sy_session e) (sy_uses e) (sy_heard e)) (d_sent d) e'" .
  show ?thesis
  proof (cases ok)
    case True
    then have "dump_run ?lk dev junk first e = Some (True, d, e')" using d by simp
    then have "d_sent d \<noteq> []" by (rule run_sends)
    then obtain k where "sy_uses e' = sy_uses e @ replicate k True @ replicate 0 False"
      using r True by (auto simp: sending_def)
    then show ?thesis using d r True by (auto simp: sending_def)
  next
    case False
    then obtain k j where "\<exists>cs. sy_heard e' = sy_heard e @ map (Pair (sy_session e)) cs"
        "sy_uses e' = sy_uses e @ replicate k True @ replicate j False" "j \<le> 2"
      using r by (auto simp: stopped_def)
    then show ?thesis using d False by blast
  qed
qed

section \<open>Schedules\<close>

lemma happen_runs: "\<exists>os. runs node_step (fst x) os (fst (happen evs x))"
proof (induction evs x rule: happen.induct)
  case (1 x)
  then show ?case by (auto intro: runs.runs_refl)
next
  case (2 ev evs s n)
  then obtain os where r: "runs node_step (outside_step ev s) os (fst (happen (ev # evs) (s, n)))"
    by (auto simp: Let_def)
  then show ?case
    using outside_step_node [of ev s] runs_cons [OF _ r] by (auto simp del: happen.simps)
qed

text \<open>A reader that pressed the button, connected, subscribed and asked for everything.\<close>

definition joining :: "outside list" where
  "joining = [Cb Press, Cb (Run_On 0), Cb (Connect 0), Subscribe 1, Write [1, 0, 0, 0, 0] 0]"

definition joined :: "outside list list \<Rightarrow> sys" where
  "joined todo =
     \<lparr>sy_adv = fst (happen joining (adv_boot, 0)), sy_todo = todo, sy_answers = [],
      sy_session = snd (happen joining (adv_boot, 0)), sy_uses = [], sy_heard = []\<rparr>"

lemma joined_sel [simp]:
  "sy_todo (joined todo) = todo" "sy_answers (joined todo) = []" "sy_session (joined todo) = 1"
  "sy_uses (joined todo) = []" "sy_heard (joined todo) = []" "current_conn (sy_adv (joined todo))"
  "notify_enabled (sy_adv (joined todo))" "dump_req (sy_adv (joined todo)) = 1"
  "work (sy_adv (joined todo)) = []" "adv_window_open (sy_adv (joined todo))" "\<not> stopping (sy_adv (joined todo))"
  "conn_refs (sy_adv (joined todo)) = 2"
  by (simp_all add: joined_def joining_def adv_boot_def adv_defs ctrl_write_def ccc_changed_def sntl_parse_cmd_def)

lemma joined_reachable: "\<exists>os. runs node_step adv_boot os (sy_adv (joined todo))"
  using happen_runs [of "(adv_boot, 0)" joining] by (simp add: joined_def)

text \<open>A dump of one record at an MTU of 43: two notifications, the second one the CRC.\<close>

definition one :: "u32 \<Rightarrow> int \<times> sntl_record" where
  "one seq = (0, zero_record\<lparr>rec_seq := seq\<rparr>)"

lemma one_run:
  assumes "length junk = 244"
  obtains a b d1 d2 where "length a = 40" and "length b = 2"
    and "\<And>e. dump_run (sys_link 43 5 6 one) dev junk 0 e =
      (case notify_chunk (sys_link 43 5 6 one) a (pass (use_conn (pass e))) of None \<Rightarrow> None
       | Some (err, e) \<Rightarrow>
           if err < 0 then Some (False, d1 err, e)
           else map_option (\<lambda>(err2, e). (0 \<le> err2, d2 err err2, e)) (notify_chunk (sys_link 43 5 6 one) b e))"
proof -
  let ?lk = "sys_link 43 5 6 one" and ?r = "zero_record\<lparr>rec_seq := 5\<rparr>"
  obtain d where d: "poke junk 0 (sntl_encode_header 1 dev) = Some (d_buf d)"
    "d = \<lparr>d_buf = d_buf d, d_fill = 16, d_crc = sntl_crc16 0xFFFF (take 16 (d_buf d)), d_sent = [], d_recs = []\<rparr>"
    "dump_inv (sntl_encode_header 1 dev) 40 d"
    using run_start [OF assms, of 1 dev 40] by metis
  have f: "d_fill d = 16" by (subst d(2)) simp
  obtain x where x: "dump_put ?r d = Some x" "dump_inv (sntl_encode_header 1 dev) 40 x" "d_fill x = 40"
    using put_step [OF d(3), of ?r] f by auto
  have len: "length (d_buf x) = 244" using x(2) by (simp add: dump_inv_def)
  have loop: "dump_loop ?lk 40 6 5 d e = Some (True, x, pass e)" for e
  proof -
    have "dump_loop ?lk 40 6 6 x (pass e) = Some (True, x, pass e)" by (subst dump_loop.simps) simp
    then show ?thesis using f x(1) by (subst dump_loop.simps) (simp add: one_def)
  qed
  have run: "dump_run ?lk dev junk 0 e = dump_tail ?lk 40 x (pass (use_conn (pass e)))" for e
    using d(1) loop by (simp add: dump_run_def sntl_dump_range_def chunk_size_def flip: d(2))
  let ?b = "[ucast (d_crc x AND 0xFF), ucast (drop_bit 8 (d_crc x))] :: bytes"
  define y where "y err = x\<lparr>d_sent := d_sent x @ [(take 40 (d_buf x), err)], d_fill := 0\<rparr>" for err
  define z where "z err err2 =
    (y err)\<lparr>d_buf := ?b @ drop (Suc (Suc 0)) (d_buf x), d_sent := d_sent (y err) @ [(?b, err2)], d_fill := 0\<rparr>" for err err2
  have "dump_tail ?lk 40 x e =
      (case notify_chunk ?lk (take 40 (d_buf x)) e of None \<Rightarrow> None
       | Some (err, e) \<Rightarrow>
           if err < 0 then Some (False, y err, e)
           else map_option (\<lambda>(err2, e). (0 \<le> err2, z err err2, e)) (notify_chunk ?lk ?b e))" for e
    using x(3) len
    by (cases "notify_chunk ?lk (take 40 (d_buf x)) e")
      (auto simp: dump_tail_def dump_flush_def Let_def poke_eq y_def z_def option.map_comp comp_def case_prod_unfold)
  then show ?thesis using run len by (intro that [of "take 40 (d_buf x)" ?b]) simp_all
qed

lemma notify_once:
  "fst (sys_notify data e) \<noteq> - ENOMEM \<Longrightarrow> notify_chunk (sys_link mtu oldest nxt get) data e = Some (sys_notify data e)"
  by (subst notify_chunk.simps) (auto split: prod.splits)

text \<open>
  C32: the dump thread works with the connection object without a reference of its own: there is a
  schedule in which it uses the object after its release, one in which the object is null by
  the second time it is read, and one in which the first notification of a frame goes to one
  reader and the last to the next, with the dump reporting success.
\<close>

theorem borrowed_connection:
  "(\<exists>todo d e'. dump_run (sys_link 43 5 6 one) dev (replicate 244 0) 0 (joined todo) = Some (False, d, e') \<and>
      sy_uses e' = [True, False]) \<and>
   (\<exists>todo e'. sys_turn (sys_link 43 5 6 one) dev (replicate 244 0) (joined todo) = Some (Null_Conn, e')) \<and>
   (\<exists>todo d e' a b. dump_run (sys_link 43 5 6 one) dev (replicate 244 0) 0 (joined todo) = Some (True, d, e') \<and>
      sy_heard e' = [(1, a), (2, b)] \<and> length a = 40 \<and> length b = 2)"
proof -
  let ?lk = "sys_link 43 5 6 one" and ?junk = "replicate 244 0 :: bytes"
  have "length ?junk = 244" by simp
  then obtain a b d1 d2 where ab: "length a = 40" "length b = 2"
    and run: "\<And>e. dump_run ?lk dev ?junk 0 e =
      (case notify_chunk ?lk a (pass (use_conn (pass e))) of None \<Rightarrow> None
       | Some (err, e) \<Rightarrow>
           if err < 0 then Some (False, d1 err, e)
           else map_option (\<lambda>(err2, e). (0 \<le> err2, d2 err err2, e)) (notify_chunk ?lk b e))"
    by (rule one_run [of ?junk dev]) blast
  note sys_defs = notify_once pass_def use_conn_def sys_notify_def Let_def adv_defs
  let ?t1 = "[[], [], [Cb Disconnect]]" and ?t2 = "[[], [], [], [Cb Disconnect, Cb (Run_On 0), Cb (Connect 0), Subscribe 1]]"
  have "\<exists>d e'. dump_run ?lk dev ?junk 0 (joined ?t1) = Some (False, d, e') \<and> sy_uses e' = [True, False]"
    unfolding run by (simp add: sys_defs)
  moreover have "\<exists>e'. sys_turn ?lk dev ?junk (joined [[Cb Disconnect]]) = Some (Null_Conn, e')"
    by (simp add: sys_turn_def sys_defs)
  moreover have "\<exists>d e'. dump_run ?lk dev ?junk 0 (joined ?t2) = Some (True, d, e') \<and> sy_heard e' = [(1, a), (2, b)]"
    unfolding run by (simp add: sys_defs ccc_changed_def)
  ultimately show ?thesis using ab by blast
qed

theorem conn_refs_balanced_witness:
  "\<exists>os s. runs node_step adv_boot os s \<and> current_conn s \<and> conn_refs s = 2"
proof -
  obtain os where "runs node_step adv_boot os (sy_adv (joined []))" using joined_reachable by blast
  with conn_refs_balanced [OF this] show ?thesis by (intro exI [of _ os] exI [of _ "sy_adv (joined [])"]) simp
qed

lemma one_gets: "gets_own one"
  by (simp add: gets_own_def one_def)

theorem dump_to_one_reader_witness:
  "\<exists>d e' cs. sys_turn (sys_link 43 5 6 one) [0x50, 0x52] (replicate 244 0) (joined [[Cb Tick], [Cb Press]]) =
     Some (Dumped True d, e') \<and> sy_heard e' = map (Pair 1) cs \<and>
     decode_frame (concat cs) = Some ([0x50, 0x52] @ replicate 6 0, d_recs d)"
proof -
  let ?e = "joined [[Cb Tick], [Cb Press]]"
  obtain os where r: "runs node_step adv_boot os (sy_adv ?e)" using joined_reachable by blast
  obtain count start where range: "sntl_dump_range (dump_first_seq (sy_adv
      (pass (?e\<lparr>sy_adv := (sy_adv ?e)\<lparr>dump_req := dump_req (sy_adv ?e) - 1\<rparr>\<rparr>)))) 5 6 = (count, start)" by fastforce
  have "length (replicate 244 (0 :: u8)) = 244" by simp
  from dump_to_one_reader [OF r _ _ _ _ one_gets this refl range, of 43 "[0x50, 0x52]"] show ?thesis by auto
qed

theorem dump_ends_with_reader_witness:
  "\<exists>ok d e'. dump_run (sys_link 43 5 6 one) [0x50, 0x52] (replicate 244 0) 0 (joined [[], [Cb Disconnect]]) =
     Some (ok, d, e') \<and> length (filter Not (sy_uses e')) \<le> 2"
proof -
  obtain os where r: "runs node_step adv_boot os (sy_adv (joined [[], [Cb Disconnect]]))" using joined_reachable by blast
  have "length (replicate 244 (0 :: u8)) = 244" by simp
  from dump_ends_with_reader [OF r _ this, of 43 5 6 one "[0x50, 0x52]" 0] show ?thesis by auto
qed

end
