(* ===== verification/Main_Loop.thy ===== *)
theory Main_Loop
  imports Store Sen5x Radar Radar_Cli Ble_Adv
begin

text \<open>
  src/src/main.c: the start-up, the loop that polls the air sensor once a second on an absolute
  cadence, and \<open>window_flush\<close>, which turns the windows of the two sensors into one record.
  Frames of the radar come in while the loop runs, in the radar thread; a turn of the loop
  takes the frames that come in its phases, with their times, as its input. Proved here: what
  a record says, that the cadence does not drift, and that the records of a run are the
  windows of the sensors, one per thirty turns, none lost and none counted twice.
\<close>

section \<open>State and inputs\<close>

text \<open>
  The state \<open>main\<close> works on: the store, the air sensor, the accumulators of the radar, the
  uptime, and the locals \<open>sec\<close> and \<open>next_tick\<close>.
\<close>

record ('f, 'b) node =
  nd_store :: "'f store"
  nd_air :: "'b sen5x"
  nd_acc :: radar_acc
  nd_now :: int
  nd_sec :: u32
  nd_next :: int

text \<open>Frames (tracker reported, count) with their times; without a frame, only time passes.\<close>

type_synonym radar_event = "int \<times> (bool \<times> nat) option"

text \<open>
  One turn: what happens until the window is taken (the poll), after it (the flush) and while
  the loop sleeps, and the uptime that \<open>store_append\<close> reads.
\<close>

record tick =
  tk_before :: "radar_event list"
  tk_append :: int
  tk_after :: "radar_event list"
  tk_sleep :: "radar_event list"

definition elapse :: "radar_event list \<Rightarrow> ('f, 'b) node \<Rightarrow> ('f, 'b) node" where
  "elapse evs nd = (let (a, t) = fold acc_event evs (nd_acc nd, nd_now nd) in nd\<lparr>nd_acc := a, nd_now := t\<rparr>)"

section \<open>The record of a window\<close>

definition flush_record :: "radar_window \<Rightarrow> sen5x_window \<Rightarrow> sntl_record" where
  "flush_record w aq =
     (let r = zero_record;
          r = r\<lparr>rec_headcount := rw_headcount w, rec_occ_s := rw_occ_s w, rec_dwell_s := rw_dwell_s w\<rparr>;
          r = r\<lparr>rec_pm25 := aq_pm25 aq, rec_pm10 := aq_pm10 aq, rec_temp := aq_temp aq, rec_rh := aq_rh aq,
                rec_voc := aq_voc aq\<rparr>;
          r = (if \<not> rw_alive w then r\<lparr>rec_flags := rec_flags r OR SNTL_FLAG_SENSOR_FAULT\<rparr> else r);
          r = (if \<not> aq_alive aq then r\<lparr>rec_flags := rec_flags r OR SNTL_FLAG_AQ_FAULT\<rparr> else r);
          r = (if \<not> rw_tracker w then r\<lparr>rec_flags := rec_flags r OR SNTL_FLAG_NO_TRACKER\<rparr> else r);
          r = r\<lparr>rec_flags := rec_flags r OR SNTL_FLAG_RTC_UNSET\<rparr>
      in r\<lparr>rec_batt := 100\<rparr>)"

text \<open>
  The line on the console. The numbers are those handed to \<open>printk\<close>: particulates and VOC as
  whole and tenth, the temperature as a sign, whole and hundredths, the humidity as whole and
  tenth. \<open>crem\<close> is C's remainder.
\<close>

definition crem :: "int \<Rightarrow> int \<Rightarrow> int" where
  "crem a b = a - cdiv a b * b"

datatype air_print =
    No_Data
  | Air (pr_pm25: "u16 \<times> u16") (pr_pm10: "u16 \<times> u16") (pr_minus: bool) (pr_temp: "int \<times> int")
      (pr_rh: "int \<times> int") (pr_voc: "(int \<times> int) option") (pr_fault: bool)

datatype console =
    Append_Failed int
  | Window_Line u32 u8 bool u8 u16 air_print

definition air_line :: "sntl_record \<Rightarrow> air_print" where
  "air_line r =
     (if rec_pm25 r = SNTL_AQ_UNKNOWN_U then No_Data
      else let t = (if rec_temp r = SNTL_AQ_UNKNOWN_S then 0 else sint (rec_temp r));
               ta = (if t < 0 then - t else t)
           in Air (rec_pm25 r div 10, rec_pm25 r mod 10) (rec_pm10 r div 10, rec_pm10 r mod 10)
                (t < 0) (cdiv ta 100, crem ta 100)
                (if rec_rh r = SNTL_AQ_UNKNOWN_S then 0 else cdiv (sint (rec_rh r)) 100,
                 if rec_rh r = SNTL_AQ_UNKNOWN_S then 0 else crem (cdiv (sint (rec_rh r)) 10) 10)
                (if rec_voc r = SNTL_AQ_UNKNOWN_S then None
                 else Some (cdiv (sint (rec_voc r)) 10, crem (sint (rec_voc r)) 10))
                (rec_flags r AND SNTL_FLAG_AQ_FAULT \<noteq> 0))"

definition window_line :: "radar_window \<Rightarrow> sntl_record \<Rightarrow> console" where
  "window_line w r =
     Window_Line (rec_ts r) (rec_headcount r) (rw_tracker w) (rec_occ_s r) (rec_dwell_s r) (air_line r)"

definition window_flush ::
  "'f nvs_ops \<Rightarrow> 'b i2c_ops \<Rightarrow> int \<Rightarrow> ('f, 'b) node \<Rightarrow> (int \<times> sntl_record \<times> console) \<times> ('f, 'b) node" where
  "window_flush ops i2c append_uptime nd =
     (let (w, acc) = radar_window_take (nd_now nd) (nd_acc nd);
          (aq, air) = sen5x_window_take i2c (nd_air nd);
          (err, r, st) = store_append ops append_uptime (nd_store nd) (flush_record w aq);
          nd = nd\<lparr>nd_acc := acc, nd_air := air, nd_store := st\<rparr>
      in ((err, r, if err \<noteq> 0 then Append_Failed err else window_line w r), nd))"

section \<open>The loop\<close>

definition main_tick ::
  "'f nvs_ops \<Rightarrow> 'b i2c_ops \<Rightarrow> tick \<Rightarrow> ('f, 'b) node \<Rightarrow> (int \<times> sntl_record \<times> console) list \<times> ('f, 'b) node" where
  "main_tick ops i2c tk nd =
     (let nd = nd\<lparr>nd_air := sen5x_poll i2c (nd_air nd)\<rparr>;
          nd = elapse (tk_before tk) nd;
          nd = nd\<lparr>nd_sec := nd_sec nd + 1\<rparr>;
          (out, nd) = (if nd_sec nd \<ge> of_nat STORE_PERIOD_S
                       then let (f, nd) = window_flush ops i2c (tk_append tk) (nd\<lparr>nd_sec := 0\<rparr>) in ([f], nd)
                       else ([], nd));
          nd = elapse (tk_after tk) nd;
          delay = nd_next nd - nd_now nd;
          nd = (if delay > 0 then elapse (tk_sleep tk) nd else nd)
      in (out, nd\<lparr>nd_next := nd_next nd + 1000\<rparr>))"

fun main_run ::
  "'f nvs_ops \<Rightarrow> 'b i2c_ops \<Rightarrow> tick list \<Rightarrow> ('f, 'b) node \<Rightarrow> (int \<times> sntl_record \<times> console) list \<times> ('f, 'b) node" where
  "main_run ops i2c [] nd = ([], nd)"
| "main_run ops i2c (tk # tks) nd =
     (let (out, nd) = main_tick ops i2c tk nd; (outs, nd) = main_run ops i2c tks nd in (out @ outs, nd))"

section \<open>Start-up\<close>

text \<open>
  The bring-up aid: the levels read, one every 200 ms, and the lines printed (\<open>True\<close> is HIGH). It
  returns only if it cannot claim the pin.
\<close>

fun probe_loop :: "int \<Rightarrow> int list \<Rightarrow> bool list" where
  "probe_loop last_v [] = []"
| "probe_loop last_v (v # vs) = (if v \<noteq> last_v then (v \<noteq> 0) # probe_loop v vs else probe_loop last_v vs)"

definition probe_mode :: "bool \<Rightarrow> int \<Rightarrow> int list \<Rightarrow> bool \<times> bool list" where
  "probe_mode p1_ready cfg levels =
     (if \<not> p1_ready \<or> cfg \<noteq> 0 then (True, []) else (False, probe_loop (- 1) levels))"

text \<open>The advertising button; the flag says whether its callback is installed.\<close>

definition adv_btn_init :: "bool \<Rightarrow> int \<Rightarrow> int \<Rightarrow> int \<Rightarrow> int \<times> bool" where
  "adv_btn_init ready cfg intr add =
     (if \<not> ready then (- ENODEV, False)
      else if cfg \<noteq> 0 then (cfg, False)
      else if intr \<noteq> 0 then (intr, False)
      else (add, add = 0))"

definition adv_btn_pressed :: "adv \<Rightarrow> adv" where
  "adv_btn_pressed s = ble_advertise_window s"

text \<open>\<open>radar_start\<close> of radar.c; the flag says whether the radar thread runs.\<close>

definition radar_start :: "bool \<Rightarrow> bool \<Rightarrow> int \<Rightarrow> int \<times> bool" where
  "radar_start uart_ready nrst_ready cfg =
     (if \<not> uart_ready then (- ENODEV, False)
      else if \<not> nrst_ready then (- ENODEV, False)
      else if cfg \<noteq> 0 then (cfg, False)
      else (0, True))"

text \<open>What the board answers during start-up, and the uptime when the loop is entered.\<close>

record bringup =
  bu_probe :: "bool \<times> int \<times> int"
  bu_gpio1 :: "bool \<times> int"
  bu_board :: board
  bu_hwid :: "int \<times> bytes"
  bu_bt :: "int \<times> int"
  bu_btn :: "bool \<times> int \<times> int \<times> int"
  bu_radar :: "bool \<times> bool \<times> int"
  bu_uptime :: int

text \<open>
  \<open>main\<close> up to its loop: the errors of the five steps, the device id and the state; \<open>None\<close> is
  the probe mode, which does not come back.
\<close>

definition main_start ::
  "'f nvs_ops \<Rightarrow> 'b i2c_ops \<Rightarrow> bringup \<Rightarrow> ('f, 'b) node \<Rightarrow> (int list \<times> bytes \<times> ('f, 'b) node) option" where
  "main_start ops i2c bu nd =
     (let (ready, cfg, level) = bu_probe bu; (p1_ready, p1_cfg) = bu_gpio1 bu in
      if ready \<and> cfg = 0 \<and> level = 1 \<and> \<not> fst (probe_mode p1_ready p1_cfg []) then None
      else let (e1, st) = store_init ops (bu_board bu) (nd_store nd);
               (e2, device_id) = ble_start (fst (bu_hwid bu)) (snd (bu_hwid bu)) (fst (bu_bt bu)) (snd (bu_bt bu));
               (e3, _) = (case bu_btn bu of (r, c, i, a) \<Rightarrow> adv_btn_init r c i a);
               (e4, _) = (case bu_radar bu of (u, n, c) \<Rightarrow> radar_start u n c);
               (e5, air) = sen5x_start i2c (nd_air nd)
           in Some ([e1, e2, e3, e4, e5], device_id,
                    nd\<lparr>nd_store := st, nd_air := air, nd_sec := 0, nd_now := bu_uptime bu,
                       nd_next := bu_uptime bu + 1000\<rparr>))"

section \<open>Time and events\<close>

definition time_after :: "int \<Rightarrow> radar_event list \<Rightarrow> int" where
  "time_after t evs = last (t # map fst evs)"

lemma time_after_Nil [simp]: "time_after t [] = t"
  by (simp add: time_after_def)

lemma time_after_append [simp]: "time_after t (xs @ ys) = time_after (time_after t xs) ys"
  by (cases ys rule: rev_cases) (simp_all add: time_after_def last_append)

lemma fold_uptime: "snd (fold acc_event evs x) = time_after (snd x) evs"
proof (induction evs arbitrary: x)
  case (Cons e evs)
  have "snd (acc_event e x) = fst e" by (simp add: acc_event_def)
  then show ?case using Cons.IH [of "acc_event e x"] by (simp add: time_after_def)
qed simp

lemma elapse_eq:
  "elapse evs nd = nd\<lparr>nd_acc := fst (fold acc_event evs (nd_acc nd, nd_now nd)), nd_now := time_after (nd_now nd) evs\<rparr>"
  using fold_uptime [of evs "(nd_acc nd, nd_now nd)"] by (simp add: elapse_def case_prod_beta)

lemma elapse_sel [simp]:
  "nd_store (elapse evs nd) = nd_store nd" "nd_air (elapse evs nd) = nd_air nd"
  "nd_now (elapse evs nd) = time_after (nd_now nd) evs" "nd_sec (elapse evs nd) = nd_sec nd"
  "nd_next (elapse evs nd) = nd_next nd"
  by (simp_all add: elapse_eq)

lemma elapse_radar: "(nd_acc (elapse evs nd), time_after (nd_now nd) evs) = fold acc_event evs (nd_acc nd, nd_now nd)"
  using fold_uptime [of evs "(nd_acc nd, nd_now nd)"] by (simp add: elapse_eq prod_eq_iff)

lemma elapse_Nil [simp]: "elapse [] nd = nd"
  by (simp add: elapse_def)

lemma elapse_elapse: "elapse ys (elapse xs nd) = elapse (xs @ ys) nd"
  by (simp add: elapse_def case_prod_beta)

lemma elapse_update:
  "elapse evs (nd\<lparr>nd_air := a\<rparr>) = (elapse evs nd)\<lparr>nd_air := a\<rparr>"
  "elapse evs (nd\<lparr>nd_store := st\<rparr>) = (elapse evs nd)\<lparr>nd_store := st\<rparr>"
  "elapse evs (nd\<lparr>nd_sec := n\<rparr>) = (elapse evs nd)\<lparr>nd_sec := n\<rparr>"
  "elapse evs (nd\<lparr>nd_next := t\<rparr>) = (elapse evs nd)\<lparr>nd_next := t\<rparr>"
  by (simp_all add: elapse_eq)

lemma sorted_time_after: "sorted (t # map fst evs) \<Longrightarrow> t \<le> time_after t evs"
  by (cases evs rule: rev_cases) (auto simp: time_after_def)

text \<open>
  What the kernel promises of a turn: the uptime does not run backwards, \<open>store_append\<close> reads it
  during the flush, and \<open>k_msleep\<close>, called with the delay as an \<open>int32_t\<close>, sleeps at least that
  long; without the call nothing happens while sleeping.
\<close>

definition tick_ok :: "tick \<Rightarrow> ('f, 'b) node \<Rightarrow> bool" where
  "tick_ok tk nd \<longleftrightarrow>
     (let t1 = time_after (nd_now nd) (tk_before tk); t2 = time_after t1 (tk_after tk); delay = nd_next nd - t2 in
      sorted (nd_now nd # map fst (tk_before tk @ tk_after tk @ tk_sleep tk)) \<and>
      t1 \<le> tk_append tk \<and> tk_append tk \<le> t2 \<and>
      (if delay > 0 then t2 + sint (of_int delay :: u32) \<le> time_after t2 (tk_sleep tk) else tk_sleep tk = []))"

text \<open>A condition on every turn of a run.\<close>

fun along ::
  "(tick \<Rightarrow> ('f, 'b) node \<Rightarrow> bool) \<Rightarrow> 'f nvs_ops \<Rightarrow> 'b i2c_ops \<Rightarrow> tick list \<Rightarrow> ('f, 'b) node \<Rightarrow> bool" where
  "along P ops i2c [] nd = True"
| "along P ops i2c (tk # tks) nd = (P tk nd \<and> along P ops i2c tks (snd (main_tick ops i2c tk nd)))"

lemma along_append:
  "along P ops i2c (xs @ ys) nd \<longleftrightarrow> along P ops i2c xs nd \<and> along P ops i2c ys (snd (main_run ops i2c xs nd))"
  by (induction xs arbitrary: nd) (auto simp: case_prod_beta)

lemma main_run_append:
  "main_run ops i2c (xs @ ys) nd =
     (fst (main_run ops i2c xs nd) @ fst (main_run ops i2c ys (snd (main_run ops i2c xs nd))),
      snd (main_run ops i2c ys (snd (main_run ops i2c xs nd))))"
  by (induction xs arbitrary: nd) (auto simp: case_prod_beta)

section \<open>One turn\<close>

definition tick_events :: "tick \<Rightarrow> radar_event list" where
  "tick_events tk = tk_before tk @ tk_after tk @ tk_sleep tk"

lemma flush_sel:
  "nd_now (snd (window_flush ops i2c up nd)) = nd_now nd"
  "nd_next (snd (window_flush ops i2c up nd)) = nd_next nd"
  "nd_sec (snd (window_flush ops i2c up nd)) = nd_sec nd"
  by (simp_all add: window_flush_def case_prod_beta Let_def)

lemma sleep_taken:
  assumes "tick_ok tk nd" and "nd_now m = time_after (nd_now nd) (tk_before tk @ tk_after tk)" and "nd_next m = nd_next nd"
  shows "(if nd_next m - nd_now m > 0 then elapse (tk_sleep tk) m else m) = elapse (tk_sleep tk) m"
  using assms by (auto simp: tick_ok_def Let_def)

lemma quiet_tick:
  assumes "tick_ok tk nd" and "unat (nd_sec nd) + 1 < 30"
  shows "main_tick ops i2c tk nd =
    ([], (elapse (tick_events tk) nd)\<lparr>nd_air := sen5x_poll i2c (nd_air nd), nd_sec := nd_sec nd + 1,
            nd_next := nd_next nd + 1000\<rparr>)"
proof -
  have "unat (nd_sec nd + 1) = unat (nd_sec nd) + 1"
    using assms(2) by (subst unat_add_nowrap) simp_all
  then have s: "\<not> (30 :: u32) \<le> nd_sec nd + 1" using assms(2) by (simp add: word_le_nat_alt)
  let ?m = "(elapse (tk_before tk @ tk_after tk) nd)\<lparr>nd_air := sen5x_poll i2c (nd_air nd), nd_sec := nd_sec nd + 1\<rparr>"
  have "main_tick ops i2c tk nd =
      ([], let m = (if nd_next ?m - nd_now ?m > 0 then elapse (tk_sleep tk) ?m else ?m) in m\<lparr>nd_next := nd_next m + 1000\<rparr>)"
    using s by (simp add: main_tick_def Let_def elapse_update elapse_elapse)
  also have "\<dots> = ([], (elapse (tk_sleep tk) ?m)\<lparr>nd_next := nd_next nd + 1000\<rparr>)"
    using sleep_taken [OF assms(1), of ?m] by (simp add: Let_def)
  finally show ?thesis by (simp add: elapse_update elapse_elapse tick_events_def)
qed

lemma flush_tick:
  assumes "tick_ok tk nd" and "nd_sec nd = 29"
    and "window_flush ops i2c (tk_append tk)
          ((elapse (tk_before tk) nd)\<lparr>nd_air := sen5x_poll i2c (nd_air nd), nd_sec := 0\<rparr>) = (f, m)"
  shows "main_tick ops i2c tk nd = ([f], (elapse (tk_after tk @ tk_sleep tk) m)\<lparr>nd_next := nd_next nd + 1000\<rparr>)"
proof -
  have m: "nd_now m = time_after (nd_now nd) (tk_before tk)" "nd_next m = nd_next nd"
    using flush_sel(1,2) [of ops i2c "tk_append tk" "(elapse (tk_before tk) nd)\<lparr>nd_air := sen5x_poll i2c (nd_air nd), nd_sec := 0\<rparr>"] assms(3)
    by simp_all
  let ?m = "elapse (tk_after tk) m"
  have "main_tick ops i2c tk nd =
      ([f], let m = (if nd_next ?m - nd_now ?m > 0 then elapse (tk_sleep tk) ?m else ?m) in m\<lparr>nd_next := nd_next m + 1000\<rparr>)"
    using assms(2,3) by (simp add: main_tick_def Let_def elapse_update)
  also have "\<dots> = ([f], (elapse (tk_sleep tk) ?m)\<lparr>nd_next := nd_next nd + 1000\<rparr>)"
    using sleep_taken [OF assms(1), of ?m] m by (simp add: Let_def)
  finally show ?thesis by (simp add: elapse_elapse)
qed


section \<open>The cadence\<close>

lemma tick_times:
  "nd_next (snd (main_tick ops i2c tk nd)) = nd_next nd + 1000"
  "tick_ok tk nd \<Longrightarrow> nd_now (snd (main_tick ops i2c tk nd)) = time_after (nd_now nd) (tick_events tk)"
proof -
  show "nd_next (snd (main_tick ops i2c tk nd)) = nd_next nd + 1000"
    by (auto simp: main_tick_def Let_def case_prod_beta flush_sel)
  show "nd_now (snd (main_tick ops i2c tk nd)) = time_after (nd_now nd) (tick_events tk)" if "tick_ok tk nd"
    using that by (auto simp: main_tick_def Let_def case_prod_beta flush_sel tick_ok_def tick_events_def)
qed

text \<open>The milliseconds a turn works, and the milliseconds the sleep ends late.\<close>

definition busy :: "tick \<Rightarrow> ('f, 'b) node \<Rightarrow> int" where
  "busy tk nd = time_after (nd_now nd) (tk_before tk @ tk_after tk) - nd_now nd"

definition prompt :: "int \<Rightarrow> tick \<Rightarrow> ('f, 'b) node \<Rightarrow> bool" where
  "prompt eps tk nd \<longleftrightarrow> tick_ok tk nd \<and> busy tk nd \<le> 1000 \<and>
     time_after (nd_now nd) (tick_events tk) \<le> max (nd_next nd + eps) (nd_now nd + busy tk nd)"

lemma delay_cast: "0 \<le> d \<Longrightarrow> d \<le> 1000 \<Longrightarrow> sint (of_int d :: u32) = d"
  by (simp add: signed_of_int signed_take_bit_int_eq_self)

lemma tick_not_early:
  assumes "tick_ok tk nd" and "nd_next nd - 1000 \<le> nd_now nd"
  shows "nd_next nd \<le> nd_now (snd (main_tick ops i2c tk nd))"
    and "nd_now nd \<le> nd_now (snd (main_tick ops i2c tk nd))"
proof -
  let ?t2 = "time_after (time_after (nd_now nd) (tk_before tk)) (tk_after tk)"
  have s: "sorted (nd_now nd # map fst (tick_events tk))"
    using assms(1) by (simp add: tick_ok_def Let_def tick_events_def)
  then show "nd_now nd \<le> nd_now (snd (main_tick ops i2c tk nd))"
    using sorted_time_after [OF s] tick_times(2) [OF assms(1)] by metis
  have "sorted (nd_now nd # map fst (tk_before tk @ tk_after tk))"
    using s by (auto simp: tick_events_def sorted_append)
  then have t2: "nd_now nd \<le> ?t2" using sorted_time_after by fastforce
  have "nd_next nd \<le> time_after ?t2 (tk_sleep tk)"
  proof (cases "nd_next nd - ?t2 > 0")
    case True
    then have "sint (of_int (nd_next nd - ?t2) :: u32) = nd_next nd - ?t2"
      using t2 assms(2) by (intro delay_cast) simp_all
    then show ?thesis using assms(1) True by (simp add: tick_ok_def Let_def)
  next
    case False
    then show ?thesis using assms(1) by (simp add: tick_ok_def Let_def)
  qed
  then show "nd_next nd \<le> nd_now (snd (main_tick ops i2c tk nd))"
    using tick_times(2) [OF assms(1)] by (simp add: tick_events_def)
qed

lemma run_times:
  assumes "along tick_ok ops i2c tks nd" and "nd_next nd - 1000 \<le> nd_now nd"
  shows "nd_next (snd (main_run ops i2c tks nd)) = nd_next nd + 1000 * int (length tks)"
    and "nd_next (snd (main_run ops i2c tks nd)) - 1000 \<le> nd_now (snd (main_run ops i2c tks nd))"
  using assms
proof (induction tks arbitrary: nd)
  case (Cons tk tks)
  {
    case 1
    then show ?case
      using Cons.IH(1) [of "snd (main_tick ops i2c tk nd)"] tick_not_early(1) [of tk nd ops i2c]
      by (simp add: case_prod_beta tick_times)
  next
    case 2
    then show ?case
      using Cons.IH(2) [of "snd (main_tick ops i2c tk nd)"] tick_not_early(1) [of tk nd ops i2c]
      by (simp add: case_prod_beta tick_times)
  }
qed simp_all

text \<open>
  C35: the cadence does not drift: however long the turns take, the target of turn n is exactly n
  seconds after the first, no turn ends before its target, the delay handed to \<open>k_msleep\<close>
  is at most 1000 ms (so the cast to 32 bits loses nothing), and if every turn works for at
  most a second and sleeps at most eps ms too long, the lateness never grows beyond what it
  was at the start or eps.
\<close>

theorem main_cadence:
  assumes "along (prompt eps) ops i2c tks nd" and "nd_next nd - 1000 \<le> nd_now nd"
  defines "nd' \<equiv> snd (main_run ops i2c tks nd)"
  shows "nd_next nd' = nd_next nd + 1000 * int (length tks) \<and>
    0 \<le> nd_now nd' - (nd_next nd' - 1000) \<and>
    nd_now nd' - (nd_next nd' - 1000) \<le> max (nd_now nd - (nd_next nd - 1000)) eps"
proof -
  have ok: "along tick_ok ops i2c tks nd"
    using assms(1) by (induction tks arbitrary: nd) (auto simp: prompt_def)
  have "nd_now nd' - (nd_next nd' - 1000) \<le> max (nd_now nd - (nd_next nd - 1000)) eps"
    using assms(1,2) unfolding nd'_def
  proof (induction tks arbitrary: nd)
    case (Cons tk tks)
    let ?m = "snd (main_tick ops i2c tk nd)"
    have p: "prompt eps tk nd" using Cons.prems(1) by simp
    then have t: "tick_ok tk nd" by (simp add: prompt_def)
    have "nd_now ?m - nd_next nd \<le> max (nd_now nd - (nd_next nd - 1000)) eps"
      using p tick_times(2) [OF t, of ops i2c] by (auto simp: prompt_def)
    then show ?case
      using Cons.IH [of ?m] Cons.prems tick_not_early(1) [OF t Cons.prems(2), of ops i2c]
      by (simp add: case_prod_beta tick_times)
  qed simp
  then show ?thesis using run_times [OF ok assms(2)] unfolding nd'_def by simp
qed

section \<open>Thirty turns\<close>

lemma quiet_run:
  assumes "along tick_ok ops i2c tks nd" and "unat (nd_sec nd) + length tks < 30"
  shows "main_run ops i2c tks nd =
    ([], (elapse (concat (map tick_events tks)) nd)\<lparr>nd_air := (sen5x_poll i2c ^^ length tks) (nd_air nd),
            nd_sec := nd_sec nd + of_nat (length tks), nd_next := nd_next nd + 1000 * int (length tks)\<rparr>)"
  using assms
proof (induction tks arbitrary: nd)
  case (Cons tk tks)
  let ?m = "(elapse (tick_events tk) nd)\<lparr>nd_air := sen5x_poll i2c (nd_air nd), nd_sec := nd_sec nd + 1,
            nd_next := nd_next nd + 1000\<rparr>"
  have q: "main_tick ops i2c tk nd = ([], ?m)" using Cons.prems by (intro quiet_tick) simp_all
  have "unat (nd_sec nd + 1) = unat (nd_sec nd) + 1" using Cons.prems(2) by (subst unat_add_nowrap) simp_all
  then have "main_run ops i2c tks ?m =
    ([], (elapse (concat (map tick_events tks)) ?m)\<lparr>nd_air := (sen5x_poll i2c ^^ length tks) (nd_air ?m),
            nd_sec := nd_sec ?m + of_nat (length tks), nd_next := nd_next ?m + 1000 * int (length tks)\<rparr>)"
    using Cons.prems q by (intro Cons.IH) simp_all
  then show ?case using q
    by (simp add: elapse_update elapse_elapse funpow_swap1 algebra_simps)
qed simp

lemma fold_replicate: "fold (\<lambda>_ :: unit. f) (map (\<lambda>_. ()) xs) s = (f ^^ length xs) s"
  by (induction xs arbitrary: s) (simp_all add: funpow_swap1)

lemma window_turns:
  assumes "along tick_ok ops i2c (tks @ [tk]) nd" and "nd_sec nd = 0" and "length tks = 29"
  obtains w a aq air err r st up where
    "take_now (fold acc_event (concat (map tick_events tks) @ tk_before tk) (nd_acc nd, nd_now nd)) = (w, a)"
    and "sen5x_window_take i2c (fold (\<lambda>_. sen5x_poll i2c) (map (\<lambda>_. ()) (tks @ [tk])) (nd_air nd)) = (aq, air)"
    and "store_append ops (tk_append tk) (nd_store nd) (flush_record w aq) = (err, r, st)"
    and "main_run ops i2c (tks @ [tk]) nd =
      ([(err, r, if err \<noteq> 0 then Append_Failed err else window_line w r)],
       elapse (tk_after tk @ tk_sleep tk)
         \<lparr>nd_store = st, nd_air = air, nd_acc = fst a, nd_now = snd a, nd_sec = 0, nd_next = nd_next nd + 30000\<rparr>)"
proof -
  let ?evs = "concat (map tick_events tks)" and ?air = "(sen5x_poll i2c ^^ 29) (nd_air nd)"
  let ?n = "(elapse ?evs nd)\<lparr>nd_air := ?air, nd_sec := 29, nd_next := nd_next nd + 29000\<rparr>"
  have q: "main_run ops i2c tks nd = ([], ?n)"
    using quiet_run [of ops i2c tks nd] assms by (simp add: along_append)
  let ?x = "fold acc_event (?evs @ tk_before tk) (nd_acc nd, nd_now nd)"
  let ?b = "(elapse (tk_before tk) ?n)\<lparr>nd_air := sen5x_poll i2c (nd_air ?n), nd_sec := 0\<rparr>"
  have x: "?x = (nd_acc ?b, nd_now ?b)"
    using elapse_radar [of "?evs @ tk_before tk" nd] by (simp add: elapse_update elapse_elapse)
  obtain w acc where w: "radar_window_take (nd_now ?b) (nd_acc ?b) = (w, acc)" by fastforce
  obtain aq air where aq: "sen5x_window_take i2c (nd_air ?b) = (aq, air)" by fastforce
  obtain err r st where st: "store_append ops (tk_append tk) (nd_store nd) (flush_record w aq) = (err, r, st)"
    by (metis prod_cases3)
  let ?f = "(err, r, if err \<noteq> 0 then Append_Failed err else window_line w r)"
  let ?m = "?b\<lparr>nd_acc := acc, nd_air := air, nd_store := st\<rparr>"
  have fl: "window_flush ops i2c (tk_append tk) ?b = (?f, ?m)"
    using w aq st by (simp add: window_flush_def)
  have ok: "tick_ok tk ?n" using assms(1) q by (simp add: along_append)
  have "main_tick ops i2c tk ?n = ([?f], (elapse (tk_after tk @ tk_sleep tk) ?m)\<lparr>nd_next := nd_next ?n + 1000\<rparr>)"
    by (rule flush_tick [OF ok _ fl]) simp
  moreover have "(elapse evs ?m)\<lparr>nd_next := nd_next ?n + 1000\<rparr> = elapse evs
      \<lparr>nd_store = st, nd_air = air, nd_acc = acc, nd_now = nd_now ?b, nd_sec = 0, nd_next = nd_next nd + 30000\<rparr>" for evs
    unfolding elapse_update(4) [symmetric] by (rule arg_cong [where f = "elapse evs"]) simp
  ultimately have run: "main_run ops i2c (tks @ [tk]) nd = ([?f], elapse (tk_after tk @ tk_sleep tk)
         \<lparr>nd_store = st, nd_air = air, nd_acc = acc, nd_now = nd_now ?b, nd_sec = 0, nd_next = nd_next nd + 30000\<rparr>)"
    unfolding main_run_append q by simp
  have tn: "take_now ?x = (w, acc, nd_now ?b)" using w by (simp only: x take_now_def) simp
  have "(sen5x_poll i2c ^^ 30) (nd_air nd) = nd_air ?b" by (simp add: numeral_eq_Suc)
  then have "sen5x_window_take i2c (fold (\<lambda>_. sen5x_poll i2c) (map (\<lambda>_. ()) (tks @ [tk])) (nd_air nd)) = (aq, air)"
    using aq assms(3) fold_replicate [of "sen5x_poll i2c" "tks @ [tk]"] by simp
  then show ?thesis using that [OF tn _ st] run by simp
qed

section \<open>Records and windows\<close>

text \<open>The frames of each window: those after the take belong to the next one.\<close>

fun radar_events :: "radar_event list \<Rightarrow> tick list list \<Rightarrow> radar_event list list" where
  "radar_events carry [] = []"
| "radar_events carry (tks # tkss) =
     (carry @ concat (map tick_events (butlast tks)) @ tk_before (last tks)) #
     radar_events (tk_after (last tks) @ tk_sleep (last tks)) tkss"

definition air_events :: "tick list list \<Rightarrow> unit list list" where
  "air_events tkss = map (map (\<lambda>_. ())) tkss"

text \<open>A record without the number and the time the store gives it.\<close>

definition content :: "sntl_record \<Rightarrow> sntl_record" where
  "content r = r\<lparr>rec_seq := 0, rec_ts := 0\<rparr>"

lemma flush_fresh [simp]: "rec_seq (flush_record w aq) = 0" "rec_ts (flush_record w aq) = 0"
  by (simp_all add: flush_record_def Let_def zero_record_def)

lemma append_content:
  "store_append ops up s (flush_record w aq) = (err, r, st) \<Longrightarrow> content r = flush_record w aq"
  by (auto simp: store_append_def content_def Let_def split: prod.splits if_splits)

lemma windows_from:
  assumes "along tick_ok ops i2c (concat tkss) nd" and "nd_sec nd = 0" and "\<forall>tks \<in> set tkss. length tks = 30"
    and "(nd_acc nd, nd_now nd) = fold acc_event carry x"
  shows "map (\<lambda>(err, r, line). content r) (fst (main_run ops i2c (concat tkss) nd)) =
    map2 flush_record (windows acc_event take_now (radar_events carry tkss) x)
      (windows (\<lambda>_. sen5x_poll i2c) (sen5x_window_take i2c) (air_events tkss) (nd_air nd))"
  using assms
proof (induction tkss arbitrary: nd carry x)
  case (Cons tks tkss)
  obtain ts tk where ts: "tks = ts @ [tk]" "length ts = 29"
    using Cons.prems(3) by (cases tks rule: rev_cases) auto
  have al: "along tick_ok ops i2c (ts @ [tk]) nd" using Cons.prems(1) ts(1) by (simp add: along_append)
  obtain w a aq air err r st where
    w: "take_now (fold acc_event (concat (map tick_events ts) @ tk_before tk) (nd_acc nd, nd_now nd)) = (w, a)"
    and aq: "sen5x_window_take i2c (fold (\<lambda>_. sen5x_poll i2c) (map (\<lambda>_. ()) (ts @ [tk])) (nd_air nd)) = (aq, air)"
    and st: "store_append ops (tk_append tk) (nd_store nd) (flush_record w aq) = (err, r, st)"
    and run: "main_run ops i2c (ts @ [tk]) nd =
      ([(err, r, if err \<noteq> 0 then Append_Failed err else window_line w r)],
       elapse (tk_after tk @ tk_sleep tk)
         \<lparr>nd_store = st, nd_air = air, nd_acc = fst a, nd_now = snd a, nd_sec = 0, nd_next = nd_next nd + 30000\<rparr>)"
    by (rule window_turns [OF al Cons.prems(2) ts(2)])
  let ?m = "snd (main_run ops i2c (ts @ [tk]) nd)"
  have m: "nd_sec ?m = 0" "nd_air ?m = air" "(nd_acc ?m, nd_now ?m) = fold acc_event (tk_after tk @ tk_sleep tk) a"
  proof -
    show "nd_sec ?m = 0" "nd_air ?m = air" unfolding run by simp_all
    let ?n = "\<lparr>nd_store = st, nd_air = air, nd_acc = fst a, nd_now = snd a, nd_sec = 0, nd_next = nd_next nd + 30000\<rparr>"
    show "(nd_acc ?m, nd_now ?m) = fold acc_event (tk_after tk @ tk_sleep tk) a"
      using elapse_radar [of "tk_after tk @ tk_sleep tk" ?n] unfolding run by simp
  qed
  have "along tick_ok ops i2c (concat tkss) ?m"
    using Cons.prems(1) along_append [of tick_ok ops i2c "ts @ [tk]" "concat tkss" nd] ts(1) by simp
  from Cons.IH [OF this m(1) _ m(3)] Cons.prems(3)
  have ih: "map (\<lambda>(err, r, line). content r) (fst (main_run ops i2c (concat tkss) ?m)) =
    map2 flush_record (windows acc_event take_now (radar_events (tk_after tk @ tk_sleep tk) tkss) a)
      (windows (\<lambda>_. sen5x_poll i2c) (sen5x_window_take i2c) (air_events tkss) air)"
    using m(2) by simp
  have hand: "take_now (fold acc_event (carry @ concat (map tick_events ts) @ tk_before tk) x) = (w, a)"
    using w unfolding Cons.prems(4) by simp
  have "fst (main_run ops i2c (concat ((ts @ [tk]) # tkss)) nd) =
      (err, r, if err \<noteq> 0 then Append_Failed err else window_line w r) # fst (main_run ops i2c (concat tkss) ?m)"
    using run main_run_append [of ops i2c "ts @ [tk]" "concat tkss" nd] by simp
  then have "map (\<lambda>(err, r, line). content r) (fst (main_run ops i2c (concat ((ts @ [tk]) # tkss)) nd)) =
     content r # map (\<lambda>(err, r, line). content r) (fst (main_run ops i2c (concat tkss) ?m))" by simp
  also have "\<dots> = flush_record w aq # map2 flush_record (windows acc_event take_now (radar_events (tk_after tk @ tk_sleep tk) tkss) a)
      (windows (\<lambda>_. sen5x_poll i2c) (sen5x_window_take i2c) (air_events tkss) air)"
    using append_content [OF st] ih by simp
  finally show ?case using hand aq ts(1)
    by (simp add: air_events_def del: map_append fold_append)
qed (simp add: air_events_def)

text \<open>
  C18: the records of a run are the windows of the sensors: thirty turns make exactly one record,
  and its contents are the radar window of the frames that came since the last take (those
  that came during the flush and the sleep after it included) and the air window of the
  thirty polls, so no frame and no poll is lost or counted twice, whatever the store returns.
\<close>

theorem records_are_windows:
  assumes "along tick_ok ops i2c (concat tkss) nd" and "nd_sec nd = 0" and "\<forall>tks \<in> set tkss. length tks = 30"
  shows "map (\<lambda>(err, r, line). content r) (fst (main_run ops i2c (concat tkss) nd)) =
    map2 flush_record (windows acc_event take_now (radar_events [] tkss) (nd_acc nd, nd_now nd))
      (windows (\<lambda>_. sen5x_poll i2c) (sen5x_window_take i2c) (air_events tkss) (nd_air nd))"
  using windows_from [OF assms, of "[]" "(nd_acc nd, nd_now nd)"] by simp

section \<open>What a record says\<close>

lemma flags_eq:
  "rec_flags (flush_record w aq) =
     (if rw_alive w then 0 else 0x01) OR (if aq_alive aq then 0 else 0x40) OR (if rw_tracker w then 0 else 0x20) OR 0x04"
  by (simp add: flush_record_def Let_def zero_record_def)

lemma flush_fields [simp]:
  "rec_headcount (flush_record w aq) = rw_headcount w" "rec_occ_s (flush_record w aq) = rw_occ_s w"
  "rec_dwell_s (flush_record w aq) = rw_dwell_s w" "rec_pm25 (flush_record w aq) = aq_pm25 aq"
  "rec_pm10 (flush_record w aq) = aq_pm10 aq" "rec_temp (flush_record w aq) = aq_temp aq"
  "rec_rh (flush_record w aq) = aq_rh aq" "rec_voc (flush_record w aq) = aq_voc aq"
  "rec_batt (flush_record w aq) = 100"
  by (simp_all add: flush_record_def Let_def)

text \<open>
  A fault of one sensor is flagged and suppresses nothing of the other: the sensor-fault bit is
  set exactly if the radar sent no frame, the air-quality bit exactly if the air window is
  dead, the no-tracker bit exactly if no frame had a target list, the clock bit always and no
  other bit ever, while every measured value is passed on unchanged.
\<close>

theorem record_flags:
  "(rec_flags (flush_record w aq) AND SNTL_FLAG_SENSOR_FAULT \<noteq> 0 \<longleftrightarrow> \<not> rw_alive w) \<and>
   (rec_flags (flush_record w aq) AND SNTL_FLAG_AQ_FAULT \<noteq> 0 \<longleftrightarrow> \<not> aq_alive aq) \<and>
   (rec_flags (flush_record w aq) AND SNTL_FLAG_NO_TRACKER \<noteq> 0 \<longleftrightarrow> \<not> rw_tracker w) \<and>
   rec_flags (flush_record w aq) AND SNTL_FLAG_RTC_UNSET \<noteq> 0 \<and>
   rec_flags (flush_record w aq) AND NOT 0x65 = 0 \<and>
   rec_headcount (flush_record w aq) = rw_headcount w \<and> rec_occ_s (flush_record w aq) = rw_occ_s w \<and>
   rec_dwell_s (flush_record w aq) = rw_dwell_s w \<and> rec_pm25 (flush_record w aq) = aq_pm25 aq \<and>
   rec_pm10 (flush_record w aq) = aq_pm10 aq \<and> rec_temp (flush_record w aq) = aq_temp aq \<and>
   rec_rh (flush_record w aq) = aq_rh aq \<and> rec_voc (flush_record w aq) = aq_voc aq"
  unfolding flags_eq by (cases "rw_alive w"; cases "aq_alive aq"; cases "rw_tracker w"; simp)

text \<open>
  The temperature on the console is the recorded one: sign, whole degrees and two digits of
  hundredths read together as the value, for temperatures between -1 and 0 too, where whole
  degrees alone have no sign.
\<close>

theorem console_temperature:
  assumes "air_line r = Air pm25 pm10 neg (q, h) rh voc fault" and "rec_temp r \<noteq> SNTL_AQ_UNKNOWN_S"
  shows "sint (rec_temp r) = (if neg then - 1 else 1) * (100 * q + h) \<and> 0 \<le> q \<and> 0 \<le> h \<and> h < 100 \<and>
    (neg \<longleftrightarrow> sint (rec_temp r) < 0)"
proof -
  let ?t = "sint (rec_temp r)"
  have "neg = (?t < 0)" "q = cdiv \<bar>?t\<bar> 100" "h = crem \<bar>?t\<bar> 100"
    using assms by (auto simp: air_line_def Let_def split: if_splits)
  moreover have "cdiv \<bar>?t\<bar> 100 = \<bar>?t\<bar> div 100" by (rule cdiv_nonneg) simp_all
  moreover have "\<bar>?t\<bar> - \<bar>?t\<bar> div 100 * 100 = \<bar>?t\<bar> mod 100" by (simp add: minus_div_mult_eq_mod)
  ultimately have "neg = (?t < 0)" "q = \<bar>?t\<bar> div 100" "h = \<bar>?t\<bar> mod 100" by (simp_all add: crem_def)
  moreover have "100 * (\<bar>?t\<bar> div 100) + \<bar>?t\<bar> mod 100 = \<bar>?t\<bar>" by simp
  ultimately show ?thesis by auto
qed

theorem console_temperature_witness:
  "pr_temp (air_line (zero_record\<lparr>rec_temp := - 43\<rparr>)) = (0, 43) \<and>
   sint (- 43 :: i16) = - 1 * (100 * 0 + 43)"
proof -
  have "air_line (zero_record\<lparr>rec_temp := - 43\<rparr>) = Air (0, 0) (0, 0) True (0, 43) (0, 0) (Some (0, 0)) False"
    by (simp add: air_line_def zero_record_def cdiv_def crem_def)
  from console_temperature [OF this] this show ?thesis by simp
qed

section \<open>The store under the loop\<close>

lemma tick_store:
  "fst (main_tick ops i2c tk nd) = [] \<and> nd_store (snd (main_tick ops i2c tk nd)) = nd_store nd \<or>
   (\<exists>x err r st line. store_append ops (tk_append tk) (nd_store nd) x = (err, r, st) \<and>
      fst (main_tick ops i2c tk nd) = [(err, r, line)] \<and> nd_store (snd (main_tick ops i2c tk nd)) = st)"
  by (auto simp: main_tick_def window_flush_def Let_def case_prod_beta)

text \<open>The store can number and date the record of every turn.\<close>

definition store_ready :: "tick \<Rightarrow> ('f, 'b) node \<Rightarrow> bool" where
  "store_ready tk nd \<longleftrightarrow> in_range (nd_store nd) (tk_append tk)"

definition appended_all :: "(int \<times> sntl_record \<times> console) list \<Rightarrow> bool" where
  "appended_all outs \<longleftrightarrow> (\<forall>(err, r, line) \<in> set outs. err = 0)"

definition records :: "(int \<times> sntl_record \<times> console) list \<Rightarrow> sntl_record list" where
  "records outs = map (fst \<circ> snd) outs"

text \<open>The store is dated inside the turn.\<close>

lemma append_times:
  assumes ok: "tick_ok tk nd"
  shows "nd_now nd \<le> tk_append tk" and "tk_append tk \<le> nd_now (snd (main_tick ops i2c tk nd))"
    and "nd_now nd \<le> nd_now (snd (main_tick ops i2c tk nd))"
proof -
  let ?m = "snd (main_tick ops i2c tk nd)"
  let ?t1 = "time_after (nd_now nd) (tk_before tk)" and ?t2 = "time_after (time_after (nd_now nd) (tk_before tk)) (tk_after tk)"
  have s: "sorted (nd_now nd # map fst (tk_before tk @ tk_after tk @ tk_sleep tk))"
    and a: "?t1 \<le> tk_append tk" "tk_append tk \<le> ?t2"
    using ok by (simp_all add: tick_ok_def Let_def)
  have "sorted (nd_now nd # map fst (tk_before tk))" using s by (auto simp: sorted_append)
  then have b: "nd_now nd \<le> ?t1" by (rule sorted_time_after)
  have c: "?t2 \<le> time_after ?t2 (tk_sleep tk)"
  proof (rule sorted_time_after)
    have "?t2 \<in> set (nd_now nd # map fst (tk_before tk @ tk_after tk))"
      unfolding time_after_append [symmetric] unfolding time_after_def by (rule last_in_set) simp
    moreover have "sorted ((nd_now nd # map fst (tk_before tk @ tk_after tk)) @ map fst (tk_sleep tk))" using s by simp
    ultimately show "sorted (?t2 # map fst (tk_sleep tk))" unfolding sorted_append by auto
  qed
  have n: "nd_now ?m = time_after ?t2 (tk_sleep tk)" using tick_times(2) [OF ok] by (simp add: tick_events_def)
  show "nd_now nd \<le> tk_append tk" "tk_append tk \<le> nd_now ?m" "nd_now nd \<le> nd_now ?m"
    unfolding n using a b c by linarith+
qed

lemma run_store:
  assumes "along tick_ok ops i2c tks nd" and "along store_ready ops i2c tks nd" and "up \<le> nd_now nd"
    and "appended_all (fst (main_run ops i2c tks nd))"
  shows "\<exists>up'. runs (store_step ops) (nd_store nd, up) (records (fst (main_run ops i2c tks nd)))
                 (nd_store (snd (main_run ops i2c tks nd)), up')"
  using assms
proof (induction tks arbitrary: nd up)
  case Nil
  then show ?case by (auto simp: records_def intro: runs.runs_refl)
next
  case (Cons tk tks)
  let ?m = "snd (main_tick ops i2c tk nd)"
  have ok: "tick_ok tk nd" using Cons.prems(1) by simp
  note times = append_times(1) [OF ok] append_times(2,3) [OF ok, of ops i2c]
  have rest: "along tick_ok ops i2c tks ?m" "along store_ready ops i2c tks ?m"
    "appended_all (fst (main_run ops i2c tks ?m))"
    using Cons.prems by (auto simp: appended_all_def case_prod_beta)
  show ?case
    using tick_store [of ops i2c tk nd]
  proof (elim disjE exE conjE)
    assume q: "fst (main_tick ops i2c tk nd) = []" "nd_store ?m = nd_store nd"
    have "up \<le> nd_now ?m" using Cons.prems(3) times by simp
    from Cons.IH [OF rest(1,2) this rest(3)] show ?thesis
      using q by (simp add: case_prod_beta)
  next
    fix x err r st line
    assume a: "store_append ops (tk_append tk) (nd_store nd) x = (err, r, st)"
      and f: "fst (main_tick ops i2c tk nd) = [(err, r, line)]" "nd_store ?m = st"
    have "err = 0" using Cons.prems(4) f by (simp add: appended_all_def case_prod_beta)
    then have "store_step ops (nd_store nd, up) [r] (st, tk_append tk)"
      using a Cons.prems(2,3) times by (intro step_append) (auto simp: store_ready_def)
    moreover obtain up' where "runs (store_step ops) (st, tk_append tk) (records (fst (main_run ops i2c tks ?m)))
        (nd_store (snd (main_run ops i2c tks ?m)), up')"
      using Cons.IH [OF rest(1,2) times(2) rest(3)] f(2) by blast
    ultimately have "runs (store_step ops) (nd_store nd, up) ([r] @ records (fst (main_run ops i2c tks ?m)))
        (nd_store (snd (main_run ops i2c tks ?m)), up')"
      by (rule runs_cons)
    then show ?thesis using f by (auto simp: case_prod_beta records_def)
  qed
qed

section \<open>Start-up\<close>

text \<open>
  C40: no failure of a component at start-up stops the node: whatever the store, Bluetooth, the
  button, the radar and the air sensor return, the loop is entered, on its cadence; only the
  held probe button with the pin claimed keeps the node out of it.
\<close>

theorem start_reaches_loop:
  assumes "bu_probe bu = (ready, cfg, level)" and "bu_gpio1 bu = (p1, p1cfg)"
  shows "case main_start ops i2c bu nd of
           None \<Rightarrow> ready \<and> cfg = 0 \<and> level = 1 \<and> p1 \<and> p1cfg = 0
         | Some (errs, dev, nd') \<Rightarrow>
             \<not> (ready \<and> cfg = 0 \<and> level = 1 \<and> p1 \<and> p1cfg = 0) \<and> length errs = 5 \<and>
             length dev = 8 \<and> nd_sec nd' = 0 \<and> nd_next nd' = nd_now nd' + 1000 \<and> sx_acc (nd_air nd') = acc_reset"
proof -
  have dev: "length (snd (ble_start n hw e m)) = 8" for n hw e m
    by (simp add: ble_start_def Let_def device_id_init_def)
  have air: "sx_acc (snd (sen5x_start i2c s)) = acc_reset" for s
    by (auto simp: sen5x_start_def Let_def split: prod.splits)
  show ?thesis
    using assms dev air by (auto simp: main_start_def probe_mode_def Let_def case_prod_beta split: if_splits)
qed

text \<open>The board on which everything answers, with an empty flash.\<close>

definition good_bringup :: bringup where
  "good_bringup = \<lparr>bu_probe = (True, 0, 0), bu_gpio1 = (True, 0), bu_board = good_board,
     bu_hwid = (8, [1, 2, 3, 4, 5, 0xA1, 0xB2, 0xC3]), bu_bt = (0, 0), bu_btn = (True, 0, 0, 0),
     bu_radar = (True, True, 0), bu_uptime = 500\<rparr>"

definition blank_node :: "(nat \<Rightarrow> bytes option, bytes list) node" where
  "blank_node = \<lparr>nd_store = store_boot (\<lambda>k. None), nd_air = \<lparr>sx_bus = [], sx_running = False, sx_acc = acc_reset\<rparr>,
     nd_acc = rs_acc radar_boot, nd_now = 0, nd_sec = 0, nd_next = 0\<rparr>"

theorem start_reaches_loop_witness:
  "\<exists>dev nd'. main_start mem_nvs bench good_bringup blank_node = Some ([0, 0, 0, 0, - ENODEV], dev, nd') \<and>
     nd_next nd' = nd_now nd' + 1000"
proof -
  have "bu_probe good_bringup = (True, 0, 0)" "bu_gpio1 good_bringup = (True, 0)" by (simp_all add: good_bringup_def)
  from start_reaches_loop [OF this, of mem_nvs bench blank_node] show ?thesis
    by (auto simp: main_start_def good_bringup_def blank_node_def mem_init ble_start_def adv_btn_init_def
        radar_start_def sen5x_start_def Let_def split: option.splits)
qed

text \<open>
  The bring-up aid prints a level exactly when it differs from the one before, the first one
  always: the lines are the levels of the changes, and no two lines in a row are equal.
\<close>

theorem probe_prints_changes:
  assumes "\<forall>v \<in> set vs. v = 0 \<or> v = 1"
  shows "probe_mode True 0 vs = (False, map (\<lambda>v. v \<noteq> 0) (remdups_adj vs))"
proof -
  have "probe_loop l vs = map (\<lambda>v. v \<noteq> 0) (case remdups_adj (l # vs) of [] \<Rightarrow> [] | x # xs \<Rightarrow> xs)" for l
  proof (induction vs arbitrary: l)
    case (Cons v vs)
    obtain w where "remdups_adj (v # vs) = v # w"
      by (metis hd_remdups_adj list.collapse list.sel(1) remdups_adj_Nil_iff list.distinct(1))
    then show ?case using Cons.IH [of v] Cons.IH [of l] by (cases "v = l") simp_all
  qed simp
  moreover have "remdups_adj (- 1 # vs) = - 1 # remdups_adj vs"
    using assms by (cases vs) auto
  ultimately show ?thesis by (simp add: probe_mode_def)
qed

theorem probe_prints_changes_witness:
  "probe_mode True 0 [0, 0, 1, 1, 0] = (False, [False, True, False])"
  using probe_prints_changes [of "[0, 0, 1, 1, 0]"] by simp

section \<open>A node at rest\<close>

text \<open>Turns of 20 ms from a time on; in each the radar reports two targets.\<close>

fun idle :: "int \<Rightarrow> nat \<Rightarrow> tick list" where
  "idle t 0 = []"
| "idle t (Suc n) =
     \<lparr>tk_before = [(t + 20, Some (True, 2))], tk_append = t + 20, tk_after = [], tk_sleep = [(t + 1000, None)]\<rparr> #
     idle (t + 1000) n"

lemma length_idle [simp]: "length (idle t n) = n"
  by (induction n arbitrary: t) simp_all

lemma idle_prompt:
  "nd_now nd = t \<Longrightarrow> nd_next nd = t + 1000 \<Longrightarrow> along (prompt 0) ops i2c (idle t n) nd"
proof (induction n arbitrary: t nd)
  case (Suc n)
  let ?tk = "\<lparr>tk_before = [(t + 20, Some (True, 2))], tk_append = t + 20, tk_after = [], tk_sleep = [(t + 1000, None)]\<rparr> :: tick"
  have p: "prompt 0 ?tk nd" and ok: "tick_ok ?tk nd"
    using Suc.prems by (simp_all add: prompt_def tick_ok_def busy_def tick_events_def time_after_def delay_cast)
  have "along (prompt 0) ops i2c (idle (t + 1000) n) (snd (main_tick ops i2c ?tk nd))"
    using Suc.prems tick_times(1) [of ops i2c ?tk nd] tick_times(2) [OF ok, of ops i2c]
    by (intro Suc.IH) (simp_all add: tick_events_def time_after_def)
  then show ?case using p by simp
qed simp

lemma prompt_ok: "along (prompt eps) ops i2c tks nd \<Longrightarrow> along tick_ok ops i2c tks nd"
  by (induction tks arbitrary: nd) (auto simp: prompt_def)

theorem main_cadence_witness:
  "nd_now (snd (main_run mem_nvs bench (idle 0 86400) (blank_node\<lparr>nd_next := 1000\<rparr>))) = 86400000"
proof -
  have "along (prompt 0) mem_nvs bench (idle 0 86400) (blank_node\<lparr>nd_next := 1000\<rparr>)"
    by (rule idle_prompt) (simp_all add: blank_node_def)
  from main_cadence [OF this] show ?thesis by (simp add: blank_node_def)
qed

theorem records_are_windows_witness:
  "\<exists>w aq. map (\<lambda>(err, r, line). content r)
     (fst (main_run mem_nvs bench (concat [idle 0 30]) (blank_node\<lparr>nd_next := 1000\<rparr>))) = [flush_record w aq]"
proof -
  have "along (prompt 0) mem_nvs bench (concat [idle 0 30]) (blank_node\<lparr>nd_next := 1000\<rparr>)"
    by (simp only: concat.simps append_Nil2) (rule idle_prompt, simp_all add: blank_node_def)
  from records_are_windows [OF prompt_ok [OF this]] show ?thesis
    by (simp add: blank_node_def air_events_def case_prod_beta Let_def) blast
qed

section \<open>What a record says of the world\<close>

definition frames_of :: "radar_event list \<Rightarrow> (bool \<times> nat) list" where
  "frames_of evs = List.map_filter snd evs"

lemma frames_of_append: "frames_of (xs @ ys) = frames_of xs @ frames_of ys"
  by (simp add: frames_of_def map_filter_def)

lemma seen_frames_of: "seen acc_event event_frames evs x = frames_of evs"
  by (induction evs arbitrary: x) (auto simp: frames_of_def map_filter_simps event_frames_def split: option.split)

lemma samples_frames: "samples acc_event event_frames take_now ess x = map frames_of ess"
  by (induction ess arbitrary: x) (simp_all add: seen_frames_of)

lemma length_radar_events [simp]: "length (radar_events carry tkss) = length tkss"
  by (induction tkss arbitrary: carry) simp_all

lemma length_air_events [simp]: "length (air_events tkss) = length tkss"
  by (simp add: air_events_def)

lemma one_record_each:
  assumes "along tick_ok ops i2c (concat tkss) nd" and "nd_sec nd = 0" and "\<forall>tks \<in> set tkss. length tks = 30"
  shows "length (fst (main_run ops i2c (concat tkss) nd)) = length tkss"
  using arg_cong [OF windows_from [OF assms, of "[]" "(nd_acc nd, nd_now nd)"], of length] by simp

lemma record_of_window:
  assumes "along tick_ok ops i2c (concat tkss) nd" and "nd_sec nd = 0" and "\<forall>tks \<in> set tkss. length tks = 30"
    and "i < length tkss" and "r = fst (snd (fst (main_run ops i2c (concat tkss) nd) ! i))"
  shows "content r = flush_record (windows acc_event take_now (radar_events [] tkss) (nd_acc nd, nd_now nd) ! i)
    (windows (\<lambda>_. sen5x_poll i2c) (sen5x_window_take i2c) (air_events tkss) (nd_air nd) ! i)"
proof -
  have "content r = map (\<lambda>(err, r, line). content r) (fst (main_run ops i2c (concat tkss) nd)) ! i"
    using assms(4,5) one_record_each [OF assms(1-3)] by (simp add: case_prod_beta)
  then show ?thesis
    using assms(4) windows_from [OF assms(1-3), of "[]" "(nd_acc nd, nd_now nd)"] by simp
qed

lemma window_of_frames:
  assumes "acc_rep x []" and "i < length tkss"
  shows "window_of (frames_of (radar_events [] tkss ! i)) (windows acc_event take_now (radar_events [] tkss) x ! i)"
  using presence.windows_meet [OF assms(1), of "radar_events [] tkss"] assms(2)
  by (simp add: samples_frames list_all2_conv_all_nth)

lemma content_sel:
  "rec_headcount (content r) = rec_headcount r" "rec_occ_s (content r) = rec_occ_s r"
  "rec_dwell_s (content r) = rec_dwell_s r" "rec_batt (content r) = rec_batt r"
  "rec_flags (content r) = rec_flags r" "rec_pm25 (content r) = rec_pm25 r" "rec_pm10 (content r) = rec_pm10 r"
  "rec_temp (content r) = rec_temp r" "rec_rh (content r) = rec_rh r" "rec_voc (content r) = rec_voc r"
  by (simp_all add: content_def)

lemma idle_window: "frames_of (radar_events [] [idle 0 30] ! 0) = replicate 30 (True, 2)"
proof -
  have idle_frames: "frames_of (concat (map tick_events (idle t n))) = replicate n (True, 2)" for t n
    by (induction n arbitrary: t) (simp_all add: frames_of_def tick_events_def map_filter_simps)
  have add: "idle t (m + n) = idle t m @ idle (t + 1000 * int m) n" for t m n
    by (induction m arbitrary: t) (simp_all add: algebra_simps)
  have "idle 0 30 = idle 0 29 @ idle 29000 1" using add [of 0 29 1] by simp
  then show ?thesis
    using idle_frames [of 0 29] replicate_append_same [of 29 "(True, 2 :: nat)"]
    by (simp add: frames_of_append) (simp add: frames_of_def map_filter_simps replicate_Suc [of 29, simplified])
qed

text \<open>
  C9: every record tells the truth about its window, of fewer than 65536 frames with at most 20
  people each: its headcount is the highest count any frame of the window reported and its
  occupied seconds the occupied fraction of them scaled to 30 s; the sensor-fault bit is set
  exactly if no frame came, the no-tracker bit exactly if none had a target list; particulates
  are the peaks, humidity, temperature and VOC the last values, of the samples read in the
  window's thirty polls; and the air-quality fault bit is clear exactly if there was at least
  one such sample and the sensor did not report a fan or laser fault when the window was taken
  (a status query that itself fails reports none).
\<close>

theorem records_tell_truth:
  assumes "along tick_ok ops i2c (concat tkss) nd" and "nd_sec nd = 0" and "\<forall>tks \<in> set tkss. length tks = 30"
    and "acc_rep (nd_acc nd, nd_now nd) []" and "sx_acc (nd_air nd) = acc_reset" and i: "i < length tkss"
    and frs: "frs = frames_of (radar_events [] tkss ! i)" and "length frs < 65536" and "\<forall>f \<in> set frs. snd f \<le> 20"
    and ws: "ws = samples (\<lambda>_. sen5x_poll i2c) (\<lambda>_. poll_sample i2c) (sen5x_window_take i2c) (air_events tkss) (nd_air nd) ! i"
    and u: "u = takes (\<lambda>_. sen5x_poll i2c) (sen5x_window_take i2c) (air_events tkss) (nd_air nd) ! i"
    and r: "r = fst (snd (fst (main_run ops i2c (concat tkss) nd) ! i))"
  shows "unat (rec_headcount r) = Max (insert 0 (snd ` set frs)) \<and>
    unat (rec_occ_s r) = length (filter (\<lambda>f. 0 < snd f) frs) * 30 div length frs \<and>
    (rec_flags r AND SNTL_FLAG_SENSOR_FAULT \<noteq> 0 \<longleftrightarrow> frs = []) \<and>
    (rec_flags r AND SNTL_FLAG_NO_TRACKER \<noteq> 0 \<longleftrightarrow> (\<forall>f \<in> set frs. \<not> fst f)) \<and>
    rec_pm25 r = aq_pm25 (summary ws) \<and> rec_pm10 r = aq_pm10 (summary ws) \<and> rec_temp r = aq_temp (summary ws) \<and>
    rec_rh r = aq_rh (summary ws) \<and> rec_voc r = aq_voc (summary ws) \<and>
    (rec_flags r AND SNTL_FLAG_AQ_FAULT = 0 \<longleftrightarrow> ws \<noteq> [] \<and> \<not> fault_reported i2c (sx_bus u))"
proof -
  let ?w = "windows acc_event take_now (radar_events [] tkss) (nd_acc nd, nd_now nd) ! i"
  let ?a = "windows (\<lambda>_. sen5x_poll i2c) (sen5x_window_take i2c) (air_events tkss) (nd_air nd) ! i"
  note c = record_of_window [OF assms(1-3) i r]
  have w: "rw_alive ?w = (frs \<noteq> [])" "rw_tracker ?w = (\<exists>f \<in> set frs. fst f)"
    "unat (rw_headcount ?w) = Max (insert 0 (snd ` set frs))"
    "unat (rw_occ_s ?w) = length (filter (\<lambda>f. 0 < snd f) frs) * 30 div length frs"
    using window_of_frames [OF assms(4) i] frs assms(8,9) by (simp_all add: window_of_def)
  define alive where "alive \<longleftrightarrow> ws \<noteq> [] \<and> \<not> fault_reported i2c (sx_bus u)"
  have "sx_acc u = summary ws"
    using air.takes_rep [of "nd_air nd" i2c "air_events tkss"] assms(5) i ws u
    by (auto simp: list_all2_conv_all_nth)
  then have "fst (sen5x_window_take i2c u) = (summary ws)\<lparr>aq_alive := alive\<rparr>"
    using take_window(1) [of i2c u] unfolding alive_def by (cases "sen5x_window_take i2c u") simp
  then have a: "?a = (summary ws)\<lparr>aq_alive := alive\<rparr>"
    using i unfolding windows_takes u by simp
  have fl: "rec_flags r = (if frs \<noteq> [] then 0 else 0x01) OR (if alive then 0 else 0x40) OR
      (if \<exists>f \<in> set frs. fst f then 0 else 0x20) OR 0x04"
    using content_sel(5) [of r] c w a by (simp add: flags_eq)
  have "(rec_flags r AND 0x01 \<noteq> 0 \<longleftrightarrow> frs = []) \<and> (rec_flags r AND 0x20 \<noteq> 0 \<longleftrightarrow> (\<forall>f \<in> set frs. \<not> fst f)) \<and>
      (rec_flags r AND 0x40 = 0 \<longleftrightarrow> alive)"
    unfolding fl by (cases "frs = []"; cases "\<exists>f \<in> set frs. fst f"; cases alive; simp)
  moreover have "rec_headcount r = rw_headcount ?w" "rec_occ_s r = rw_occ_s ?w"
    "rec_pm25 r = aq_pm25 (summary ws)" "rec_pm10 r = aq_pm10 (summary ws)" "rec_temp r = aq_temp (summary ws)"
    "rec_rh r = aq_rh (summary ws)" "rec_voc r = aq_voc (summary ws)"
    using content_sel [of r] c a by simp_all
  ultimately show ?thesis using w unfolding alive_def by simp
qed

theorem records_tell_truth_witness:
  "unat (rec_headcount (fst (snd (fst (main_run mem_nvs bench (concat [idle 0 30]) (blank_node\<lparr>nd_next := 1000\<rparr>)) ! 0)))) = 2"
proof -
  let ?nd = "blank_node\<lparr>nd_next := 1000\<rparr>"
  have al: "along (prompt 0) mem_nvs bench (concat [idle 0 30]) ?nd"
    by (simp only: concat.simps append_Nil2) (rule idle_prompt, simp_all add: blank_node_def)
  have "acc_rep (nd_acc ?nd, nd_now ?nd) []" by (simp add: blank_node_def acc_rep_boot)
  from records_tell_truth [OF prompt_ok [OF al] _ _ this _ _ idle_window [symmetric] _ _ refl refl refl] show ?thesis
    by (simp add: blank_node_def)
qed

section \<open>Well-formed records\<close>

text \<open>
  What every field of a stored record keeps to, and how the flags and the fields agree: only
  flags the node sets, the clock flag always; at most 20 people and 30 s; a record without
  radar data says so and is empty; without a tracker the headcount is a floor of 0 or 1.
\<close>

definition record_wf :: "sntl_record \<Rightarrow> bool" where
  "record_wf r \<longleftrightarrow>
     rec_flags r AND NOT (SNTL_FLAG_SENSOR_FAULT OR SNTL_FLAG_RTC_UNSET OR SNTL_FLAG_NO_TRACKER OR SNTL_FLAG_AQ_FAULT) = 0 \<and>
     rec_flags r AND SNTL_FLAG_RTC_UNSET \<noteq> 0 \<and> rec_batt r = 100 \<and>
     unat (rec_headcount r) \<le> 20 \<and> unat (rec_occ_s r) \<le> STORE_PERIOD_S \<and>
     (0 < rec_occ_s r \<longrightarrow> 0 < rec_headcount r) \<and>
     (rec_flags r AND SNTL_FLAG_SENSOR_FAULT \<noteq> 0 \<longrightarrow>
        rec_flags r AND SNTL_FLAG_NO_TRACKER \<noteq> 0 \<and> rec_headcount r = 0 \<and> rec_occ_s r = 0 \<and> rec_dwell_s r = 0) \<and>
     (rec_flags r AND SNTL_FLAG_NO_TRACKER \<noteq> 0 \<longrightarrow> unat (rec_headcount r) \<le> 1)"

text \<open>What \<open>frame_count\<close> gives: at most 20 targets, or 0 or 1 without a target list.\<close>

definition count_ok :: "bool \<times> nat \<Rightarrow> bool" where
  "count_ok f \<longleftrightarrow> snd f \<le> 20 \<and> (fst f \<or> snd f \<le> 1)"

lemma count_of_ok: "count_ok (count_of ts)"
  using count_bound [of ts] count_floor [of ts] by (auto simp: count_ok_def)

lemma dead_dwell: "\<forall>w \<in> set (windows acc_event take_now ess x). rw_alive w \<or> rw_dwell_s w = 0"
proof (induction ess arbitrary: x)
  case (Cons es ess)
  let ?x = "fold acc_event es x"
  have w: "fst (take_now ?x) = fst (radar_window_take (snd ?x) (fst ?x))" by (simp add: take_now_def case_prod_beta)
  have "rw_alive (fst (take_now ?x)) \<or> rw_dwell_s (fst (take_now ?x)) = 0"
    unfolding w by (simp add: take_sel)
  then show ?case using Cons.IH [of "snd (take_now ?x)"] by (simp add: case_prod_beta)
qed simp

lemma flush_wf:
  assumes "window_of frs w" and "length frs < 65536" and "\<forall>f \<in> set frs. count_ok f"
    and "\<not> rw_alive w \<Longrightarrow> rw_dwell_s w = 0"
  shows "record_wf (flush_record w aq)"
proof -
  let ?M = "Max (insert 0 (snd ` set frs))"
  let ?occ = "length (filter (\<lambda>f. 0 < snd f) frs)"
  have w: "rw_alive w = (frs \<noteq> [])" "rw_tracker w = (\<exists>f \<in> set frs. fst f)" "unat (rw_headcount w) = ?M"
    "unat (rw_occ_s w) = ?occ * 30 div length frs"
    using assms(1-3) by (auto simp: window_of_def count_ok_def)
  have M: "?M \<le> 20" and M1: "\<not> rw_tracker w \<Longrightarrow> ?M \<le> 1"
    using assms(3) w(2) by (auto simp: count_ok_def)
  have "?occ * 30 \<le> length frs * 30" by (intro mult_le_mono1 length_filter_le)
  then have occ: "unat (rw_occ_s w) \<le> 30" unfolding w(4)
    using div_le_mono [of "?occ * 30" "length frs * 30" "length frs"] by (cases "frs = []") simp_all
  have pos: "0 < unat (rw_headcount w)" if "0 < unat (rw_occ_s w)"
  proof -
    have "?occ \<noteq> 0" using that unfolding w(4) by (metis div_0 less_irrefl mult_0)
    then obtain f where "f \<in> set frs" "0 < snd f" by (auto simp: filter_empty_conv)
    then show ?thesis unfolding w(3) by (auto simp: Max_gr_iff)
  qed
  have dead: "unat (rw_headcount w) = 0" "unat (rw_occ_s w) = 0" "\<not> rw_tracker w" if "\<not> rw_alive w"
    using that w by auto
  have zero: "rw_headcount w = 0" "rw_occ_s w = 0" if "\<not> rw_alive w"
    using dead [OF that] by (simp_all add: unat_eq_0)
  have pos': "0 < rw_occ_s w \<longrightarrow> 0 < rw_headcount w" using pos by (simp add: word_nat)
  have lim: "unat (rw_headcount w) \<le> 20" "\<not> rw_tracker w \<Longrightarrow> unat (rw_headcount w) \<le> 1"
    using M M1 w(3) by simp_all
  show ?thesis
    unfolding record_wf_def flags_eq flush_fields
    using lim occ pos' zero dead(3) assms(4)
    by (cases "rw_alive w"; cases "aq_alive aq"; cases "rw_tracker w") simp_all
qed

lemma idle_ok: "evs = radar_events [] [idle 0 30] ! 0 \<Longrightarrow> length (frames_of evs) < 65536 \<and> (\<forall>f \<in> set (frames_of evs). count_ok f)"
  by (simp only: idle_window) (simp add: count_ok_def)

text \<open>
  C10: every record the node stores is well formed, whatever the sensors do: as long as each frame
  counts like a frame (at most 20 people, 0 or 1 without a target list) and a window has fewer
  than 65536 of them, the fields and flags of each record of any number of windows keep to
  \<open>record_wf\<close>.
\<close>

theorem records_well_formed:
  assumes "along tick_ok ops i2c (concat tkss) nd" and "nd_sec nd = 0" and "\<forall>tks \<in> set tkss. length tks = 30"
    and "acc_rep (nd_acc nd, nd_now nd) []"
    and "\<forall>evs \<in> set (radar_events [] tkss). length (frames_of evs) < 65536 \<and> (\<forall>f \<in> set (frames_of evs). count_ok f)"
  shows "\<forall>(err, r, line) \<in> set (fst (main_run ops i2c (concat tkss) nd)). record_wf r"
proof -
  let ?outs = "fst (main_run ops i2c (concat tkss) nd)"
  let ?rw = "windows acc_event take_now (radar_events [] tkss) (nd_acc nd, nd_now nd)"
  have "record_wf (fst (snd (?outs ! i)))" if "i < length ?outs" for i
  proof -
    have i: "i < length tkss" using that one_record_each [OF assms(1-3)] by simp
    let ?frs = "frames_of (radar_events [] tkss ! i)"
    have frs: "length ?frs < 65536" "\<forall>f \<in> set ?frs. count_ok f" using assms(5) i by (simp_all add: all_set_conv_all_nth)
    have "\<not> rw_alive (?rw ! i) \<Longrightarrow> rw_dwell_s (?rw ! i) = 0" 
      using dead_dwell [of "radar_events [] tkss" "(nd_acc nd, nd_now nd)"] i by (auto simp: all_set_conv_all_nth)
    from flush_wf [OF window_of_frames [OF assms(4) i] frs this] record_of_window [OF assms(1-3) i refl]
    have "record_wf (content (fst (snd (?outs ! i))))" by simp
    then show ?thesis by (simp add: record_wf_def content_sel)
  qed
  then show ?thesis by (auto simp: in_set_conv_nth) (metis fst_conv snd_conv)
qed

theorem records_well_formed_witness:
  "record_wf (fst (snd (fst (main_run mem_nvs bench (concat [idle 0 30]) (blank_node\<lparr>nd_next := 1000\<rparr>)) ! 0)))"
proof -
  let ?nd = "blank_node\<lparr>nd_next := 1000\<rparr>"
  have al: "along (prompt 0) mem_nvs bench (concat [idle 0 30]) ?nd"
    by (simp only: concat.simps append_Nil2) (rule idle_prompt, simp_all add: blank_node_def)
  have rep: "acc_rep (nd_acc ?nd, nd_now ?nd) []" by (simp add: blank_node_def acc_rep_boot)
  have "radar_events [] [idle 0 30] = [radar_events [] [idle 0 30] ! 0]" by (simp add: list_eq_iff_nth_eq)
  then have fr: "\<forall>evs \<in> set (radar_events [] [idle 0 30]). length (frames_of evs) < 65536 \<and> (\<forall>f \<in> set (frames_of evs). count_ok f)"
    by (metis (no_types, lifting) idle_ok empty_iff empty_set set_ConsD)
  note sec = prompt_ok [OF al]
  have "length (fst (main_run mem_nvs bench (concat [idle 0 30]) ?nd)) = 1"
    using one_record_each [OF sec] by (simp add: blank_node_def)
  then have "fst (main_run mem_nvs bench (concat [idle 0 30]) ?nd) ! 0 \<in> set (fst (main_run mem_nvs bench (concat [idle 0 30]) ?nd))"
    by (intro nth_mem) simp
  moreover have "\<forall>(err, r, line) \<in> set (fst (main_run mem_nvs bench (concat [idle 0 30]) ?nd)). record_wf r"
    by (rule records_well_formed [OF sec _ _ rep fr]) (simp_all add: blank_node_def)
  ultimately show ?thesis by (auto simp: case_prod_beta)
qed

end
