(* ===== verification/Spec2Isabelle.thy ===== *)
theory Spec2Isabelle
  imports Frame Tlv Reasm Resync Host_Tests Store Sen5x Radar Radar_Cli Radar_Link Radar_Rx Ble_Gatt Ble_Adv Ble_Session Main_Loop
begin

text \<open>
  A verification library for the firmware of an occupancy and air-quality node (nRF5340, Zephyr):
  the C files under src/src.

  The program. A radar on a serial port is configured over its command line and then streams
  frames of TLVs (radar.c, tlv.c); an air sensor on I2C is polled once a second (sen5x.c); every
  30 s the main loop takes one window from each, makes a record and appends it to a ring of
  2880 records in flash (main.c, store.c); a phone that connects over Bluetooth asks for the
  records from a sequence number on and gets them as one frame with a CRC, cut into
  notifications (ble.c, frame.c). A button makes the node visible for 20 s. Five contexts run
  beside each other: the main loop, the radar thread, the dump thread, the work queue with the
  Bluetooth callbacks, and interrupts.

  Theories and code.
    Prelude: machine integers as words, checked buffer accesses (\<open>None\<close> is undefined behaviour),
      little-endian conversions, C division, runs of a step relation.
    Crc: shift-register CRCs over any polynomial; the locale \<open>crc_register\<close> with burst detection.
    Frame: frame.h, frame.c; beside the code a reader (\<open>decode_frame\<close>), the inverse the app has.
    Tlv: tlv.h and the parsers of tlv.c. Reasm: the byte-at-a-time reassembler of tlv.c and, as
      the locale \<open>framer\<close>, what the radar thread needs of it. Resync: its recovery from lost bytes.
    Store: store.h, store.c over NVS, a parameter under \<open>nvs_contract\<close>; the locale \<open>durable_log\<close>.
    Window: the locale \<open>windowed\<close>, the contract between a sensor and the main loop.
    Sen5x: sen5x.h, sen5x.c over an I2C bus. Radar: radar.h and the streaming half of radar.c.
    Radar_Cli: the command line, the configuration and the receive interrupt of radar.c.
    Radar_Link: the two loops of the radar thread over any port; a bench for the witnesses.
    Radar_Rx: the receive path, interrupts and polls in any order over one ring.
    Ble: ble.h, the control characteristic and the dump thread of ble.c. Ble_Adv: its
      advertising window and connection callbacks, as a step relation of events. Ble_Session: the
      dump thread beside the callbacks, with the references to the connection object. Ble_Gatt:
      the static tables, advertising data and service.
    Main_Loop: main.c, start-up, the loop and \<open>window_flush\<close>.
    Host_Tests: the assertions of tests/test_frame.c and tests/test_tlv.c, which the model meets.
    This theory: the path from the sensors through the store to the reader.
  The name of a definition is that of the C function; its file-scope variables are a record of the
  theory; a part of a long function has a definition of its own (\<open>frame_count\<close>, \<open>acc_frame\<close> and
  \<open>types_loop\<close> of \<open>on_frame\<close>; \<open>dump_loop\<close> and \<open>dump_tail\<close> of \<open>dump_run\<close>).

  What the lemmas show.
    Memory: no access outside a buffer in the reassembler, the parsers, the command line's sliding
      window and the dump, on any input; the diagnostic walk of \<open>on_frame\<close> is the exception, and it is
      shown how one lost read makes it leave the buffer (\<open>lost_read_walks_out\<close>).
    The stream: the reassembler delivers exactly the frames a search of the whole stream finds,
      resynchronises after bogus lengths, and on frames that hold the magic word only at their
      heads recovers from any state within 2 KB of the stream (\<open>stream_recovers\<close>). However
      interrupts and polls interleave, while no read is dropped and the frames are well formed
      the thread counts each frame sent once, and the window is the summary of the frames on the
      wire (\<open>wire_counted\<close>, \<open>wire_to_window\<close>).
    The radar's rounds: after a configuration that succeeded, the frames read are counted, on any
      port that loses no byte, and only a stall ends the round (\<open>radar_round_counts\<close>); on no port
      does the thread stream without a Done after sensorStart (\<open>radar_streams_after_done\<close>, and
      \<open>radar_refused\<close> for a radar that never says it); a configuration always returns.
    The reader: one who stays gets one frame from a live connection, a disconnection ends the dump, the
      references balance; the schedules in which the dump outlives its connection are given.
      A scanner reads the device id and the service out of the advertising data.
    The dump: beside a main loop that keeps appending, what arrives is the log; a placeholder stands
      only for a record the ring recycled meanwhile (\<open>dump_beside_appends\<close>).
    The wire: encoding and decoding are inverse; the CRCs detect bursts; a corrupted frame is
      rejected; what a dump sends is one valid frame or a prefix of one.
    The store: it refines a bounded log; numbers and times are monotone over appends and reboots,
      and power loss at any point of an append leaves the old or the new log.
    Windows: each record is the summary of its own window; dwell crosses windows; fault bits are
      set exactly when a sensor was silent or the air sensor reported a fault; every stored record is well formed (\<open>record_wf\<close>).
    Time: the cadence does not drift; the waits and the dump return; a stall is detected; the
      advertising window is bounded, the node visible in it unless the stack failed the last
      attempt, and invisible at rest under two conditions on the schedule, with the schedules in
      which they fail and the node stays visible.
    The locales \<open>crc_register\<close>, \<open>framer\<close>, \<open>windowed\<close>, \<open>durable_log\<close> and \<open>tracked_link\<close> state the
      interfaces; they are interpreted on the CRCs of frame.c and sen5x.c, on the reassembler, on
      both sensors, on the store over any NVS that keeps its contract, and on the link of the
      dump thread beside the callbacks (for a reader who stays, and for one who leaves).

  Loops. Counted loops are recursive functions with a measure; \<open>tlv_find_loop\<close>, \<open>cli_wait_loop\<close>,
  \<open>cli_drain\<close>, \<open>notify_chunk\<close>, \<open>configure_loop\<close> and \<open>stream_loop\<close> are
  \<open>partial_function (option)\<close>, where \<open>None\<close> also means not returning; that they do return is
  proved (\<open>tlv_find_correct\<close>, \<open>cli_wait_returns\<close>, \<open>configure_returns\<close>, \<open>dump_returns\<close>,
  \<open>dump_ends_with_reader\<close>, \<open>radar_round_counts\<close>), and where they do not is proved too
  (\<open>small_mtu_never_ends\<close>, \<open>radar_refused\<close>). No fuel is used.
  The radar thread, the dump thread and the main loop run for ever; they are modelled by the
  turn (\<open>thread_step\<close>, \<open>poll\<close>, \<open>thread_round\<close>, \<open>dump_turn\<close>, \<open>sys_turn\<close>, \<open>main_tick\<close>) and runs of turns.

  Parameters. NVS, the I2C bus, the uart with its pins and clock, and the Bluetooth link are
  records of operations over a state of any type; what the code relies on of them is a named
  hypothesis (\<open>nvs_contract\<close>, \<open>link_drains\<close>, \<open>link_gets\<close>, \<open>gets_own\<close>, \<open>io_paced\<close>, \<open>ring_drains\<close>, \<open>clocked\<close>,
  \<open>feeds\<close>, \<open>fifo_ok\<close>, \<open>documented\<close>, \<open>tick_ok\<close>), met by a concrete instance in the witnesses.
  \<open>nvs_contract\<close> is NVS as documented, with two idealisations: the read of an entry that is there
  does not fail, and no entry is empty. The work queue, the delayed work item, the semaphore
  and the ring buffer are part of the states and behave as Zephyr documents them (\<open>submit\<close>,
  \<open>adv_step\<close>, \<open>ring_buf_put\<close>). Uptime is an unbounded integer, as \<open>int64_t\<close> milliseconds do not wrap.

  Not modelled. The texts of \<open>printk\<close>, apart from the values of the status and record lines; the
  value of a float (parsers keep the 32 bits); what the Bluetooth stack makes of the static tables
  beyond the sizes; the devicetree and build configuration. The mutexes are not objects of the
  model: each critical section is one step. One reading of the uptime stands for those that
  \<open>on_frame\<close> and the streaming loop make while they handle one chunk (radar.c 460, 567, 578). The
  status line of \<open>on_frame\<close> is without its rx-dropped suffix and the conversion of coordinates to
  centimetres. \<open>main_start\<close> keeps the error codes of the parts it starts, not what they did
  beside that, and of \<open>probe_mode\<close> whether it comes back. In Ble_Session the other contexts run
  between the calls the dump thread makes, so a stack call itself is one step; the store's
  bounds and reads are fixed there, the stack's refusals a finite list; the callback of a
  disconnection and the end of the stack's own reference are one step (\<open>stack_disconnects\<close>),
  without the interval in which Zephyr still holds the object after the callback.
\<close>

section \<open>From the sensors to the reader\<close>

text \<open>
  The dump thread reads the store as it stands (no append runs beside the dump); what \<open>store_get\<close>
  finds in its argument before the call does not matter.
\<close>

definition serves :: "'f nvs_ops \<Rightarrow> 'f store \<Rightarrow> 'e link \<Rightarrow> 'e \<Rightarrow> bool" where
  "serves ops st lk e \<longleftrightarrow>
     (\<exists>e0. lk_bounds lk e = (store_oldest_seq st, store_next_seq st, e0)) \<and>
     (\<forall>seq e. \<exists>out e'. lk_get lk seq e = (fst (store_get ops st seq out), snd (store_get ops st seq out), e'))"

definition sent_record :: "'f nvs_ops \<Rightarrow> 'f store \<Rightarrow> u32 \<Rightarrow> sntl_record" where
  "sent_record ops st seq = (case store_lookup ops st seq of None \<Rightarrow> placeholder seq | Some r \<Rightarrow> r)"

lemma get_any:
  assumes "nvs_contract ops view"
  shows "(if fst (store_get ops st seq out) \<noteq> 0 then placeholder seq else snd (store_get ops st seq out)) =
    sent_record ops st seq"
proof -
  have "(case store_get ops st seq out of (e, r) \<Rightarrow> if e = 0 then Some r else None) = store_lookup ops st seq"
    using get_read_slot [OF assms, of st seq out] by (simp add: lookup_eq [OF assms] store_get_def)
  then show ?thesis
    by (cases "store_get ops st seq out") (auto simp: sent_record_def split: option.split if_splits)
qed

lemma sent_seq: "nvs_contract ops view \<Longrightarrow> rec_seq (sent_record ops st seq) = seq"
  by (auto simp: sent_record_def lookup_eq slot_record_seq split: option.split if_splits)

text \<open>A dump of a store that stands still, in terms of the store alone.\<close>

lemma dump_of_store:
  assumes c: "nvs_contract ops view" and s: "serves ops st lk e" and j: "length junk = 244"
    and r: "sntl_dump_range first (store_oldest_seq st) (store_next_seq st) = (count, start)"
    and d: "dump_run lk dev junk first e = Some (True, d, e')"
  shows "decode_frame (concat (map fst (d_sent d))) = Some (copy_id SNTL_DEVICE_ID_LEN dev,
    map (\<lambda>k. sent_record ops st (of_nat k)) [unat start ..< unat start + unat count])"
proof -
  obtain e0 where b: "lk_bounds lk e = (store_oldest_seq st, store_next_seq st, e0)"
    using s by (auto simp: serves_def)
  have get: "\<exists>g r e'. lk_get lk seq e = (g, r, e') \<and> (if g \<noteq> 0 then placeholder seq else r) = sent_record ops st seq"
    for seq e
  proof -
    obtain out e' where "lk_get lk seq e = (fst (store_get ops st seq out), snd (store_get ops st seq out), e')"
      using s unfolding serves_def by blast
    then show ?thesis using get_any [OF c, of st seq out] by blast
  qed
  have gets: "link_gets lk"
    unfolding link_gets_def
  proof (intro allI impI)
    fix seq e g r e' assume "lk_get lk seq e = (g, r, e')" "g = 0"
    then show "rec_seq r = seq" using get [of seq e] sent_seq [OF c, of st seq] by auto
  qed
  have "d_recs d = map (\<lambda>k. sent_record ops st (of_nat k)) [unat start ..< unat start + unat count]"
  proof -
    have "reads_by lk (\<lambda>seq r. r = sent_record ops st seq)" using get unfolding reads_by_def by metis
    from run_reads [OF this j b r d] show ?thesis
      by (auto simp: list_all2_conv_all_nth intro: nth_equalityI)
  qed
  moreover have "concat (map fst (d_sent d)) = encode_frame dev (d_recs d)"
    using run_result [OF gets j b r d] by simp
  moreover have "length (d_recs d) < 65536"
    using calculation(1) unsigned_less [where ?'a = nat, of count] by simp
  ultimately show ?thesis using frame_decodes by metis
qed

lemma of_nat_seq: "unat (w :: u32) = k \<Longrightarrow> of_nat k = w"
  by auto

text \<open>
  The store after records \<open>rs\<close> on erased flash, as a dump sees it: the last 2880 of them, from the
  number asked for on.
\<close>

lemma store_as_sent:
  assumes c: "nvs_contract ops view" and "\<forall>k. view f k = None" and "store_init ops bd (store_boot f) = (0, s)"
    and "runs (store_step ops) (s, 0) rs (t, up)"
    and r: "sntl_dump_range first (store_oldest_seq t) (store_next_seq t) = (count, start)"
  shows "map (\<lambda>k. sent_record ops t (of_nat k)) [unat start ..< unat start + unat count] =
    drop (max (unat first) (length rs - 2880)) rs"
proof -
  let ?n = "length rs" and ?k = "max (unat first) (length rs - 2880)"
  have seqs: "map (unat \<circ> rec_seq) rs = [0 ..< ?n]" and nx: "unat (store_next_seq t) = ?n"
    and held: "\<forall>i < ?n. store_lookup ops t (rec_seq (rs ! i)) = (if ?n \<le> i + 2880 then Some (rs ! i) else None)"
    using store_run_facts [OF assms(1-4)] by simp_all
  have seq: "rec_seq (rs ! i) = of_nat i" if "i < ?n" for i
    using arg_cong [OF seqs, of "\<lambda>l. l ! i"] that by (simp add: of_nat_seq)
  have old: "unat (store_oldest_seq t) = ?n - 2880" if "0 < ?n"
  proof -
    let ?i = "?n - 2880"
    have i: "?i < ?n" "?n \<le> ?i + 2880" using that by simp_all
    then have "store_lookup ops t (rec_seq (rs ! ?i)) \<noteq> None" using held by simp
    then have "store_get_check t (of_nat ?i)" using seq [OF i(1)] by (simp add: lookup_eq [OF c] split: if_splits)
    then have "unat (floor_seq t) \<le> unat (of_nat ?i :: u32)" by (simp add: check_nat)
    also have "\<dots> \<le> ?i" by (simp add: unat_of_nat)
    finally show ?thesis using nx by (simp add: oldest_nat store_next_seq_def)
  qed
  have range: "[unat start ..< unat start + unat count] = [?k ..< ?n]"
  proof (cases "?n = 0")
    case True
    then have "count = 0" using r nx by (auto simp: sntl_dump_range_def Let_def word_nat split: if_splits)
    then show ?thesis using True by simp
  next
    case False
    have "(unat count, unat start) = map_prod unat unat (sntl_dump_range first (store_oldest_seq t) (store_next_seq t))"
      using r by simp
    then have "(unat count, unat start) = (if ?n \<le> ?k then (0, ?n) else (min 65535 (?n - ?k), ?k))"
      using False old nx by (simp add: dump_range_nat Let_def) (auto simp: max_def split: if_splits)
    moreover have "min 65535 (?n - ?k) = ?n - ?k" by simp
    ultimately show ?thesis by (auto split: if_splits)
  qed
  have "sent_record ops t (of_nat k) = rs ! k" if "?k \<le> k" "k < ?n" for k
  proof -
    have "length rs \<le> k + 2880" using that(1) by (simp add: le_diff_conv)
    then have "store_lookup ops t (rec_seq (rs ! k)) = Some (rs ! k)" using held that(2) by simp
    then show ?thesis by (simp add: sent_record_def seq [OF that(2)])
  qed
  then have "map (\<lambda>k. sent_record ops t (of_nat k)) [?k ..< ?n] = map ((!) rs) [?k ..< ?n]"
    by (intro map_cong) auto
  also have "\<dots> = drop ?k rs" by (rule nth_equalityI) simp_all
  finally show ?thesis unfolding range .
qed

text \<open>
  C1: the node delivers what its sensors saw: from a first boot on erased flash, after any number
  of thirty-turn windows whose appends succeeded, a dump that ends well on a link that serves
  the store is a frame the reader accepts; its records are numbered consecutively up to the last
  one, from the number asked for or, if that is gone, from the oldest of the last 2880, and
  their contents are the windows of the two sensors, in order.
\<close>

theorem dump_delivers_windows:
  assumes "nvs_contract ops view" and "\<forall>k. view f k = None" and "store_init ops bd (store_boot f) = (0, nd_store nd)"
    and "along tick_ok ops i2c (concat tkss) nd" and "along store_ready ops i2c (concat tkss) nd"
    and "nd_sec nd = 0" and "0 \<le> nd_now nd" and "\<forall>tks \<in> set tkss. length tks = 30"
    and "main_run ops i2c (concat tkss) nd = (outs, nd')" and "appended_all outs"
    and "serves ops (nd_store nd') lk e" and "length junk = 244"
    and "dump_run lk dev junk first e = Some (True, d, e')"
  shows "\<exists>recs. decode_frame (concat (map fst (d_sent d))) = Some (copy_id SNTL_DEVICE_ID_LEN dev, recs) \<and>
    map (unat \<circ> rec_seq) recs = [max (unat first) (length tkss - STORE_CAPACITY) ..< length tkss] \<and>
    map content recs = drop (max (unat first) (length tkss - STORE_CAPACITY))
      (map2 flush_record (windows acc_event take_now (radar_events [] tkss) (nd_acc nd, nd_now nd))
        (windows (\<lambda>_. sen5x_poll i2c) (sen5x_window_take i2c) (air_events tkss) (nd_air nd)))"
proof -
  let ?t = "nd_store nd'" and ?rs = "records outs" and ?k = "max (unat first) (length tkss - 2880)"
  let ?ws = "map2 flush_record (windows acc_event take_now (radar_events [] tkss) (nd_acc nd, nd_now nd))
        (windows (\<lambda>_. sen5x_poll i2c) (sen5x_window_take i2c) (air_events tkss) (nd_air nd))"
  have "map content ?rs = map (\<lambda>(err, r, line). content r) outs"
    by (simp add: records_def case_prod_beta')
  then have contents: "map content ?rs = ?ws"
    using windows_from [OF assms(4,6,8), of "[]" "(nd_acc nd, nd_now nd)"] assms(9) by simp
  have len: "length ?rs = length tkss"
    using one_record_each [OF assms(4,6,8)] assms(9) by (simp add: records_def)
  obtain up where run: "runs (store_step ops) (nd_store nd, 0) ?rs (?t, up)"
    using run_store [OF assms(4,5,7)] assms(9,10) by auto
  obtain count start where r: "sntl_dump_range first (store_oldest_seq ?t) (store_next_seq ?t) = (count, start)"
    by fastforce
  have dec: "decode_frame (concat (map fst (d_sent d))) = Some (copy_id SNTL_DEVICE_ID_LEN dev, drop ?k ?rs)"
    using dump_of_store [OF assms(1,11,12) r assms(13)] store_as_sent [OF assms(1-3) run r] len by simp
  have "map (unat \<circ> rec_seq) ?rs = [0 ..< length ?rs]" using store_run_facts [OF assms(1-3) run] by simp
  then have "map (unat \<circ> rec_seq) (drop ?k ?rs) = [?k ..< length tkss]"
    using len by (simp add: drop_map [symmetric] drop_upt)
  moreover have "map content (drop ?k ?rs) = drop ?k ?ws" unfolding drop_map [symmetric] contents ..
  ultimately show ?thesis using dec unfolding capacity by blast
qed

section \<open>A dump while records are appended\<close>

text \<open>
  The store in a run from the first boot, with the records appended so far.
\<close>

definition live :: "'f nvs_ops \<Rightarrow> 'f store \<Rightarrow> 'f store \<Rightarrow> sntl_record list \<Rightarrow> bool" where
  "live ops s u xs \<longleftrightarrow> (\<exists>up. runs (store_step ops) (s, 0) xs (u, up))"

text \<open>
  A link to the store of a running node whose log is \<open>rs\<close> in the end: the bounds are read at two
  moments, the later one with the records \<open>xb\<close>, and each \<open>store_get\<close> checks its range at one later
  moment and reads at another, with any appends between.
\<close>

definition gets_live :: "'f nvs_ops \<Rightarrow> 'f store \<Rightarrow> sntl_record list \<Rightarrow> sntl_record list \<Rightarrow> u32 \<Rightarrow> int \<Rightarrow> sntl_record \<Rightarrow> bool" where
  "gets_live ops s xb rs seq g r \<longleftrightarrow>
     (\<exists>u1 xs1 u2 xs2 out. live ops s u1 xs1 \<and> live ops s u2 xs2 \<and>
        prefix xb xs1 \<and> prefix xs1 xs2 \<and> prefix xs2 rs \<and>
        (g, r) = (if store_get_check u1 seq then store_get_read ops u2 seq out else (- ENOENT, out)))"

definition serves_live :: "'f nvs_ops \<Rightarrow> 'f store \<Rightarrow> sntl_record list \<Rightarrow> sntl_record list \<Rightarrow> 'e link \<Rightarrow> 'e \<Rightarrow> bool" where
  "serves_live ops s xb rs lk e \<longleftrightarrow>
     (\<exists>u1 xa u2 e0. lk_bounds lk e = (store_oldest_seq u1, store_next_seq u2, e0) \<and>
        live ops s u1 xa \<and> live ops s u2 xb) \<and>
     (\<forall>seq e. \<exists>g r e'. lk_get lk seq e = (g, r, e') \<and> gets_live ops s xb rs seq g r)"

text \<open>What such a get gives: the record appended under the number, or nothing if it is gone.\<close>

lemma live_get:
  assumes c: "nvs_contract ops view" and e: "\<forall>k. view f k = None" and i: "store_init ops bd (store_boot f) = (0, s)"
    and g: "gets_live ops s xb rs seq g r" and k: "unat seq < length xb"
  shows "g = 0 \<Longrightarrow> r = rs ! unat seq" and "length rs \<le> unat seq + 2880 \<Longrightarrow> g = 0"
proof -
  let ?k = "unat seq"
  obtain u1 xs1 u2 xs2 out where u: "live ops s u1 xs1" "live ops s u2 xs2" "prefix xb xs1" "prefix xs1 xs2" "prefix xs2 rs"
    "(g, r) = (if store_get_check u1 seq then store_get_read ops u2 seq out else (- ENOENT, out))"
    using g unfolding gets_live_def by blast
  obtain up1 up2 where run: "runs (store_step ops) (s, 0) xs1 (u1, up1)" "runs (store_step ops) (s, 0) xs2 (u2, up2)"
    using u(1,2) unfolding live_def by blast
  have lens: "?k < length xs1" "length xs1 \<le> length xs2" "length xs2 \<le> length rs"
    using u(3-5) k by (auto dest!: prefix_length_le)
  then have at: "xs2 ! ?k = rs ! ?k" using u(5) by (auto simp: prefix_def nth_append)
  have read: "(if g = 0 then Some r else None) =
      (if store_get_check u1 seq then slot_record (view (fs u2) (slot seq)) seq else None)"
  proof (cases "store_get_check u1 seq")
    case True
    then show ?thesis
      using u(6) get_read_slot [OF c, of u2 seq out] by (cases "store_get_read ops u2 seq out") simp
  qed (use u(6) in simp)
  show "r = rs ! ?k" if "g = 0"
  proof -
    have "slot_record (view (fs u2) (slot seq)) seq = Some r" using read that by (simp split: if_splits)
    then show ?thesis using slots_hold_log [OF c e i run(2), of seq r] at by simp
  qed
  have held: "store_lookup ops u seq = Some (xs ! ?k)"
    if "runs (store_step ops) (s, 0) xs (u, up)" "?k < length xs" "length xs \<le> ?k + 2880" for xs u up
  proof -
    note facts = store_run_facts [OF c e i that(1)]
    have "unat (rec_seq (xs ! ?k)) = ?k"
      using arg_cong [OF conjunct1 [OF facts], of "\<lambda>l. l ! ?k"] that(2) by simp
    then have "rec_seq (xs ! ?k) = seq" by (simp add: word_unat_eq_iff)
    then show ?thesis using facts that(2,3) by (metis capacity)
  qed
  show "g = 0" if "length rs \<le> ?k + 2880"
  proof -
    have "store_lookup ops u1 seq \<noteq> None" "store_lookup ops u2 seq = Some (xs2 ! ?k)"
      using held [OF run(1)] held [OF run(2)] lens that by simp_all
    then show ?thesis using read by (simp add: lookup_eq [OF c] split: if_splits)
  qed
qed

text \<open>Hence every record such a dump encodes is right, and carries its number.\<close>

lemma live_reads:
  assumes "nvs_contract ops view" and "\<forall>k. view f k = None" and "store_init ops bd (store_boot f) = (0, s)"
    and "serves_live ops s xb rs lk e"
  shows "reads_by lk (\<lambda>seq r. unat seq < length xb \<longrightarrow>
           r = rs ! unat seq \<or> r = placeholder seq \<and> unat seq + 2880 < length rs)"
    and "link_gets lk"
proof -
  have gets: "\<exists>g r e'. lk_get lk seq e = (g, r, e') \<and> gets_live ops s xb rs seq g r" for seq e
    using assms(4) unfolding serves_live_def by blast
  let ?Q = "\<lambda>seq r. unat seq < length xb \<longrightarrow> r = rs ! unat seq \<or> r = placeholder seq \<and> unat seq + 2880 < length rs"
  show "reads_by lk ?Q"
    unfolding reads_by_def
  proof (intro allI)
    fix seq e
    obtain g r e' where g: "lk_get lk seq e = (g, r, e')" "gets_live ops s xb rs seq g r" using gets by blast
    have "?Q seq (if g \<noteq> 0 then placeholder seq else r)"
      using live_get [OF assms(1-3) g(2)] by (auto simp: not_le [symmetric])
    then show "\<exists>g r e'. lk_get lk seq e = (g, r, e') \<and> ?Q seq (if g \<noteq> 0 then placeholder seq else r)"
      using g(1) by blast
  qed
  show "link_gets lk"
    unfolding link_gets_def
  proof (intro allI impI)
    fix seq e g r e' assume a: "lk_get lk seq e = (g, r, e')" "g = 0"
    then have "gets_live ops s xb rs seq 0 r" using gets [of seq e] by auto
    then show "rec_seq r = seq"
      by (auto simp: gets_live_def store_get_read_def Let_def split: if_splits prod.splits)
  qed
qed

text \<open>
  C2: a dump that runs beside the main loop still tells the truth: on a link to the store of a
  running node, appends slipping in between any two calls and inside \<open>store_get\<close>, a dump that ends
  well is an accepted frame of consecutive numbers that were assigned when it began, and each of its
  records is the one appended under its number or the all-unknown placeholder, the placeholder
  only for records that the ring recycled while the dump ran.
\<close>

theorem dump_beside_appends:
  assumes "nvs_contract ops view" and "\<forall>k. view f k = None" and "store_init ops bd (store_boot f) = (0, s)"
    and "serves_live ops s xb rs lk e" and "length junk = 244"
    and "dump_run lk dev junk first e = Some (True, d, e')"
  shows "\<exists>start recs. decode_frame (concat (map fst (d_sent d))) = Some (copy_id SNTL_DEVICE_ID_LEN dev, recs) \<and>
    map (unat \<circ> rec_seq) recs = [start ..< start + length recs] \<and> start + length recs \<le> length xb \<and>
    (\<forall>i < length recs. recs ! i = rs ! (start + i) \<or>
       recs ! i = placeholder (of_nat (start + i)) \<and> start + i + STORE_CAPACITY < length rs)"
proof -
  obtain u1 xa u2 e0 where b: "lk_bounds lk e = (store_oldest_seq u1, store_next_seq u2, e0)"
    and "live ops s u1 xa" and l: "live ops s u2 xb"
    using assms(4) unfolding serves_live_def by blast
  obtain up where "runs (store_step ops) (s, 0) xb (u2, up)" using l unfolding live_def by blast
  from store_run_facts [OF assms(1-3) this] have nx: "unat (store_next_seq u2) = length xb" by simp
  obtain count start where r: "sntl_dump_range first (store_oldest_seq u1) (store_next_seq u2) = (count, start)"
    by fastforce
  let ?Q = "\<lambda>seq r. unat seq < length xb \<longrightarrow> r = rs ! unat seq \<or> r = placeholder seq \<and> unat seq + 2880 < length rs"
  note reads = live_reads [OF assms(1-4)]
  from run_reads [OF reads(1) assms(5) b r assms(6)]
  have q: "list_all2 (\<lambda>k. ?Q (of_nat k)) [unat start ..< unat start + unat count] (d_recs d)" .
  have frame: "concat (map fst (d_sent d)) = encode_frame dev (d_recs d)"
    and seqs: "map (unat \<circ> rec_seq) (d_recs d) = [unat start ..< unat start + unat count]"
    using run_result [OF reads(2) assms(5) b r assms(6)] by simp_all
  have len: "length (d_recs d) = unat count" using arg_cong [OF seqs, of length] by simp
  then have "length (d_recs d) < 65536" using unsigned_less [where ?'a = nat, of count] by simp
  from frame_decodes [OF this] frame
  have dec: "decode_frame (concat (map fst (d_sent d))) = Some (copy_id 8 dev, d_recs d)" by simp
  have top: "unat start + unat count \<le> length xb" using dump_range_end [OF r] nx by simp
  have "d_recs d ! i = rs ! (unat start + i) \<or>
      d_recs d ! i = placeholder (of_nat (unat start + i)) \<and> unat start + i + 2880 < length rs"
    if "i < unat count" for i
  proof -
    have n: "unat start + i < length xb" using top that by simp
    have "unat (store_next_seq u2) < 2 ^ 32" using unsigned_less [where ?'a = nat, of "store_next_seq u2"] by simp
    then have u: "unat (of_nat (unat start + i) :: u32) = unat start + i"
      using n nx by (intro unat_of_nat_small) simp
    have "?Q (of_nat (unat start + i)) (d_recs d ! i)"
      using list_all2_nthD2 [OF q, of i] that len by (simp del: of_nat_add)
    then show ?thesis using n u by (simp del: of_nat_add)
  qed
  then show ?thesis
    using dec seqs top len by (intro exI [of _ "unat start"] exI [of _ "d_recs d"]) simp
qed

text \<open>The first half minute of a device, and the dump that fetches its record.\<close>

lemma mem_append_ok: "fst (store_append mem_nvs up s r) = 0"
  by (simp add: store_append_def Let_def)

lemma mem_appended_all: "appended_all (fst (main_run mem_nvs i2c tks nd))"
proof (induction tks arbitrary: nd)
  case (Cons tk tks)
  have "\<forall>(err, r, line) \<in> set (fst (main_tick mem_nvs i2c tk nd)). err = 0"
    using tick_store [of mem_nvs i2c tk nd] mem_append_ok by (auto, metis fst_conv)
  then show ?case using Cons [of "snd (main_tick mem_nvs i2c tk nd)"] by (auto simp: appended_all_def case_prod_beta)
qed (simp add: appended_all_def)

lemma idle_ready:
  "nd_store nd = mem_boot \<Longrightarrow> 0 \<le> t \<Longrightarrow> t < 1000000 \<Longrightarrow> nd_now nd = t \<Longrightarrow> nd_next nd = t + 1000 \<Longrightarrow>
   unat (nd_sec nd) + n \<le> 30 \<Longrightarrow> t + 1000 * int n < 1000000 \<Longrightarrow>
   along store_ready mem_nvs i2c (idle t n) nd"
proof (induction n arbitrary: t nd)
  case (Suc n)
  let ?tk = "\<lparr>tk_before = [(t + 20, Some (True, 2))], tk_append = t + 20, tk_after = [], tk_sleep = [(t + 1000, None)]\<rparr> :: tick"
  let ?m = "snd (main_tick mem_nvs i2c ?tk nd)"
  have ready: "store_ready ?tk nd"
    using Suc.prems by (simp add: store_ready_def in_range_def mem_boot_def nat_less_iff)
  have ok: "tick_ok ?tk nd"
    using Suc.prems by (simp add: tick_ok_def time_after_def delay_cast)
  show ?case
  proof (cases n)
    case 0
    then show ?thesis using ready by simp
  next
    case (Suc k)
    then have sec: "unat (nd_sec nd) + 1 < 30" using Suc.prems by simp
    then have "unat (nd_sec nd + 1) = unat (nd_sec nd) + 1" by (subst unat_add_nowrap) simp_all
    then have "along store_ready mem_nvs i2c (idle (t + 1000) n) ?m"
      using Suc.prems quiet_tick [OF ok sec, of mem_nvs i2c] by (intro Suc.IH) (simp_all add: tick_events_def time_after_def)
    then show ?thesis using ready by simp
  qed
qed simp

definition first_node :: "(nat \<Rightarrow> bytes option, bytes list) node" where
  "first_node = blank_node\<lparr>nd_store := mem_boot, nd_next := 1000\<rparr>"

definition first_run :: "(int \<times> sntl_record \<times> console) list \<times> (nat \<Rightarrow> bytes option, bytes list) node" where
  "first_run = main_run mem_nvs bench (concat [idle 0 30]) first_node"

lemma first_along: "along tick_ok mem_nvs bench (concat [idle 0 30]) first_node"
  by (rule prompt_ok, simp only: concat.simps append_Nil2) (rule idle_prompt, simp_all add: first_node_def blank_node_def)

lemma first_ready: "along store_ready mem_nvs bench (concat [idle 0 30]) first_node"
  by (simp only: concat.simps append_Nil2) (rule idle_ready, simp_all add: first_node_def blank_node_def)

lemma first_init: "store_init mem_nvs good_board (store_boot (\<lambda>k. None)) = (0, nd_store first_node)"
  by (simp add: first_node_def mem_init)

lemma first_one: "length (records (fst first_run)) = 1"
  using one_record_each [OF first_along] by (simp add: records_def first_run_def first_node_def blank_node_def)

lemma first_live:
  "\<exists>up. runs (store_step mem_nvs) (nd_store first_node, 0) (records (fst first_run)) (nd_store (snd first_run), up)"
proof -
  have all: "appended_all (fst first_run)" unfolding first_run_def by (rule mem_appended_all)
  have "0 \<le> nd_now first_node" by (simp add: first_node_def blank_node_def)
  from run_store [OF first_along first_ready this] all show ?thesis
    unfolding first_run_def by blast
qed

lemma first_bounds:
  "store_oldest_seq (nd_store (snd first_run)) = 0" "store_next_seq (nd_store (snd first_run)) = 1"
proof -
  let ?t = "nd_store (snd first_run)" and ?rs = "records (fst first_run)"
  obtain up where run: "runs (store_step mem_nvs) (nd_store first_node, 0) ?rs (?t, up)" using first_live by blast
  note facts = store_run_facts [OF mem_nvs_contract _ first_init run, unfolded first_one]
  have n: "unat (store_next_seq ?t) = 1" using facts by simp
  then show "store_next_seq ?t = 1" by (simp add: word_unat_eq_iff)
  have "rec_seq (?rs ! 0) = 0" using facts first_one by (cases ?rs) (auto simp: unat_eq_zero)
  then have "store_lookup mem_nvs ?t 0 \<noteq> None" using facts by simp
  then have "unat (floor_seq ?t) \<le> 0" by (simp add: lookup_eq [OF mem_nvs_contract] check_nat split: if_splits)
  then have "unat (store_oldest_seq ?t) = 0" using n by (simp add: oldest_nat store_next_seq_def)
  then show "store_oldest_seq ?t = 0" by (simp add: unat_eq_zero)
qed

theorem dump_delivers_windows_witness:
  "\<exists>d e' r w aq. dump_run (ring_link 247 0 (0 + 1) (\<lambda>seq. store_get mem_nvs (nd_store (snd first_run)) seq zero_record))
       [0x50, 0x52] (replicate 244 0xAA) 0 [] = Some (True, d, e') \<and>
     decode_frame (concat (map fst (d_sent d))) = Some ([0x50, 0x52] @ replicate 6 0, [r]) \<and>
     content r = flush_record w aq"
proof -
  let ?lk = "ring_link 247 0 (0 + 1) (\<lambda>seq. store_get mem_nvs (nd_store (snd first_run)) seq zero_record)"
  have rng: "sntl_dump_range 0 0 (0 + 1) = (1, 0)" by (simp add: sntl_dump_range_def)
  obtain d e' where d: "dump_run ?lk [0x50, 0x52] (replicate 244 0xAA) 0 [] = Some (True, d, e')"
    by (rule ring_run [OF _ rng]) simp_all
  have s: "serves mem_nvs (nd_store (snd first_run)) ?lk []"
    using first_bounds by (auto simp: serves_def)
  have run: "main_run mem_nvs bench (concat [idle 0 30]) first_node = (fst first_run, snd first_run)"
    by (simp add: first_run_def)
  have all: "appended_all (fst first_run)" unfolding first_run_def by (rule mem_appended_all)
  from dump_delivers_windows [OF mem_nvs_contract _ first_init first_along first_ready _ _ _ run all s _ d]
  show ?thesis using d by (auto simp: first_node_def blank_node_def air_events_def case_prod_beta Let_def
      map_eq_Cons_conv)
qed

text \<open>The same dump, as one that runs beside the main loop.\<close>

theorem dump_beside_appends_witness:
  "\<exists>d e' r. dump_run (ring_link 247 0 (0 + 1) (\<lambda>seq. store_get mem_nvs (nd_store (snd first_run)) seq zero_record))
       [0x50, 0x52] (replicate 244 0xAA) 0 [] = Some (True, d, e') \<and>
     decode_frame (concat (map fst (d_sent d))) = Some ([0x50, 0x52] @ replicate 6 0, [r]) \<and>
     r = records (fst first_run) ! 0"
proof -
  let ?lk = "ring_link 247 0 (0 + 1) (\<lambda>seq. store_get mem_nvs (nd_store (snd first_run)) seq zero_record)"
  let ?t = "nd_store (snd first_run)" and ?rs = "records (fst first_run)"
  have rng: "sntl_dump_range 0 0 (0 + 1) = (1, 0)" by (simp add: sntl_dump_range_def)
  obtain d e' where d: "dump_run ?lk [0x50, 0x52] (replicate 244 0xAA) 0 [] = Some (True, d, e')" "length (d_recs d) = 1"
    by (rule ring_run [OF _ rng, of "\<lambda>seq. store_get mem_nvs (nd_store (snd first_run)) seq zero_record" "[0x50, 0x52]"])
      simp_all
  have lv: "live mem_nvs (nd_store first_node) ?t ?rs" using first_live by (auto simp: live_def)
  have "gets_live mem_nvs (nd_store first_node) ?rs ?rs seq (fst (store_get mem_nvs ?t seq zero_record))
      (snd (store_get mem_nvs ?t seq zero_record))" for seq
    unfolding gets_live_def
    by (intro exI [of _ ?t] exI [of _ ?rs] exI [of _ zero_record]) (simp add: lv store_get_def)
  then have s: "serves_live mem_nvs (nd_store first_node) ?rs ?rs ?lk []"
    using lv first_bounds unfolding serves_live_def by auto
  have one: "length ?rs = 1" by (rule first_one)
  from dump_beside_appends [OF mem_nvs_contract _ first_init s _ d(1)]
  obtain start recs where dec: "decode_frame (concat (map fst (d_sent d))) = Some (copy_id 8 [0x50, 0x52], recs)"
    "start + length recs \<le> 1" "\<forall>i < length recs. recs ! i = ?rs ! (start + i) \<or>
       recs ! i = placeholder (of_nat (start + i)) \<and> start + i + 2880 < length ?rs"
    using one by auto
  have "recs = d_recs d"
  proof -
    have "link_gets ?lk" using s by (auto simp: link_gets_def serves_live_def gets_live_def store_get_def
        store_get_read_def Let_def split: if_splits prod.splits)
    from run_result [OF this _ _ rng d(1)]
    have "concat (map fst (d_sent d)) = encode_frame [0x50, 0x52] (d_recs d)" by simp
    then show ?thesis using dec(1) frame_decodes [of "d_recs d" "[0x50, 0x52]"] d(2) by simp
  qed
  then obtain r where "recs = [r]" using d(2) by (auto simp: length_Suc_conv)
  then show ?thesis using d(1) dec one by (intro exI [of _ d] exI [of _ e'] exI [of _ r]) (auto)
qed

end
